(* ===== verification/Psync_Prelude.thy ===== *)
theory Psync_Prelude
  imports Main "HOL-Library.Word"
begin

text \<open>
  The prelude of the psync development: the machine types of \<^verbatim>\<open>psync_platform.h\<close>,
  counting over the list of threads, the masks used by the lock words read as
  arithmetic, and runs and reachable states of a labelled step function. Every
  component theory imports it, directly or through \<^verbatim>\<open>Futex\<close>.
\<close>

unbundle bit_operations_syntax

section \<open>Machine types\<close>

type_synonym u8 = "8 word"
type_synonym u16 = "16 word"
type_synonym u32 = "32 word"
type_synonym u64 = "64 word"
type_synonym i32 = "32 word"
type_synonym i64 = "64 word"
type_synonym usize = "64 word"
type_synonym isize = "64 word"

text \<open>Threads are numbered; a system of \<open>n\<close> threads has the identifiers \<open>0..<n\<close>.\<close>

type_synonym tid = nat

named_theorems mask_simps \<open>lock-word masks as arithmetic on the unsigned value\<close>
named_theorems cnt_simps \<open>counting threads by program point\<close>

section \<open>Counting threads\<close>

definition cnt :: "('l \<Rightarrow> bool) \<Rightarrow> 'l list \<Rightarrow> nat" where
  "cnt P ls = length (filter P ls)"

lemma cnt_replicate [cnt_simps]: "cnt P (replicate n x) = (if P x then n else 0)"
  by (simp add: cnt_def filter_replicate)

lemma cnt_le_length: "cnt P ls \<le> length ls"
  by (simp add: cnt_def)

lemma cnt_update: "t < length ls \<Longrightarrow>
    cnt P (ls[t := x]) + of_bool (P (ls ! t)) = cnt P ls + of_bool (P x)"
proof (induction ls arbitrary: t)
  case Nil
  then show ?case by simp
next
  case (Cons l ls)
  then show ?case
    by (cases t) (fastforce simp: cnt_def)+
qed

lemma cnt_pos: "t < length ls \<Longrightarrow> P (ls ! t) \<Longrightarrow> 0 < cnt P ls"
  by (auto simp: cnt_def filter_empty_conv intro: nth_mem)

lemma cnt_ge1: "t < length ls \<Longrightarrow> P (ls ! t) \<Longrightarrow> 1 \<le> cnt P ls"
  using cnt_pos [of t ls P] by simp

lemma cnt_0_iff: "cnt P ls = 0 \<longleftrightarrow> (\<forall>t < length ls. \<not> P (ls ! t))"
  by (auto simp: cnt_def filter_empty_conv all_set_conv_all_nth)

lemma cnt_update_same [cnt_simps]: "t < length ls \<Longrightarrow> P x = P (ls ! t) \<Longrightarrow>
    cnt P (ls[t := x]) = cnt P ls"
  using cnt_update [of t ls P x] by simp

lemma cnt_enter [cnt_simps]: "t < length ls \<Longrightarrow> \<not> P (ls ! t) \<Longrightarrow> P x \<Longrightarrow>
    cnt P (ls[t := x]) = Suc (cnt P ls)"
  using cnt_update [of t ls P x] by simp

lemma cnt_leave [cnt_simps]: "t < length ls \<Longrightarrow> P (ls ! t) \<Longrightarrow> \<not> P x \<Longrightarrow>
    cnt P (ls[t := x]) = cnt P ls - 1"
  using cnt_update [of t ls P x] by simp

text \<open>The count as a machine word, and a counter that moves against it.\<close>

lemma cnt_word_update:
  "t < length ls \<Longrightarrow> (of_nat (cnt P (ls[t := x])) :: 'a :: len word) + of_bool (P (ls ! t)) = of_nat (cnt P ls) + of_bool (P x)"
  using cnt_update [of t ls P x, THEN arg_cong [where f = "of_nat :: nat \<Rightarrow> 'a word"]] by (simp add: of_bool_def split: if_splits)

lemma count_shift:
  fixes a :: "'a :: ab_group_add"
  assumes "a' + b' + g = a + b + g'" "c' + b = c + b'" "a + c = g"
  shows "a' + c' = g'"
proof -
  have "a' + c' + (b' + b + g) = (a' + b' + g) + (c' + b)"
    by (simp add: ac_simps)
  also have "\<dots> = (a + b + g') + (c + b')"
    using assms by simp
  also have "\<dots> = g' + (b' + b + (a + c))"
    by (simp add: ac_simps)
  finally show ?thesis
    using assms(3) by simp
qed

text \<open>Two different threads at counted points make the count at least two.\<close>

lemma cnt_two: "i < length ls \<Longrightarrow> j < length ls \<Longrightarrow> i \<noteq> j \<Longrightarrow> P (ls ! i) \<Longrightarrow> P (ls ! j) \<Longrightarrow>
    2 \<le> cnt P ls"
proof (induction ls arbitrary: i j)
  case Nil
  then show ?case by simp
next
  case (Cons l ls)
  have pos: "0 < cnt P ls" if "k < length ls" "P (ls ! k)" for k
    using that by (rule cnt_pos)
  show ?case
  proof (cases i)
    case 0
    with Cons.prems obtain j' where "j = Suc j'" by (cases j) auto
    with 0 Cons.prems pos [of j'] show ?thesis by (simp add: cnt_def Suc_le_eq)
  next
    case (Suc i')
    show ?thesis
    proof (cases j)
      case 0
      with Suc Cons.prems pos [of i'] show ?thesis by (simp add: cnt_def Suc_le_eq)
    next
      case (Suc j')
      with \<open>i = Suc i'\<close> Cons.prems Cons.IH [of i' j'] show ?thesis by (simp add: cnt_def)
    qed
  qed
qed

lemma cnt_le1_unique: "cnt P ls \<le> 1 \<Longrightarrow> i < length ls \<Longrightarrow> j < length ls \<Longrightarrow>
    P (ls ! i) \<Longrightarrow> P (ls ! j) \<Longrightarrow> i = j"
  using cnt_two [of i ls j P] by linarith

lemma cnt_disjoint: "(\<And>l. \<not> (P l \<and> Q l)) \<Longrightarrow> cnt P ls + cnt Q ls \<le> length ls"
  by (induction ls) (auto simp: cnt_def)

lemma cnt_mono: "(\<And>l. P l \<Longrightarrow> Q l) \<Longrightarrow> cnt P ls \<le> cnt Q ls"
  by (induction ls) (auto simp: cnt_def)

lemma cnt_card: "cnt P ls = card {t. t < length ls \<and> P (ls ! t)}"
  by (simp add: cnt_def length_filter_conv_card)

text \<open>Threads that all are at counted points, and one more: the count is larger than their number.\<close>

lemma cnt_ge_distinct: "distinct q \<Longrightarrow> \<forall>t \<in> set q. t < length ls \<and> P (ls ! t) \<Longrightarrow>
    length q \<le> cnt P ls"
proof -
  assume q: "distinct q" "\<forall>t \<in> set q. t < length ls \<and> P (ls ! t)"
  then have "card (set q) \<le> card {t. t < length ls \<and> P (ls ! t)}"
    by (intro card_mono) auto
  with q show ?thesis by (simp add: cnt_card distinct_card)
qed

lemma cnt_gt_distinct: "distinct q \<Longrightarrow> \<forall>t \<in> set q. t < length ls \<and> P (ls ! t) \<Longrightarrow>
    t < length ls \<Longrightarrow> t \<notin> set q \<Longrightarrow> P (ls ! t) \<Longrightarrow> length q < cnt P ls"
  using cnt_ge_distinct [of "t # q" ls P] by simp

lemma cnt_full: "cnt P ls = length ls \<Longrightarrow> t < length ls \<Longrightarrow> P (ls ! t)"
  by (metis cnt_def filter_id_conv length_filter_less nth_mem order_less_irrefl)

text \<open>Sums over the threads.\<close>

definition wsum :: "('l \<Rightarrow> nat) \<Rightarrow> 'l list \<Rightarrow> nat" where
  "wsum f ls = sum_list (map f ls)"

lemma wsum_update: "t < length ls \<Longrightarrow> wsum f (ls[t := x]) + f (ls ! t) = wsum f ls + f x"
proof (induction ls arbitrary: t)
  case Nil
  then show ?case by simp
next
  case (Cons l ls)
  then show ?case by (cases t) (fastforce simp: wsum_def)+
qed

lemma wsum_replicate [cnt_simps]: "wsum f (replicate n x) = n * f x"
  by (simp add: wsum_def sum_list_replicate)

lemma wsum_ge: "t < length ls \<Longrightarrow> f (ls ! t) \<le> wsum f ls"
  using wsum_update [of t ls f "ls ! t"] by (simp add: wsum_def elem_le_sum_list [of t "map f ls", simplified])

lemma wsum_0: "(\<And>t. t < length ls \<Longrightarrow> f (ls ! t) = 0) \<Longrightarrow> wsum f ls = 0"
  by (auto simp: wsum_def in_set_conv_nth)

lemma wsum_pos: "wsum f ls \<noteq> 0 \<Longrightarrow> \<exists>t < length ls. f (ls ! t) \<noteq> 0"
proof (rule ccontr)
  assume "wsum f ls \<noteq> 0" and "\<not> (\<exists>t < length ls. f (ls ! t) \<noteq> 0)"
  then show False using wsum_0 [of ls f] by auto
qed

lemma all_nth_update: "\<forall>u < length ls. P (ls ! u) \<Longrightarrow> P l \<Longrightarrow>
    \<forall>u < length (ls[t := l]). P (ls[t := l] ! u)"
  by (cases "t < length ls") (auto simp: nth_list_update)

section \<open>Masks as arithmetic\<close>

text \<open>
  A lock word is read and written through masks; the invariants speak about its
  unsigned value. A mask of the low \<open>n\<close> bits is the remainder modulo \<open>2 ^ n\<close>, the
  complement of the mask is what that remainder leaves.
\<close>

lemma unat_and_mask: "unat (w AND mask n) = unat w mod 2 ^ n" for w :: "'a::len word"
  by (simp flip: take_bit_eq_mask take_bit_eq_mod unsigned_take_bit_eq)

lemma unat_and_not_mask: "unat (w AND NOT (mask n)) = unat w - unat w mod 2 ^ n"
  for w :: "'a::len word"
proof -
  have sum: "(w AND mask n) + (w AND NOT (mask n)) = w"
  proof -
    have "(w AND mask n) AND (w AND NOT (mask n)) = 0"
      by (simp add: bit_eq_iff bit_simps)
    then have "(w AND mask n) + (w AND NOT (mask n)) = (w AND mask n) OR (w AND NOT (mask n))"
      by (rule disjunctive_add_eq_or)
    also have "\<dots> = w" by (auto simp: bit_eq_iff bit_simps)
    finally show ?thesis .
  qed
  then have "w AND NOT (mask n) = w - (w AND mask n)"
    by (metis add_diff_cancel_left')
  moreover have "w AND mask n \<le> w"
    by (rule word_and_le2)
  ultimately show ?thesis
    by (simp add: unat_sub unat_and_mask word_le_nat_alt)
qed

lemma unat_and_1: "unat (w AND 1) = unat w mod 2" for w :: "'a::len word"
  using unat_and_mask [of w 1] by simp

lemma word_and_1_eq_0 [mask_simps]: "(w AND 1 = 0) = even (unat w)" for w :: "'a::len word"
  using unat_and_1 [of w] by (auto simp: unat_eq_zero [symmetric] even_iff_mod_2_eq_zero)

lemma unat_and_not_1 [mask_simps]: "unat (w AND NOT 1) = unat w - unat w mod 2"
  for w :: "'a::len word"
  using unat_and_not_mask [of w 1] by simp

lemma unat_and_minus_2 [mask_simps]: "unat (w AND - 2) = unat w - unat w mod 2"
  for w :: "'a::len word"
  using unat_and_not_1 [of w] by simp

lemma unat_or_1 [mask_simps]: "even (unat w) \<Longrightarrow> unat (w OR 1) = unat w + 1"
  for w :: "'a::len word"
proof -
  assume "even (unat w)"
  then have "w AND 1 = 0" by (simp add: word_and_1_eq_0)
  then have "w OR 1 = w + 1" by (simp add: disjunctive_add_eq_or [symmetric])
  moreover have "unat w + 1 < 2 ^ LENGTH('a)"
  proof (rule ccontr)
    assume "\<not> unat w + 1 < 2 ^ LENGTH('a)"
    moreover have "unat w < 2 ^ LENGTH('a)" by simp
    ultimately have "unat w + 1 = 2 ^ LENGTH('a)" by linarith
    then have "even (unat w + 1)" by simp
    with \<open>even (unat w)\<close> show False by simp
  qed
  ultimately show ?thesis by (simp add: unat_word_ariths)
qed

text \<open>Additions and subtractions that stay in range.\<close>

lemma unat_add_small: "unat a + unat b < 2 ^ LENGTH('a) \<Longrightarrow> unat (a + b) = unat a + unat b"
  for a b :: "'a::len word"
  by (simp add: unat_word_ariths)

lemma unat_sub_small: "unat b \<le> unat a \<Longrightarrow> unat (a - b) = unat a - unat b"
  for a b :: "'a::len word"
  by (simp add: unat_sub word_le_nat_alt)

text \<open>Counters that are kept modulo the word size agree only if they are far apart or equal.\<close>

lemma word_of_nat_close:
  assumes "(word_of_nat a :: 'a::len word) = word_of_nat b" and "b \<le> a" and "a < b + 2 ^ LENGTH('a)"
  shows "a = b"
proof -
  have "a mod 2 ^ LENGTH('a) = b mod 2 ^ LENGTH('a)"
    using arg_cong [OF assms(1), of unat] by (simp add: unat_of_nat)
  then have "(a - b) mod 2 ^ LENGTH('a) = 0" using assms(2) by (simp add: mod_eq_dvd_iff_nat)
  with assms(2,3) show ?thesis by (simp add: mod_less)
qed

text \<open>Pointwise combination of two lists when one position changes.\<close>

lemma map2_update: "map2 f (xs[t := x]) (ys[t := y]) = (map2 f xs ys)[t := f x y]"
  by (simp add: update_zip [where xy = "(x, y)", symmetric, simplified] map_update)

lemma map2_update_left: "map2 f (xs[t := x]) ys = (map2 f xs ys)[t := f x (ys ! t)]"
  using map2_update [of f xs t x ys "ys ! t"] by simp

lemma map2_update_right: "map2 f xs (ys[t := y]) = (map2 f xs ys)[t := f (xs ! t) y]"
  using map2_update [of f xs t "xs ! t" ys y] by simp

section \<open>Runs and reachable states\<close>

text \<open>
  A system is a partial step function: \<open>stp a s\<close> is the state after action \<open>a\<close>, \<open>None\<close>
  where the action is not enabled. A schedule is a list of actions.
\<close>

fun run :: "('a \<Rightarrow> 's \<Rightarrow> 's option) \<Rightarrow> 'a list \<Rightarrow> 's \<Rightarrow> 's option" where
  "run stp [] s = Some s"
| "run stp (a # as) s = (case stp a s of None \<Rightarrow> None | Some s' \<Rightarrow> run stp as s')"

inductive reachable :: "('a \<Rightarrow> 's \<Rightarrow> 's option) \<Rightarrow> 's \<Rightarrow> 's \<Rightarrow> bool"
  for stp :: "'a \<Rightarrow> 's \<Rightarrow> 's option" and s0 :: 's where
  start: "reachable stp s0 s0"
| step: "reachable stp s0 s \<Longrightarrow> stp a s = Some s' \<Longrightarrow> reachable stp s0 s'"

lemma run_append: "run stp (as @ bs) s = (case run stp as s of None \<Rightarrow> None | Some s' \<Rightarrow> run stp bs s')"
  by (induction as arbitrary: s) (auto split: option.splits)

lemma run_snoc: "run stp as s = Some s' \<Longrightarrow> stp a s' = Some s'' \<Longrightarrow> run stp (as @ [a]) s = Some s''"
  by (simp add: run_append)

lemma run_trans: "run stp as s = Some s' \<Longrightarrow> run stp bs s' = Some s'' \<Longrightarrow>
    run stp (as @ bs) s = Some s''"
  by (simp add: run_append)

lemma reachable_run: "reachable stp s0 s \<Longrightarrow> run stp as s = Some s' \<Longrightarrow> reachable stp s0 s'"
proof (induction as arbitrary: s)
  case Nil
  then show ?case by simp
next
  case (Cons a as)
  then show ?case by (auto split: option.splits intro: reachable.step)
qed

lemma run_reachable: "run stp as s0 = Some s \<Longrightarrow> reachable stp s0 s"
  using reachable_run [OF reachable.start] .

lemma reachable_iff_run: "reachable stp s0 s \<longleftrightarrow> (\<exists>as. run stp as s0 = Some s)"
proof
  assume "reachable stp s0 s"
  then show "\<exists>as. run stp as s0 = Some s"
  proof (induction rule: reachable.induct)
    case start
    have "run stp [] s0 = Some s0" by simp
    then show ?case by blast
  next
    case (step s a s')
    then show ?case by (blast intro: run_snoc)
  qed
qed (auto intro: run_reachable)

text \<open>The invariant rule: what holds at the start and is kept by every step holds throughout.\<close>

lemma reachable_invariant:
  assumes "reachable stp s0 s" and "I s0"
    and "\<And>s a s'. I s \<Longrightarrow> stp a s = Some s' \<Longrightarrow> I s'"
  shows "I s"
  using assms(1) by (induction rule: reachable.induct) (auto intro: assms)

text \<open>Simulation: an abstraction under which every step is a step of the abstract system or none.\<close>

lemma reachable_simulation:
  assumes "reachable stp s0 s" and "I s0"
    and "\<And>s a s'. I s \<Longrightarrow> stp a s = Some s' \<Longrightarrow>
           I s' \<and> (f s' = f s \<or> (\<exists>b. astp b (f s) = Some (f s')))"
  shows "reachable astp (f s0) (f s)"
proof -
  from assms(1) have "I s \<and> reachable astp (f s0) (f s)"
  proof (induction rule: reachable.induct)
    case start
    with assms(2) show ?case by (simp add: reachable.start)
  next
    case (step s a s')
    then show ?case by (metis assms(3) reachable.step)
  qed
  then show ?thesis by simp
qed

end
