(* ===== verification/Atomics.thy ===== *)
theory Atomics
  imports Psync_Prelude
begin

text \<open>
  The atomic primitives of \<^verbatim>\<open>psync_platform.h\<close> on one memory cell. An operation takes the
  value of the cell and gives the value returned and the value left behind. The accesses are
  interleaved one at a time (sequential consistency): the \<open>MemoryOrder\<close> argument is kept,
  as the code passes it, and has no effect in this model.
\<close>

section \<open>Memory orders\<close>

datatype MemoryOrder = MO_relaxed | MO_acquire | MO_release | MO_acq_rel

text \<open>The values of the non-GCC enumeration; the compiler's own macros have the same ones.\<close>

fun memory_order_value :: "MemoryOrder \<Rightarrow> nat" where
  "memory_order_value MO_relaxed = 0"
| "memory_order_value MO_acquire = 2"
| "memory_order_value MO_release = 3"
| "memory_order_value MO_acq_rel = 4"

section \<open>The primitives over the compiler builtins\<close>

definition atomic_load :: "'a::len word \<Rightarrow> MemoryOrder \<Rightarrow> 'a word" where
  "atomic_load cell order = cell"

definition atomic_store :: "'a::len word \<Rightarrow> 'a word \<Rightarrow> MemoryOrder \<Rightarrow> 'a word" where
  "atomic_store cell value order = value"

definition atomic_exchange :: "'a::len word \<Rightarrow> 'a word \<Rightarrow> MemoryOrder \<Rightarrow> 'a word \<times> 'a word" where
  "atomic_exchange cell value order = (cell, value)"

text \<open>
  The strong compare-and-exchange: whether it succeeded, the cell afterwards and the value of
  \<open>*expected\<close> afterwards, which a failure overwrites with the cell's value.
\<close>

definition atomic_compare_exchange ::
    "'a::len word \<Rightarrow> 'a word \<Rightarrow> 'a word \<Rightarrow> MemoryOrder \<Rightarrow> MemoryOrder \<Rightarrow>
      bool \<times> 'a word \<times> 'a word" where
  "atomic_compare_exchange cell expected desired success_order failure_order =
     (if cell = expected then (True, desired, expected) else (False, cell, cell))"

definition atomic_fetch_add :: "'a::len word \<Rightarrow> 'a word \<Rightarrow> MemoryOrder \<Rightarrow> 'a word \<times> 'a word" where
  "atomic_fetch_add cell value order = (cell, cell + value)"

definition atomic_fetch_sub :: "'a::len word \<Rightarrow> 'a word \<Rightarrow> MemoryOrder \<Rightarrow> 'a word \<times> 'a word" where
  "atomic_fetch_sub cell value order = (cell, cell - value)"

definition atomic_fetch_and :: "'a::len word \<Rightarrow> 'a word \<Rightarrow> MemoryOrder \<Rightarrow> 'a word \<times> 'a word" where
  "atomic_fetch_and cell value order = (cell, cell AND value)"

definition atomic_fetch_or :: "'a::len word \<Rightarrow> 'a word \<Rightarrow> MemoryOrder \<Rightarrow> 'a word \<times> 'a word" where
  "atomic_fetch_or cell value order = (cell, cell OR value)"

lemmas atomic_defs = atomic_load_def atomic_store_def atomic_exchange_def
  atomic_compare_exchange_def atomic_fetch_add_def atomic_fetch_sub_def atomic_fetch_and_def
  atomic_fetch_or_def

declare atomic_defs [simp]

section \<open>The primitives over the MSVC intrinsics\<close>

text \<open>
  The intrinsics of the compiler, on a 32-bit \<open>long\<close> and a 64-bit \<open>long long\<close>: the old value of the cell
  and the one left behind.
\<close>

definition InterlockedExchange :: "'b::len word \<Rightarrow> 'b word \<Rightarrow> 'b word \<times> 'b word" where
  "InterlockedExchange cell value = (cell, value)"

definition InterlockedCompareExchange :: "'b::len word \<Rightarrow> 'b word \<Rightarrow> 'b word \<Rightarrow> 'b word \<times> 'b word" where
  "InterlockedCompareExchange cell exchange comparand = (cell, if cell = comparand then exchange else cell)"

definition InterlockedExchangeAdd :: "'b::len word \<Rightarrow> 'b word \<Rightarrow> 'b word \<times> 'b word" where
  "InterlockedExchangeAdd cell value = (cell, cell + value)"

definition InterlockedAnd :: "'b::len word \<Rightarrow> 'b word \<Rightarrow> 'b word \<times> 'b word" where
  "InterlockedAnd cell value = (cell, cell AND value)"

definition InterlockedOr :: "'b::len word \<Rightarrow> 'b word \<Rightarrow> 'b word \<times> 'b word" where
  "InterlockedOr cell value = (cell, cell OR value)"

lemmas interlocked_defs = InterlockedExchange_def InterlockedCompareExchange_def InterlockedExchangeAdd_def
  InterlockedAnd_def InterlockedOr_def

text \<open>
  The MSVC branch picks the intrinsic by the size of the type, 4 bytes or 8 bytes, and casts the cell, the
  arguments and the result. Any other size is a failed \<open>static_assert\<close>, so the instantiation does not
  compile: the result \<open>None\<close>.
\<close>

definition sizeof_is :: "'a::len itself \<Rightarrow> nat \<Rightarrow> bool" where
  "sizeof_is _ n \<longleftrightarrow> LENGTH('a) = 8 * n"

definition msvc_atomic_load :: "'a::len word \<Rightarrow> MemoryOrder \<Rightarrow> 'a word" where
  "msvc_atomic_load cell order = cell"

definition msvc_atomic_store :: "'a::len word \<Rightarrow> 'a word \<Rightarrow> MemoryOrder \<Rightarrow> 'a word" where
  "msvc_atomic_store cell value order = value"

definition cast_back :: "'b::len word \<times> 'b word \<Rightarrow> 'a::len word \<times> 'a word" where
  "cast_back r = (ucast (fst r), ucast (snd r))"

definition msvc_atomic_exchange :: "'a::len word \<Rightarrow> 'a word \<Rightarrow> ('a word \<times> 'a word) option" where
  "msvc_atomic_exchange cell value =
     (if sizeof_is TYPE('a) 4 then Some (cast_back (InterlockedExchange (ucast cell :: 32 word) (ucast value)))
      else if sizeof_is TYPE('a) 8 then Some (cast_back (InterlockedExchange (ucast cell :: 64 word) (ucast value)))
      else None)"

definition msvc_atomic_compare_exchange ::
    "'a::len word \<Rightarrow> 'a word \<Rightarrow> 'a word \<Rightarrow> (bool \<times> 'a word \<times> 'a word) option" where
  "msvc_atomic_compare_exchange cell expected desired =
     (if sizeof_is TYPE('a) 4 then
        (let old = expected;
             (result, cell') = cast_back (InterlockedCompareExchange (ucast cell :: 32 word) (ucast desired) (ucast old))
         in if result = old then Some (True, cell', expected) else Some (False, cell', result))
      else if sizeof_is TYPE('a) 8 then
        (let old = expected;
             (result, cell') = cast_back (InterlockedCompareExchange (ucast cell :: 64 word) (ucast desired) (ucast old))
         in if result = old then Some (True, cell', expected) else Some (False, cell', result))
      else None)"

definition msvc_atomic_fetch_add :: "'a::len word \<Rightarrow> 'a word \<Rightarrow> ('a word \<times> 'a word) option" where
  "msvc_atomic_fetch_add cell value =
     (if sizeof_is TYPE('a) 4 then Some (cast_back (InterlockedExchangeAdd (ucast cell :: 32 word) (ucast value)))
      else if sizeof_is TYPE('a) 8 then Some (cast_back (InterlockedExchangeAdd (ucast cell :: 64 word) (ucast value)))
      else None)"

definition msvc_atomic_fetch_sub :: "'a::len word \<Rightarrow> 'a word \<Rightarrow> ('a word \<times> 'a word) option" where
  "msvc_atomic_fetch_sub cell value = msvc_atomic_fetch_add cell (- value)"

definition msvc_atomic_fetch_and :: "'a::len word \<Rightarrow> 'a word \<Rightarrow> ('a word \<times> 'a word) option" where
  "msvc_atomic_fetch_and cell value =
     (if sizeof_is TYPE('a) 4 then Some (cast_back (InterlockedAnd (ucast cell :: 32 word) (ucast value)))
      else if sizeof_is TYPE('a) 8 then Some (cast_back (InterlockedAnd (ucast cell :: 64 word) (ucast value)))
      else None)"

definition msvc_atomic_fetch_or :: "'a::len word \<Rightarrow> 'a word \<Rightarrow> ('a word \<times> 'a word) option" where
  "msvc_atomic_fetch_or cell value =
     (if sizeof_is TYPE('a) 4 then Some (cast_back (InterlockedOr (ucast cell :: 32 word) (ucast value)))
      else if sizeof_is TYPE('a) 8 then Some (cast_back (InterlockedOr (ucast cell :: 64 word) (ucast value)))
      else None)"

lemmas msvc_defs = msvc_atomic_load_def msvc_atomic_store_def msvc_atomic_exchange_def msvc_atomic_compare_exchange_def
  msvc_atomic_fetch_add_def msvc_atomic_fetch_sub_def msvc_atomic_fetch_and_def
  msvc_atomic_fetch_or_def interlocked_defs cast_back_def

text \<open>Casts between words of one length change nothing, and commute with the operations.\<close>

lemma cast_roundtrip:
  fixes x :: "'a::len word"
  assumes "LENGTH('b::len) = LENGTH('a)"
  shows "ucast (ucast x :: 'b word) = x"
  using assms by (simp add: word_eq_iff_unsigned [where ?'a = int] unsigned_ucast_eq)

lemma cast_inject:
  fixes x y :: "'a::len word"
  assumes "LENGTH('b::len) = LENGTH('a)"
  shows "(ucast x :: 'b word) = ucast y \<longleftrightarrow> x = y"
  using cast_roundtrip [OF assms] by metis

lemma cast_arith:
  fixes x y :: "'a::len word"
  assumes "LENGTH('b::len) = LENGTH('a)"
  shows "ucast (ucast x + ucast y :: 'b word) = x + y"
    and "ucast (ucast x AND ucast y :: 'b word) = x AND y"
    and "ucast (ucast x OR ucast y :: 'b word) = x OR y"
  using assms
  by (simp_all add: word_eq_iff_unsigned [where ?'a = int] unsigned_ucast_eq uint_word_ariths unsigned_and_eq unsigned_or_eq
      take_bit_eq_mod)

text \<open>What a primitive gives where the intrinsic exists.\<close>

definition where_supported :: "'a::len itself \<Rightarrow> 'r \<Rightarrow> 'r option" where
  "where_supported T r = (if sizeof_is T 4 \<or> sizeof_is T 8 then Some r else None)"

text \<open>
  C38. The two compiler branches agree: on types of 4 and 8 bytes each primitive over the MSVC intrinsics
  returns what the one over the builtins returns and leaves the same cell, the failed comparison's
  update of \<open>*expected\<close> and the subtraction by adding the negative included; for every other size only
  load and store exist. The 1-byte word of \<open>MicroLock\<close> therefore has no MSVC instance.
\<close>
theorem msvc_branch_equivalent:
  fixes cell v e :: "'a::len word" and b :: u8
  shows "msvc_atomic_load cell ord = atomic_load cell ord \<and> msvc_atomic_store cell v ord = atomic_store cell v ord \<and>
    msvc_atomic_exchange cell v = where_supported TYPE('a) (atomic_exchange cell v ord) \<and>
    msvc_atomic_compare_exchange cell e v = where_supported TYPE('a) (atomic_compare_exchange cell e v ord ord') \<and>
    msvc_atomic_fetch_add cell v = where_supported TYPE('a) (atomic_fetch_add cell v ord) \<and>
    msvc_atomic_fetch_sub cell v = where_supported TYPE('a) (atomic_fetch_sub cell v ord) \<and>
    msvc_atomic_fetch_and cell v = where_supported TYPE('a) (atomic_fetch_and cell v ord) \<and>
    msvc_atomic_fetch_or cell v = where_supported TYPE('a) (atomic_fetch_or cell v ord) \<and>
    msvc_atomic_compare_exchange b 0 1 = None"
  by (auto simp: msvc_defs where_supported_def sizeof_is_def Let_def cast_roundtrip cast_inject cast_arith)

end
