(* ===== verification/Futex.thy ===== *)
theory Futex
  imports Atomics
begin

text \<open>
  The futex layer of \<^verbatim>\<open>psync_platform.h\<close> and the systems built on it. First the argument
  conversions of the wrappers (wake counts, time splits, operation codes), which are code of the
  repository; then the kernel side, which is not: it is an environment that keeps the
  documented contract of \<^verbatim>\<open>FUTEX_WAIT\<close> and \<^verbatim>\<open>FUTEX_WAKE\<close>. A component is given by its
  threads' program points and one transition function; \<open>sys_step\<close> interleaves the threads
  of such a component with the kernel, and the locale \<open>futex_client\<close> holds what is true of
  all of them.
\<close>

section \<open>The wrappers of the system call (Linux)\<close>

definition FUTEX_WAIT :: u32 where "FUTEX_WAIT = 0"
definition FUTEX_WAKE :: u32 where "FUTEX_WAKE = 1"
definition FUTEX_REQUEUE :: u32 where "FUTEX_REQUEUE = 12"
definition FUTEX_CMP_REQUEUE :: u32 where "FUTEX_CMP_REQUEUE = 13"
definition FUTEX_PRIVATE_FLAG :: u32 where "FUTEX_PRIVATE_FLAG = 128"

definition FUTEX_WAIT_PRIVATE :: u32 where
  "FUTEX_WAIT_PRIVATE = FUTEX_WAIT OR FUTEX_PRIVATE_FLAG"
definition FUTEX_WAKE_PRIVATE :: u32 where
  "FUTEX_WAKE_PRIVATE = FUTEX_WAKE OR FUTEX_PRIVATE_FLAG"
definition FUTEX_CMP_REQUEUE_PRIVATE :: u32 where
  "FUTEX_CMP_REQUEUE_PRIVATE = FUTEX_CMP_REQUEUE OR FUTEX_PRIVATE_FLAG"

lemmas futex_op_defs = FUTEX_WAIT_def FUTEX_WAKE_def FUTEX_REQUEUE_def FUTEX_CMP_REQUEUE_def
  FUTEX_PRIVATE_FLAG_def FUTEX_WAIT_PRIVATE_def FUTEX_WAKE_PRIVATE_def
  FUTEX_CMP_REQUEUE_PRIVATE_def

record timespec =
  tv_sec :: i64
  tv_nsec :: i64

text \<open>
  The arguments of one \<open>syscall(SYS_FUTEX, ...)\<close>: the fourth is a timeout or, for the requeue
  operations, a count passed in the pointer's place.
\<close>

datatype futex_arg4 = NoTimeout | Timeout timespec | CountAsPointer u64

record futex_call =
  fc_op :: u32
  fc_val :: u32
  fc_arg4 :: futex_arg4
  fc_val3 :: u32

text \<open>
  The kernel is a parameter \<open>sys\<close>: what the call returns and the \<open>errno\<close> it leaves. The
  wrapper turns a negative result into \<open>-errno\<close> and truncates the others to 32 bits.
\<close>

definition futex_syscall :: "(futex_call \<Rightarrow> int \<times> i32) \<Rightarrow> futex_call \<Rightarrow> i32" where
  "futex_syscall sys c = (let (result, errno) = sys c in
     if result < 0 then - errno else word_of_int result)"

definition futex_wait :: "(futex_call \<Rightarrow> int \<times> i32) \<Rightarrow> u32 \<Rightarrow> i32" where
  "futex_wait sys val =
     futex_syscall sys \<lparr>fc_op = FUTEX_WAIT_PRIVATE, fc_val = val, fc_arg4 = NoTimeout, fc_val3 = 0\<rparr>"

definition timespec_of_ns :: "u64 \<Rightarrow> timespec" where
  "timespec_of_ns timeout_ns =
     \<lparr>tv_sec = timeout_ns div 1000000000, tv_nsec = timeout_ns mod 1000000000\<rparr>"

definition futex_wait_for :: "(futex_call \<Rightarrow> int \<times> i32) \<Rightarrow> u32 \<Rightarrow> u64 \<Rightarrow> i32" where
  "futex_wait_for sys val timeout_ns =
     futex_syscall sys \<lparr>fc_op = FUTEX_WAIT_PRIVATE, fc_val = val,
       fc_arg4 = Timeout (timespec_of_ns timeout_ns), fc_val3 = 0\<rparr>"

definition wake_count :: "i32 \<Rightarrow> u32" where
  "wake_count count = (if count \<le>s 0 then 0x7fffffff else count)"

definition futex_wake :: "(futex_call \<Rightarrow> int \<times> i32) \<Rightarrow> i32 \<Rightarrow> i32" where
  "futex_wake sys count =
     futex_syscall sys \<lparr>fc_op = FUTEX_WAKE_PRIVATE, fc_val = wake_count count,
       fc_arg4 = NoTimeout, fc_val3 = 0\<rparr>"

definition futex_wake_all :: "(futex_call \<Rightarrow> int \<times> i32) \<Rightarrow> i32" where
  "futex_wake_all sys = futex_wake sys 0x7fffffff"

text \<open>\<open>requeue\<close> passes \<open>count\<close>, sign-extended to a pointer, as the timeout argument.\<close>

definition futex_requeue :: "(futex_call \<Rightarrow> int \<times> i32) \<Rightarrow> i32 \<Rightarrow> u32 \<Rightarrow> i32" where
  "futex_requeue sys count expected =
     futex_syscall sys \<lparr>fc_op = FUTEX_CMP_REQUEUE_PRIVATE, fc_val = 1,
       fc_arg4 = CountAsPointer (scast count), fc_val3 = expected\<rparr>"

definition futex_wait_shared :: "(futex_call \<Rightarrow> int \<times> i32) \<Rightarrow> u32 \<Rightarrow> i32" where
  "futex_wait_shared sys val =
     futex_syscall sys \<lparr>fc_op = FUTEX_WAIT, fc_val = val, fc_arg4 = NoTimeout, fc_val3 = 0\<rparr>"

definition futex_wake_shared :: "(futex_call \<Rightarrow> int \<times> i32) \<Rightarrow> i32 \<Rightarrow> i32" where
  "futex_wake_shared sys count =
     futex_syscall sys \<lparr>fc_op = FUTEX_WAKE, fc_val = wake_count count,
       fc_arg4 = NoTimeout, fc_val3 = 0\<rparr>"

definition futex_wake_all_shared :: "(futex_call \<Rightarrow> int \<times> i32) \<Rightarrow> i32" where
  "futex_wake_all_shared sys = futex_wake_shared sys 0x7fffffff"

section \<open>Timeouts of the other platforms\<close>

text \<open>Darwin: microseconds in 32 bits; the cast truncates before the test for zero.\<close>

definition darwin_timeout_us :: "u64 \<Rightarrow> u32" where
  "darwin_timeout_us timeout_ns =
     (let timeout_us = ucast (timeout_ns div 1000) :: u32
      in if timeout_us = 0 \<and> 0 < timeout_ns then 1 else timeout_us)"

datatype darwin_wake = UlockWakeAll | UlockWakeOne

definition darwin_wake_op :: "i32 \<Rightarrow> darwin_wake" where
  "darwin_wake_op count = (if count \<le>s 0 \<or> 1 <s count then UlockWakeAll else UlockWakeOne)"

text \<open>Windows: milliseconds, rounded up, in 32 bits.\<close>

definition windows_timeout_ms :: "u64 \<Rightarrow> u32" where
  "windows_timeout_ms timeout_ns =
     (let ms = ucast ((timeout_ns + 999999) div 1000000) :: u32
      in if ms = 0 \<and> 0 < timeout_ns then 1 else ms)"

section \<open>The kernel's wait queue\<close>

text \<open>
  What one step of a thread asks of the kernel: nothing, to sleep on the futex word (only after
  the kernel has compared the word with the expected value), or to wake up to \<open>n\<close> sleepers.
  The threads asleep are a list \<open>q\<close>. Which sleepers a wake picks is the kernel's choice,
  the list \<open>ws\<close>; \<open>wake_ok\<close> is the documented contract: no more than \<open>n\<close> waiters, and
  fewer than \<open>n\<close> only when there are no more.
\<close>

datatype keff = KNone | KSleep | KWake nat

definition wake_ok :: "nat \<Rightarrow> tid list \<Rightarrow> tid list \<Rightarrow> bool" where
  "wake_ok n q ws \<longleftrightarrow> distinct ws \<and> set ws \<subseteq> set q \<and> length ws = min n (length q)"

definition kernel :: "keff \<Rightarrow> tid \<Rightarrow> tid list \<Rightarrow> tid list \<Rightarrow> tid list option" where
  "kernel k t ws q = (case k of
     KNone \<Rightarrow> Some q
   | KSleep \<Rightarrow> Some (q @ [t])
   | KWake n \<Rightarrow> if wake_ok n q ws then Some (filter (\<lambda>u. u \<notin> set ws) q) else None)"

lemma kernel_simps [simp]:
  "kernel KNone t ws q = Some q"
  "kernel KSleep t ws q = Some (q @ [t])"
  by (simp_all add: kernel_def)

lemma kernel_wake: "kernel (KWake n) t ws q = Some q' \<longleftrightarrow>
    wake_ok n q ws \<and> q' = filter (\<lambda>u. u \<notin> set ws) q"
  by (auto simp: kernel_def)

text \<open>The number of sleepers \<open>futex::wake(addr, count)\<close> asks for.\<close>

definition KWakeCount :: "i32 \<Rightarrow> keff" where
  "KWakeCount count = KWake (unat (wake_count count))"

definition KWakeAll :: keff where
  "KWakeAll = KWakeCount 0x7fffffff"

lemma KWakeCount_1: "KWakeCount 1 = KWake 1"
  by (simp add: KWakeCount_def wake_count_def word_sle_eq)

lemma KWakeAll_eq: "KWakeAll = KWake 0x7fffffff"
  by (simp add: KWakeAll_def KWakeCount_def wake_count_def word_sle_eq)

lemma wake_all_empties:
  assumes "wake_ok n q ws" and "length q \<le> n" and "distinct q"
  shows "filter (\<lambda>u. u \<notin> set ws) q = []"
proof -
  from assms have "length ws = length q" by (simp add: wake_ok_def)
  with assms have "card (set ws) = card (set q)"
    by (simp add: wake_ok_def distinct_card)
  with assms(1) have "set ws = set q"
    by (simp add: wake_ok_def card_subset_eq)
  then show ?thesis by (simp add: filter_empty_conv)
qed

lemma wake_ok_nonempty: "wake_ok n q ws \<Longrightarrow> 0 < n \<Longrightarrow> q \<noteq> [] \<Longrightarrow> \<exists>u. u \<in> set ws \<and> u \<in> set q"
  by (cases ws) (auto simp: wake_ok_def min_def split: if_splits)

lemma wake_ok_take: "distinct q \<Longrightarrow> wake_ok n q (take n q)"
  by (auto simp: wake_ok_def dest: in_set_takeD)

section \<open>Systems of threads over one futex word\<close>

text \<open>
  The state of a system: the shared memory (a word, or a record of the words the component
  has), the threads asleep on the futex and the program point of each thread. A thread that is
  in the wait queue cannot move; once it is taken out, by a wake or spuriously (a signal, a
  timeout), it returns from \<open>futex::wait\<close>.
\<close>

record ('w, 'l) fsys =
  shm :: 'w
  waitq :: "tid list"
  pcs :: "'l list"

text \<open>
  The actions: a client thread begins an operation of the interface; a thread makes the next
  step of the operation it is in (with the kernel's choice of sleepers, if it is a wake); a
  sleeper is woken for no reason of ours.
\<close>

datatype 'op act = Invoke tid 'op | Step tid "tid list" | Spurious tid

definition awake :: "('w, 'l) fsys \<Rightarrow> tid \<Rightarrow> bool" where
  "awake s t \<longleftrightarrow> t < length (pcs s) \<and> t \<notin> set (waitq s)"

definition sys_step ::
    "('w \<Rightarrow> 'l \<Rightarrow> ('w \<times> 'l \<times> keff) option) \<Rightarrow> ('op \<Rightarrow> 'l \<Rightarrow> 'l option) \<Rightarrow>
      'op act \<Rightarrow> ('w, 'l) fsys \<Rightarrow> ('w, 'l) fsys option" where
  "sys_step exec start a s = (case a of
     Invoke t op \<Rightarrow>
       if awake s t then
         (case start op (pcs s ! t) of None \<Rightarrow> None
          | Some l \<Rightarrow> Some (s\<lparr>pcs := (pcs s)[t := l]\<rparr>))
       else None
   | Step t ws \<Rightarrow>
       if awake s t then
         (case exec (shm s) (pcs s ! t) of None \<Rightarrow> None
          | Some (w, l, k) \<Rightarrow>
              (case kernel k t ws (waitq s) of None \<Rightarrow> None
               | Some q \<Rightarrow> Some \<lparr>shm = w, waitq = q, pcs = (pcs s)[t := l]\<rparr>))
       else None
   | Spurious t \<Rightarrow>
       if t \<in> set (waitq s) then Some (s\<lparr>waitq := filter (\<lambda>u. u \<noteq> t) (waitq s)\<rparr>) else None)"

definition sys_init :: "'w \<Rightarrow> 'l \<Rightarrow> nat \<Rightarrow> ('w, 'l) fsys" where
  "sys_init w l n = \<lparr>shm = w, waitq = [], pcs = replicate n l\<rparr>"

lemma sys_init_simps [simp]:
  "shm (sys_init w l n) = w" "waitq (sys_init w l n) = []" "pcs (sys_init w l n) = replicate n l"
  by (simp_all add: sys_init_def)

lemma sys_stepE [consumes 1, case_names invoke exec spurious]:
  assumes "sys_step exec start a s = Some s'"
  obtains (invoke) t op l where "a = Invoke t op" "t < length (pcs s)" "t \<notin> set (waitq s)"
      "start op (pcs s ! t) = Some l" "s' = s\<lparr>pcs := (pcs s)[t := l]\<rparr>"
  | (exec) t ws w l k q where "a = Step t ws" "t < length (pcs s)" "t \<notin> set (waitq s)"
      "exec (shm s) (pcs s ! t) = Some (w, l, k)" "kernel k t ws (waitq s) = Some q"
      "s' = \<lparr>shm = w, waitq = q, pcs = (pcs s)[t := l]\<rparr>"
  | (spurious) t where "a = Spurious t" "t \<in> set (waitq s)"
      "s' = s\<lparr>waitq := filter (\<lambda>u. u \<noteq> t) (waitq s)\<rparr>"
  using assms
  by (cases a) (auto simp: sys_step_def awake_def split: if_splits option.splits)

lemma step_exec: "t < length (pcs s) \<Longrightarrow> t \<notin> set (waitq s) \<Longrightarrow>
    exec (shm s) (pcs s ! t) = Some (w, l, k) \<Longrightarrow> kernel k t ws (waitq s) = Some q \<Longrightarrow>
    sys_step exec start (Step t ws) s = Some \<lparr>shm = w, waitq = q, pcs = (pcs s)[t := l]\<rparr>"
  by (simp add: sys_step_def awake_def)

text \<open>One step of an awake thread that asks nothing of the kernel, and a step that wakes.\<close>

lemma step_plain: "t < length ls \<Longrightarrow> t \<notin> set q \<Longrightarrow> exec w (ls ! t) = Some (w', l, KNone) \<Longrightarrow>
    sys_step exec start (Step t ws) \<lparr>shm = w, waitq = q, pcs = ls\<rparr> =
      Some \<lparr>shm = w', waitq = q, pcs = ls[t := l]\<rparr>"
  by (simp add: sys_step_def awake_def)

lemma step_wake: "t < length ls \<Longrightarrow> t \<notin> set q \<Longrightarrow> exec w (ls ! t) = Some (w', l, KWake m) \<Longrightarrow>
    wake_ok m q ws \<Longrightarrow>
    sys_step exec start (Step t ws) \<lparr>shm = w, waitq = q, pcs = ls\<rparr> =
      Some \<lparr>shm = w', waitq = filter (\<lambda>u. u \<notin> set ws) q, pcs = ls[t := l]\<rparr>"
  by (simp add: sys_step_def awake_def kernel_def)

text \<open>
  A schedule that begins no operation and wakes nobody for no reason: who moves, and the kernel's
  choices. Under it a sleeper goes on only if some thread's code calls \<open>futex::wake\<close>.
\<close>

definition steps :: "(tid \<times> tid list) list \<Rightarrow> 'op act list" where
  "steps sched = map (\<lambda>(t, ws). Step t ws) sched"

lemma steps_simps [simp]:
  "steps [] = []" "steps ((t, ws) # sched) = Step t ws # steps sched"
  "steps (replicate k (t, ws)) = replicate k (Step t ws)"
  "steps (sched @ sched') = steps sched @ steps sched'"
  by (simp_all add: steps_def)

text \<open>A thread on its own: \<open>m\<close> steps, none of which asks anything of the kernel.\<close>

fun plain_run :: "('w \<Rightarrow> 'l \<Rightarrow> ('w \<times> 'l \<times> keff) option) \<Rightarrow> nat \<Rightarrow> 'w \<Rightarrow> 'l \<Rightarrow> ('w \<times> 'l) option" where
  "plain_run exec 0 w l = Some (w, l)"
| "plain_run exec (Suc m) w l = (case exec w l of
     Some (w', l', k) \<Rightarrow> if k = KNone then plain_run exec m w' l' else None
   | None \<Rightarrow> None)"

lemma plain_run_step: "exec w l = Some (w', l', KNone) \<Longrightarrow> plain_run exec m w' l' = Some r \<Longrightarrow>
    plain_run exec (Suc m) w l = Some r"
  by simp

lemma plain_run_append: "plain_run exec i w l = Some (w', l') \<Longrightarrow>
    plain_run exec (i + j) w l = plain_run exec j w' l'"
proof (induction i arbitrary: w l)
  case 0
  then show ?case by simp
next
  case (Suc i)
  then obtain w1 l1 where "exec w l = Some (w1, l1, KNone)" "plain_run exec i w1 l1 = Some (w', l')"
    by (auto split: option.splits if_splits)
  with Suc.IH [of w1 l1] show ?case by simp
qed

lemma plain_run_system: "plain_run exec m w (ls ! t) = Some (w', l) \<Longrightarrow> t < length ls \<Longrightarrow>
    t \<notin> set q \<Longrightarrow>
    run (sys_step exec start) (replicate m (Step t [])) \<lparr>shm = w, waitq = q, pcs = ls\<rparr> =
      Some \<lparr>shm = w', waitq = q, pcs = ls[t := l]\<rparr>"
proof (induction m arbitrary: w ls)
  case 0
  then show ?case by auto
next
  case (Suc m)
  then obtain w1 l1 where ex: "exec w (ls ! t) = Some (w1, l1, KNone)"
    and "plain_run exec m w1 l1 = Some (w', l)"
    by (auto split: option.splits if_splits)
  with Suc.IH [of w1 "ls[t := l1]"] Suc.prems step_plain [of t ls q exec w w1 l1 start "[]"]
  show ?case by simp
qed

text \<open>
  What every component promises to this layer: a transition ends at a sleeping point exactly if
  it is the one that put the thread to sleep, and operations begin at points that are not.
\<close>

locale futex_client =
  fixes exec :: "'w \<Rightarrow> 'l \<Rightarrow> ('w \<times> 'l \<times> keff) option"
    and start :: "'op \<Rightarrow> 'l \<Rightarrow> 'l option"
    and asleep :: "'l \<Rightarrow> bool"
    and idle :: 'l
  assumes sleep_point: "exec w l = Some (w', l', k) \<Longrightarrow> asleep l' \<longleftrightarrow> k = KSleep"
    and start_awake: "start op l = Some l' \<Longrightarrow> \<not> asleep l'"
    and idle_awake: "\<not> asleep idle"
begin

text \<open>The wait queue holds threads, once each, and only threads at a sleeping point.\<close>

definition queue_wf :: "('w, 'l) fsys \<Rightarrow> bool" where
  "queue_wf s \<longleftrightarrow> distinct (waitq s) \<and>
     (\<forall>t \<in> set (waitq s). t < length (pcs s) \<and> asleep (pcs s ! t))"

lemma queue_wf_init: "queue_wf (sys_init w idle n)"
  by (simp add: queue_wf_def)

lemma queue_wf_step:
  assumes "queue_wf s" and "sys_step exec start a s = Some s'"
  shows "queue_wf s'"
  using assms(2)
proof (cases rule: sys_stepE)
  case (invoke t op l)
  with assms(1) show ?thesis by (auto simp: queue_wf_def nth_list_update)
next
  case (exec t ws w l k q)
  show ?thesis
  proof (cases k)
    case KNone
    with exec assms(1) show ?thesis by (auto simp: queue_wf_def nth_list_update)
  next
    case KSleep
    with exec sleep_point have "asleep l" by blast
    with KSleep exec assms(1) show ?thesis by (auto simp: queue_wf_def nth_list_update)
  next
    case (KWake n)
    with exec assms(1) show ?thesis
      by (auto simp: queue_wf_def kernel_wake nth_list_update)
  qed
next
  case (spurious t)
  with assms(1) show ?thesis by (auto simp: queue_wf_def)
qed

lemma reachable_queue_wf:
  "reachable (sys_step exec start) (sys_init w idle n) s \<Longrightarrow> queue_wf s"
  by (rule reachable_invariant [where I = queue_wf]) (auto intro: queue_wf_init queue_wf_step)

lemma step_length: "sys_step exec start a s = Some s' \<Longrightarrow> length (pcs s') = length (pcs s)"
  by (erule sys_stepE) auto

lemma reachable_length:
  assumes "reachable (sys_step exec start) (sys_init w idle n) s"
  shows "length (pcs s) = n"
  by (rule reachable_invariant [OF assms, where I = "\<lambda>s. length (pcs s) = n"])
    (auto dest: step_length)

lemma queue_length: "queue_wf s \<Longrightarrow> length (waitq s) \<le> length (pcs s)"
proof -
  assume wf: "queue_wf s"
  then have "set (waitq s) \<subseteq> {..<length (pcs s)}" by (auto simp: queue_wf_def)
  then have "card (set (waitq s)) \<le> length (pcs s)"
    using card_mono [of "{..<length (pcs s)}"] by simp
  with wf show ?thesis by (simp add: queue_wf_def distinct_card)
qed

text \<open>A wake-all empties the queue, as long as there are at most \<open>2 ^ 31 - 1\<close> threads.\<close>

lemma wake_all_queue:
  assumes "queue_wf s" and "length (pcs s) \<le> 0x7fffffff" and "kernel KWakeAll t ws (waitq s) = Some q"
  shows "q = []"
proof -
  from assms queue_length [of s] have "length (waitq s) \<le> 0x7fffffff" by simp
  moreover from assms(1) have "distinct (waitq s)" by (simp add: queue_wf_def)
  moreover from assms(3) have "wake_ok 0x7fffffff (waitq s) ws"
    and "q = filter (\<lambda>u. u \<notin> set ws) (waitq s)"
    by (simp_all add: KWakeAll_eq kernel_wake)
  ultimately show ?thesis by (simp add: wake_all_empties)
qed

text \<open>
  A waker with somebody in the queue can take the first sleeper out of it; that thread is then
  awake at its sleeping point.
\<close>

lemma wake_takes_head:
  assumes wf: "queue_wf \<lparr>shm = w, waitq = q, pcs = ls\<rparr>" and q: "q \<noteq> []" and m: "0 < m"
    and v: "v < length ls" "\<not> asleep (ls ! v)" and ex: "exec w (ls ! v) = Some (w', l, KWake m)"
  shows "\<exists>q'. sys_step exec start (Step v (take m q)) \<lparr>shm = w, waitq = q, pcs = ls\<rparr> =
      Some \<lparr>shm = w', waitq = q', pcs = ls[v := l]\<rparr> \<and>
    hd q < length ls \<and> hd q \<noteq> v \<and> asleep (ls[v := l] ! hd q) \<and> hd q \<notin> set q'"
proof -
  let ?q = "filter (\<lambda>u. u \<notin> set (take m q)) q"
  have "v \<notin> set q" and "distinct q" using wf v by (auto simp: queue_wf_def)
  then have "sys_step exec start (Step v (take m q)) \<lparr>shm = w, waitq = q, pcs = ls\<rparr> =
      Some \<lparr>shm = w', waitq = ?q, pcs = ls[v := l]\<rparr>"
    using v ex wake_ok_take [of q m] by (intro step_wake) auto
  moreover have "hd q < length ls" "asleep (ls ! hd q)"
    using wf q by (simp_all add: queue_wf_def)
  moreover from this v have "hd q \<noteq> v" by auto
  moreover have "hd q \<notin> set ?q" using q m by (cases q; cases m) auto
  ultimately show ?thesis by auto
qed

text \<open>
  The invariant rule of these systems: a property of memory, queue and program points that
  holds at the start and is kept by the beginning of an operation, by every transition and by
  spurious wake-ups. The well-formed queue may be used throughout.
\<close>

lemma system_invariant:
  assumes reach: "reachable (sys_step exec start) (sys_init w0 idle n) s"
    and init: "I w0 [] (replicate n idle)"
    and invoke: "\<And>w q ls t op l. I w q ls \<Longrightarrow> length ls = n \<Longrightarrow> t < n \<Longrightarrow> t \<notin> set q \<Longrightarrow>
        start op (ls ! t) = Some l \<Longrightarrow> I w q (ls[t := l])"
    and exec: "\<And>w q ls t ws w' l k q'. I w q ls \<Longrightarrow> queue_wf \<lparr>shm = w, waitq = q, pcs = ls\<rparr> \<Longrightarrow>
        length ls = n \<Longrightarrow> t < n \<Longrightarrow> t \<notin> set q \<Longrightarrow> exec w (ls ! t) = Some (w', l, k) \<Longrightarrow>
        kernel k t ws q = Some q' \<Longrightarrow> I w' q' (ls[t := l])"
    and spurious: "\<And>w q ls t. I w q ls \<Longrightarrow> queue_wf \<lparr>shm = w, waitq = q, pcs = ls\<rparr> \<Longrightarrow>
        length ls = n \<Longrightarrow> t \<in> set q \<Longrightarrow> I w (filter (\<lambda>u. u \<noteq> t) q) ls"
  shows "I (shm s) (waitq s) (pcs s)"
proof -
  let ?J = "\<lambda>s. queue_wf s \<and> length (pcs s) = n \<and> I (shm s) (waitq s) (pcs s)"
  have eta: "queue_wf s \<Longrightarrow> queue_wf \<lparr>shm = shm s, waitq = waitq s, pcs = pcs s\<rparr>"
    for s :: "('w, 'l) fsys"
    by (simp add: queue_wf_def)
  have "?J s"
  proof (rule reachable_invariant [OF reach])
    show "?J (sys_init w0 idle n)" by (simp add: queue_wf_init init)
  next
    fix s a s'
    assume J: "?J s" and stp: "sys_step exec start a s = Some s'"
    from stp have "I (shm s') (waitq s') (pcs s')"
    proof (cases rule: sys_stepE)
      case (invoke t op l)
      with J assms(3) [of "shm s" "waitq s" "pcs s" t op l] show ?thesis by simp
    next
      case (exec t ws w l k q)
      with J eta assms(4) [of "shm s" "waitq s" "pcs s" t w l k ws q] show ?thesis by simp
    next
      case (spurious t)
      with J eta assms(5) [of "shm s" "waitq s" "pcs s" t] show ?thesis by simp
    qed
    with J stp show "?J s'" by (auto intro: queue_wf_step dest: step_length)
  qed
  then show ?thesis by simp
qed

end

section \<open>Components whose wakers wake everybody\<close>

text \<open>
  Most components wake all sleepers at once. They say when the memory justifies a thread's sleep
  (\<open>blocked\<close>) and which program points are about to call \<open>futex::wake_all\<close> (\<open>waker\<close>). What they
  keep is \<open>attended\<close>: every sleeper is justified, or a waker is pending.
\<close>

locale wake_all_client = futex_client exec start asleep idle
  for exec :: "'w \<Rightarrow> 'l \<Rightarrow> ('w \<times> 'l \<times> keff) option" and start :: "'op \<Rightarrow> 'l \<Rightarrow> 'l option"
    and asleep :: "'l \<Rightarrow> bool" and idle :: 'l +
  fixes blocked :: "'w \<Rightarrow> 'l \<Rightarrow> bool" and waker :: "'l \<Rightarrow> bool"
  assumes waker_wakes: "waker l \<Longrightarrow> \<exists>l'. exec w l = Some (w, l', KWakeAll)"
    and waker_awake: "waker l \<Longrightarrow> \<not> asleep l"
    and waker_start: "start op l = Some l' \<Longrightarrow> \<not> waker l"
    and wakes_all: "exec w l = Some (w', l', KWake m) \<Longrightarrow> KWake m = KWakeAll"
begin

definition attended :: "'w \<Rightarrow> tid list \<Rightarrow> 'l list \<Rightarrow> bool" where
  "attended w q ls \<longleftrightarrow> (\<forall>u \<in> set q. blocked w (ls ! u)) \<or> (\<exists>v < length ls. waker (ls ! v))"

lemma attended_empty [simp]: "attended w [] ls"
  by (simp add: attended_def)

lemma attended_update:
  assumes "attended w q ls" and "t < length ls" "t \<notin> set q" and "\<not> waker (ls ! t)"
    and "waker l \<or> (\<forall>u \<in> set q. blocked w (ls ! u) \<longrightarrow> blocked w' (ls ! u))"
  shows "attended w' q (ls[t := l])"
proof (cases "waker l")
  case True
  with assms(2) show ?thesis by (auto simp: attended_def intro!: disjI2 exI [of _ t])
next
  case False
  with assms show ?thesis
    unfolding attended_def by (metis length_list_update nth_list_update_neq)
qed

lemma attended_invoke: "attended w q ls \<Longrightarrow> t < length ls \<Longrightarrow> t \<notin> set q \<Longrightarrow>
    start op (ls ! t) = Some l \<Longrightarrow> attended w q (ls[t := l])"
  by (rule attended_update) (auto dest: waker_start)

lemma attended_spurious: "attended w q ls \<Longrightarrow> attended w (filter (\<lambda>u. u \<noteq> t) q) ls"
  by (auto simp: attended_def)

lemma attended_exec:
  assumes att: "attended w q ls" and wf: "queue_wf \<lparr>shm = w, waitq = q, pcs = ls\<rparr>"
    and t: "t < length ls" "t \<notin> set q" and n: "length ls < 2 ^ 31"
    and ex: "exec w (ls ! t) = Some (w', l, k)" and kr: "kernel k t ws q = Some q'"
    and move: "k = KNone \<Longrightarrow> waker l \<or> (\<forall>u \<in> set q. blocked w (ls ! u) \<longrightarrow> blocked w' (ls ! u))"
    and sleep: "k = KSleep \<Longrightarrow> w' = w \<and> blocked w l"
  shows "attended w' q' (ls[t := l])"
proof (cases k)
  case KNone
  with ex waker_wakes [of "ls ! t" w] have "\<not> waker (ls ! t)" by (auto simp: KWakeAll_eq)
  with KNone att t move kr show ?thesis by (auto intro: attended_update)
next
  case KSleep
  with ex waker_wakes [of "ls ! t" w] have "\<not> waker (ls ! t)" by (auto simp: KWakeAll_eq)
  with att t have "attended w q (ls[t := l])" by (intro attended_update) auto
  with KSleep sleep kr t show ?thesis by (auto simp: attended_def)
next
  case (KWake m)
  with ex wakes_all have "k = KWakeAll" by blast
  with wake_all_queue [OF wf, of t ws q'] n kr show ?thesis by simp
qed

text \<open>A sleeper that the memory no longer justifies is taken out of the queue by the pending waker.\<close>

lemma attended_wakes_up:
  assumes att: "attended w q ls" and wf: "queue_wf \<lparr>shm = w, waitq = q, pcs = ls\<rparr>"
    and n: "length ls < 2 ^ 31" and unblocked: "t \<in> set q \<longrightarrow> \<not> blocked w (ls ! t)"
  shows "\<exists>sched ls' q'. run (sys_step exec start) (steps sched) \<lparr>shm = w, waitq = q, pcs = ls\<rparr> =
      Some \<lparr>shm = w, waitq = q', pcs = ls'\<rparr> \<and> t \<notin> set q' \<and> length ls' = length ls \<and> ls' ! t = ls ! t"
proof (cases "t \<in> set q")
  case False
  have "run (sys_step exec start) (steps []) \<lparr>shm = w, waitq = q, pcs = ls\<rparr> =
      Some \<lparr>shm = w, waitq = q, pcs = ls\<rparr>" by simp
  with False show ?thesis by blast
next
  case True
  with att unblocked obtain v where v: "v < length ls" "waker (ls ! v)"
    by (auto simp: attended_def)
  then obtain l where ex: "exec w (ls ! v) = Some (w, l, KWake 0x7fffffff)"
    using waker_wakes [of "ls ! v" w] by (auto simp: KWakeAll_eq)
  have vq: "v \<notin> set q" using v(2) waker_awake wf by (auto simp: queue_wf_def)
  have "distinct q" using wf by (simp add: queue_wf_def)
  then have ok: "wake_ok 0x7fffffff q q"
    using queue_length [OF wf] n by (simp add: wake_ok_def)
  have "sys_step exec start (Step v q) \<lparr>shm = w, waitq = q, pcs = ls\<rparr> =
      Some \<lparr>shm = w, waitq = [], pcs = ls[v := l]\<rparr>"
    using step_wake [of v ls q exec w w l, OF v(1) vq ex ok] by simp
  moreover have "t \<noteq> v" using True vq by auto
  ultimately show ?thesis
    by (intro exI [of _ "[(v, q)]"] exI [of _ "ls[v := l]"] exI [of _ "[]"]) simp
qed

lemma attended_progress:
  assumes att: "attended w q ls" and wf: "queue_wf \<lparr>shm = w, waitq = q, pcs = ls\<rparr>"
    and n: "length ls < 2 ^ 31" and t: "t < length ls"
    and unblocked: "t \<in> set q \<longrightarrow> \<not> blocked w (ls ! t)"
    and runs: "plain_run exec m w (ls ! t) = Some (w', l)"
  shows "\<exists>sched s'. run (sys_step exec start) (steps sched) \<lparr>shm = w, waitq = q, pcs = ls\<rparr> = Some s' \<and>
    shm s' = w' \<and> pcs s' ! t = l"
proof -
  obtain sched ls' q' where up: "run (sys_step exec start) (steps sched) \<lparr>shm = w, waitq = q, pcs = ls\<rparr> =
      Some \<lparr>shm = w, waitq = q', pcs = ls'\<rparr>"
    and q': "t \<notin> set q'" "length ls' = length ls" "ls' ! t = ls ! t"
    using attended_wakes_up [OF att wf n unblocked] by blast
  have "run (sys_step exec start) (steps (replicate m (t, []))) \<lparr>shm = w, waitq = q', pcs = ls'\<rparr> =
      Some \<lparr>shm = w', waitq = q', pcs = ls'[t := l]\<rparr>"
    unfolding steps_simps using q' t runs by (intro plain_run_system) auto
  with run_trans [OF up] have "run (sys_step exec start) (steps (sched @ replicate m (t, []))) \<lparr>shm = w, waitq = q, pcs = ls\<rparr> =
      Some \<lparr>shm = w', waitq = q', pcs = ls'[t := l]\<rparr>" by simp
  with q' t show ?thesis by fastforce
qed

end

end
