(* ===== verification/Lock_Spec.thy ===== *)
theory Lock_Spec
  imports Futex "HOL-Library.Multiset"
begin

text \<open>
  What a client of the exclusive locks relies on, stated once: a lock is free or owned by one
  thread, and changes only by an acquisition when it is free and a release by its owner. The
  locale \<open>exclusive_lock\<close> asks a lock for the laws the simulation needs; \<open>Mutex\<close>,
  \<open>SpinLock\<close> and the other exclusive locks interpret it on their own step functions. And the same for
  reader/writer locks: the abstract lock knows its writer, its readers with repetitions and the writers
  that wait, and \<open>rw_refinement\<close> asks for a simulation by the events of each step.
\<close>

section \<open>The abstract lock\<close>

datatype lock_event = Acquire tid | Release tid

fun lock_spec :: "lock_event \<Rightarrow> tid option \<Rightarrow> tid option option" where
  "lock_spec (Acquire t) None = Some (Some t)"
| "lock_spec (Acquire t) (Some u) = None"
| "lock_spec (Release t) None = None"
| "lock_spec (Release t) (Some u) = (if t = u then Some None else None)"

text \<open>The owner among the threads \<open>0..<n\<close>, read off a predicate "thread \<open>t\<close> holds the lock".\<close>

definition owner_of :: "(tid \<Rightarrow> bool) \<Rightarrow> nat \<Rightarrow> tid option" where
  "owner_of holds n = find holds [0..<n]"

lemma owner_of_None: "owner_of holds n = None \<longleftrightarrow> (\<forall>t < n. \<not> holds t)"
  by (auto simp: owner_of_def find_None_iff)

lemma owner_of_Some: "owner_of holds n = Some t \<Longrightarrow> t < n \<and> holds t"
  by (auto simp: owner_of_def find_Some_iff)

lemma owner_of_unique: "t < n \<Longrightarrow> holds t \<Longrightarrow> (\<And>u. u < n \<Longrightarrow> holds u \<Longrightarrow> u = t) \<Longrightarrow>
    owner_of holds n = Some t"
proof (cases "owner_of holds n")
  case None
  moreover assume "t < n" "holds t"
  ultimately show ?thesis by (simp add: owner_of_None)
next
  case (Some v)
  moreover assume "\<And>u. u < n \<Longrightarrow> holds u \<Longrightarrow> u = t"
  ultimately show ?thesis using owner_of_Some [OF Some] by simp
qed

text \<open>
  The laws: at most one holder, nobody at the start, and a step changes the status of at most
  one thread. \<open>bnd\<close> is the number of threads up to which the counters of the lock do not
  overflow.
\<close>

locale exclusive_lock =
  fixes stp :: "'a \<Rightarrow> 's \<Rightarrow> 's option" and init :: "nat \<Rightarrow> 's" and bnd :: nat
    and holds :: "'s \<Rightarrow> tid \<Rightarrow> bool"
  assumes init_free: "t < n \<Longrightarrow> \<not> holds (init n) t"
    and exclusive: "reachable stp (init n) s \<Longrightarrow> n < bnd \<Longrightarrow> i < n \<Longrightarrow> j < n \<Longrightarrow>
      holds s i \<Longrightarrow> holds s j \<Longrightarrow> i = j"
    and one_change: "stp a s = Some s' \<Longrightarrow> \<exists>t. \<forall>u. u \<noteq> t \<longrightarrow> holds s' u = holds s u"
begin

lemma step_refines:
  assumes reach: "reachable stp (init n) s" and n: "n < bnd" and stp: "stp a s = Some s'"
  shows "owner_of (holds s') n = owner_of (holds s) n \<or>
    (\<exists>e. lock_spec e (owner_of (holds s) n) = Some (owner_of (holds s') n))"
proof -
  have reach': "reachable stp (init n) s'" using reach stp by (rule reachable.step)
  note ex = exclusive [OF reach n] and ex' = exclusive [OF reach' n]
  obtain t where same: "\<And>u. u \<noteq> t \<Longrightarrow> holds s' u = holds s u"
    using one_change [OF stp] by blast
  show ?thesis
  proof (cases "owner_of (holds s) n")
    case None
    then have "owner_of (holds s') n = None \<or> (\<exists>u. owner_of (holds s') n = Some u)"
      by auto
    with None show ?thesis by (metis lock_spec.simps(1))
  next
    case (Some i)
    then have i: "i < n" "holds s i" by (auto dest: owner_of_Some)
    show ?thesis
    proof (cases "holds s' i")
      case True
      then have "owner_of (holds s') n = Some i" using i ex' by (intro owner_of_unique) auto
      with Some show ?thesis by simp
    next
      case False
      then have "t = i" using same i by metis
      have "\<not> holds s' u" if "u < n" for u
        using same [of u] ex [of u i] i that False \<open>t = i\<close> by (cases "u = i") auto
      then have "owner_of (holds s') n = None" by (simp add: owner_of_None)
      with Some show ?thesis by (metis lock_spec.simps(4))
    qed
  qed
qed

theorem refines_spec:
  assumes reach: "reachable stp (init n) s" and n: "n < bnd"
  shows "reachable lock_spec None (owner_of (holds s) n)"
  using reach
proof (induction rule: reachable.induct)
  case start
  have "owner_of (holds (init n)) n = None" using init_free by (simp add: owner_of_None)
  then show ?case by (simp add: reachable.start)
next
  case (step s a s')
  from step_refines [OF step.hyps(1) n step.hyps(2)] show ?case
    using step.IH by (metis reachable.step)
qed

end

section \<open>The abstract reader/writer lock\<close>

text \<open>
  One writer or any number of readers, a thread as often as it likes; and the writers that wait, which
  keep new readers out. A writer takes the free lock, or registers and is granted the lock later; the
  grant may overtake other writers. The two failures of a try change nothing and need a reason.
\<close>

record rw_state =
  rw_writer :: "tid option"
  rw_readers :: "tid multiset"
  rw_waiting :: "tid multiset"

definition rw_free :: rw_state where
  "rw_free = \<lparr>rw_writer = None, rw_readers = {#}, rw_waiting = {#}\<rparr>"

datatype rw_event =
    AcquireWrite tid | RegisterWrite tid | GrantWrite tid | ReleaseWrite tid | TryWriteFails tid
  | AcquireRead tid | ReleaseRead tid | TryReadFails tid

definition rw_write_ok :: "rw_state \<Rightarrow> bool" where
  "rw_write_ok x \<longleftrightarrow> rw_writer x = None \<and> rw_readers x = {#}"

definition rw_read_ok :: "rw_state \<Rightarrow> bool" where
  "rw_read_ok x \<longleftrightarrow> rw_writer x = None \<and> rw_waiting x = {#}"

fun rw_spec :: "rw_event \<Rightarrow> rw_state \<Rightarrow> rw_state option" where
  "rw_spec (AcquireWrite t) x = (if rw_write_ok x \<and> rw_waiting x = {#} then Some (x\<lparr>rw_writer := Some t\<rparr>) else None)"
| "rw_spec (RegisterWrite t) x = Some (x\<lparr>rw_waiting := add_mset t (rw_waiting x)\<rparr>)"
| "rw_spec (GrantWrite t) x =
     (if rw_write_ok x \<and> t \<in># rw_waiting x
      then Some (x\<lparr>rw_writer := Some t, rw_waiting := rw_waiting x - {#t#}\<rparr>) else None)"
| "rw_spec (ReleaseWrite t) x = (if rw_writer x = Some t then Some (x\<lparr>rw_writer := None\<rparr>) else None)"
| "rw_spec (TryWriteFails t) x = (if rw_write_ok x \<and> rw_waiting x = {#} then None else Some x)"
| "rw_spec (AcquireRead t) x = (if rw_read_ok x then Some (x\<lparr>rw_readers := add_mset t (rw_readers x)\<rparr>) else None)"
| "rw_spec (ReleaseRead t) x = (if t \<in># rw_readers x then Some (x\<lparr>rw_readers := rw_readers x - {#t#}\<rparr>) else None)"
| "rw_spec (TryReadFails t) x = (if rw_read_ok x then None else Some x)"

lemmas rw_ok_defs = rw_write_ok_def rw_read_ok_def

text \<open>What the abstract lock is for: a writer is alone.\<close>

lemma rw_spec_excludes: "reachable rw_spec rw_free x \<Longrightarrow> rw_writer x \<noteq> None \<Longrightarrow> rw_readers x = {#}"
proof (induction rule: reachable.induct)
  case start
  then show ?case by (simp add: rw_free_def)
next
  case (step x e x')
  then show ?case by (cases e) (auto simp: rw_ok_defs split: if_splits)
qed

text \<open>
  A call of \<open>lock\<close> run alone: it takes the free lock, or registers and is granted the lock at once, past any
  writers that are waiting, or waits.
\<close>

definition rw_write :: "tid \<Rightarrow> rw_state \<Rightarrow> rw_state option" where
  "rw_write t x = (case rw_spec (AcquireWrite t) x of
     Some x' \<Rightarrow> Some x'
   | None \<Rightarrow> run rw_spec [RegisterWrite t, GrantWrite t] x)"

lemma rw_write_eq: "rw_write t x = (if rw_write_ok x then Some (x\<lparr>rw_writer := Some t\<rparr>) else None)"
  by (cases x) (simp add: rw_write_def rw_ok_defs)

text \<open>
  The events of a run, each step's in its place: a lock simulates the abstract one if each step's
  events are possible there and lead to a state that the new state shows.
\<close>

fun events :: "('a \<Rightarrow> 's \<Rightarrow> 's option) \<Rightarrow> ('a \<Rightarrow> 's \<Rightarrow> 's \<Rightarrow> 'e list) \<Rightarrow> 'a list \<Rightarrow> 's \<Rightarrow> 'e list" where
  "events stp ev [] s = []"
| "events stp ev (a # as) s = (case stp a s of None \<Rightarrow> [] | Some s' \<Rightarrow> ev a s s' @ events stp ev as s')"

locale rw_refinement =
  fixes stp :: "'a \<Rightarrow> 's \<Rightarrow> 's option" and init :: "nat \<Rightarrow> 's" and bnd :: nat
    and ev :: "'a \<Rightarrow> 's \<Rightarrow> 's \<Rightarrow> rw_event list" and sees :: "'s \<Rightarrow> rw_state \<Rightarrow> bool"
  assumes init_sees: "sees (init n) rw_free"
    and step_simulates: "reachable stp (init n) s \<Longrightarrow> n < bnd \<Longrightarrow> stp a s = Some s' \<Longrightarrow> sees s x \<Longrightarrow>
      \<exists>x'. run rw_spec (ev a s s') x = Some x' \<and> sees s' x'"
begin

lemma run_simulates:
  "run stp as s = Some s' \<Longrightarrow> reachable stp (init n) s \<Longrightarrow> n < bnd \<Longrightarrow> sees s x \<Longrightarrow>
    \<exists>x'. run rw_spec (events stp ev as s) x = Some x' \<and> sees s' x'"
proof (induction as arbitrary: s x)
  case (Cons a as)
  then obtain s1 where s1: "stp a s = Some s1" "run stp as s1 = Some s'" by (auto split: option.splits)
  obtain x1 where x1: "run rw_spec (ev a s s1) x = Some x1" "sees s1 x1"
    using step_simulates [OF Cons.prems(2,3) s1(1) Cons.prems(4)] by blast
  obtain x' where "run rw_spec (events stp ev as s1) x1 = Some x'" "sees s' x'"
    using Cons.IH [OF s1(2) reachable.step [OF Cons.prems(2) s1(1)] Cons.prems(3) x1(2)] by blast
  with s1(1) x1(1) show ?case by (auto intro: run_trans)
qed simp

lemma trace_refines:
  assumes "run stp as (init n) = Some s" "n < bnd"
  shows "\<exists>x. run rw_spec (events stp ev as (init n)) rw_free = Some x \<and> sees s x"
  using run_simulates [OF assms(1) reachable.start assms(2) init_sees] .

text \<open>So what the abstract lock keeps, the lock shows.\<close>

lemma shows_exclusion:
  assumes "reachable stp (init n) s" "n < bnd"
  shows "\<exists>x. sees s x \<and> (rw_writer x \<noteq> None \<longrightarrow> rw_readers x = {#})"
proof -
  obtain as where "run stp as (init n) = Some s" using assms(1) by (auto simp: reachable_iff_run)
  from trace_refines [OF this assms(2)] obtain x
    where "run rw_spec (events stp ev as (init n)) rw_free = Some x" "sees s x" by blast
  with rw_spec_excludes [OF run_reachable] show ?thesis by blast
qed

end

section \<open>Exclusion of readers and writers\<close>

locale rw_lock =
  fixes stp :: "'a \<Rightarrow> 's \<Rightarrow> 's option" and init :: "nat \<Rightarrow> 's" and bnd :: nat
    and wr :: "'s \<Rightarrow> tid \<Rightarrow> bool" and rd :: "'s \<Rightarrow> tid \<Rightarrow> bool"
  assumes init_free: "t < n \<Longrightarrow> \<not> wr (init n) t \<and> \<not> rd (init n) t"
    and one_writer: "reachable stp (init n) s \<Longrightarrow> n < bnd \<Longrightarrow> i < n \<Longrightarrow> j < n \<Longrightarrow>
      wr s i \<Longrightarrow> wr s j \<Longrightarrow> i = j"
    and no_mix: "reachable stp (init n) s \<Longrightarrow> n < bnd \<Longrightarrow> i < n \<Longrightarrow> j < n \<Longrightarrow>
      wr s i \<Longrightarrow> \<not> rd s j"
    and one_change: "stp a s = Some s' \<Longrightarrow>
      \<exists>t. \<forall>u. u \<noteq> t \<longrightarrow> wr s' u = wr s u \<and> rd s' u = rd s u"
begin

lemma writer_alone: "reachable stp (init n) s \<Longrightarrow> n < bnd \<Longrightarrow> i < n \<Longrightarrow> j < n \<Longrightarrow> i \<noteq> j \<Longrightarrow>
    wr s i \<Longrightarrow> \<not> wr s j \<and> \<not> rd s j"
  using one_writer no_mix by blast

end

text \<open>The writers of a reader/writer lock, on their own, have an exclusive lock.\<close>

sublocale rw_lock \<subseteq> writer: exclusive_lock stp init bnd wr
proof
  fix a s s' assume "stp a s = Some s'"
  from one_change [OF this] show "\<exists>t. \<forall>u. u \<noteq> t \<longrightarrow> wr s' u = wr s u" by blast
qed (use init_free one_writer in blast)+

section \<open>Holders read off the program points\<close>

text \<open>
  A lock built on \<open>sys_step\<close> whose holders are read off the program points changes the
  status of the stepping thread only.
\<close>

definition holds_at :: "('l \<Rightarrow> bool) \<Rightarrow> ('w, 'l) fsys \<Rightarrow> tid \<Rightarrow> bool" where
  "holds_at h s t \<longleftrightarrow> t < length (pcs s) \<and> h (pcs s ! t)"

lemma holds_at_one_change: "sys_step exec start a s = Some s' \<Longrightarrow>
    \<exists>t. \<forall>u. u \<noteq> t \<longrightarrow> holds_at h s' u = holds_at h s u"
proof (erule sys_stepE)
  fix t op l assume "s' = s\<lparr>pcs := (pcs s)[t := l]\<rparr>"
  then have "\<forall>u. u \<noteq> t \<longrightarrow> holds_at h s' u = holds_at h s u" by (auto simp: holds_at_def)
  then show ?thesis ..
next
  fix t ws w l k q assume "s' = \<lparr>shm = w, waitq = q, pcs = (pcs s)[t := l]\<rparr>"
  then have "\<forall>u. u \<noteq> t \<longrightarrow> holds_at h s' u = holds_at h s u" by (auto simp: holds_at_def)
  then show ?thesis ..
qed (auto simp: holds_at_def)

lemma cnt_holds_unique: "cnt h (pcs s) \<le> 1 \<Longrightarrow> holds_at h s i \<Longrightarrow> holds_at h s j \<Longrightarrow> i = j"
  by (auto simp: holds_at_def intro: cnt_le1_unique)

end
