(* ===== verification/Mutex.thy ===== *)
theory Mutex
  imports Lock_Spec
begin

text \<open>
  \<^verbatim>\<open>psync_mutex.h\<close>: the 4-byte adaptive mutex. A thread is at one of the program points
  below; \<open>mutex_exec\<close> is one step of it, with at most one access to \<open>state_\<close>. The theory
  shows mutual exclusion, what the word says about the waiters, that an unlocked mutex with
  waiters always has somebody on the way to it (no lost wake-up), and that it refines an
  abstract lock.
\<close>

section \<open>The adaptive spinning parameters\<close>

definition SPIN_INITIAL :: nat where "SPIN_INITIAL = 10"
definition BACKOFF_MULTIPLIER :: nat where "BACKOFF_MULTIPLIER = 2"
definition BACKOFF_MAX :: nat where "BACKOFF_MAX = 1000"
definition FUTEX_THRESHOLD :: nat where "FUTEX_THRESHOLD = 3"

lemmas spin_defs = SPIN_INITIAL_def BACKOFF_MULTIPLIER_def BACKOFF_MAX_def FUTEX_THRESHOLD_def

section \<open>The mutex word and its program points\<close>

definition UNLOCKED :: u32 where "UNLOCKED = 0"
definition LOCKED_NO_WAITERS :: u32 where "LOCKED_NO_WAITERS = 1"
definition LOCKED_FLAG :: u32 where "LOCKED_FLAG = 1"
definition WAITER_INCREMENT :: u32 where "WAITER_INCREMENT = 2"

lemmas mutex_consts = UNLOCKED_def LOCKED_NO_WAITERS_def LOCKED_FLAG_def WAITER_INCREMENT_def

text \<open>
  \<open>LcSpin\<close> carries the locals \<open>spin_count\<close>, \<open>backoff\<close> and \<open>i\<close> of \<open>lock_contended\<close>;
  \<open>LcCas\<close> and \<open>LcWait\<close> carry \<open>current\<close>. \<open>MHeld\<close> is the client's critical section.
\<close>

datatype mutex_pc =
    MIdle
  | MLockFast                    \<comment> \<open>\<open>lock\<close>: the first compare-and-exchange\<close>
  | MTryLock                     \<comment> \<open>\<open>try_lock\<close>\<close>
  | MHeld
  | LcSpin nat nat nat
  | LcRegister                   \<comment> \<open>the \<open>fetch_add\<close> of \<open>WAITER_INCREMENT\<close>\<close>
  | LcLoad
  | LcCas u32
  | LcWait u32                   \<comment> \<open>about to call \<open>futex::wait\<close>\<close>
  | LcAsleep                     \<comment> \<open>inside \<open>futex::wait\<close>\<close>
  | UnlLoad
  | UnlCas
  | UnlReload
  | UnlAnd                       \<comment> \<open>\<open>unlock_contended\<close>: clear the flag\<close>
  | UnlWake                      \<comment> \<open>\<open>unlock_contended\<close>: wake one\<close>

datatype mutex_op = OpLock | OpTryLock | OpUnlock

text \<open>The client locks and tries from outside, and unlocks what it holds.\<close>

fun mutex_start :: "mutex_op \<Rightarrow> mutex_pc \<Rightarrow> mutex_pc option" where
  "mutex_start OpLock MIdle = Some MLockFast"
| "mutex_start OpTryLock MIdle = Some MTryLock"
| "mutex_start OpUnlock MHeld = Some UnlLoad"
| "mutex_start _ _ = None"

fun mutex_exec :: "u32 \<Rightarrow> mutex_pc \<Rightarrow> (u32 \<times> mutex_pc \<times> keff) option" where
  "mutex_exec w MIdle = None"
| "mutex_exec w MHeld = None"
| "mutex_exec w MLockFast =
     (case atomic_compare_exchange w UNLOCKED LOCKED_NO_WAITERS MO_acquire MO_relaxed of
        (True, w', _) \<Rightarrow> Some (w', MHeld, KNone)
      | (False, w', _) \<Rightarrow> Some (w', LcSpin 0 SPIN_INITIAL 0, KNone))"
| "mutex_exec w MTryLock =
     (case atomic_compare_exchange w UNLOCKED LOCKED_NO_WAITERS MO_acquire MO_relaxed of
        (True, w', _) \<Rightarrow> Some (w', MHeld, KNone)
      | (False, w', _) \<Rightarrow> Some (w', MIdle, KNone))"
| "mutex_exec w (LcSpin spin_count backoff i) =
     (if i < backoff then
        (case atomic_compare_exchange w UNLOCKED LOCKED_NO_WAITERS MO_acquire MO_relaxed of
           (True, w', _) \<Rightarrow> Some (w', MHeld, KNone)
         | (False, w', _) \<Rightarrow> Some (w', LcSpin spin_count backoff (i + 1), KNone))
      else if spin_count + 1 < FUTEX_THRESHOLD then
        (let b = backoff * BACKOFF_MULTIPLIER
         in Some (w, LcSpin (spin_count + 1) (if BACKOFF_MAX < b then BACKOFF_MAX else b) 0, KNone))
      else Some (w, LcRegister, KNone))"
| "mutex_exec w LcRegister =
     (let (_, w') = atomic_fetch_add w WAITER_INCREMENT MO_relaxed in Some (w', LcLoad, KNone))"
| "mutex_exec w LcLoad =
     (let current = atomic_load w MO_relaxed
      in if current AND LOCKED_FLAG = 0 then Some (w, LcCas current, KNone)
         else Some (w, LcWait current, KNone))"
| "mutex_exec w (LcCas current) =
     (let new_state = (current - WAITER_INCREMENT) OR LOCKED_FLAG
      in case atomic_compare_exchange w current new_state MO_acquire MO_relaxed of
        (True, w', _) \<Rightarrow> Some (w', MHeld, KNone)
      | (False, w', _) \<Rightarrow> Some (w', LcLoad, KNone))"
| "mutex_exec w (LcWait current) =
     (if w = current then Some (w, LcAsleep, KSleep) else Some (w, LcLoad, KNone))"
| "mutex_exec w LcAsleep = Some (w, LcLoad, KNone)"
| "mutex_exec w UnlLoad =
     (let current = atomic_load w MO_relaxed
      in if current = LOCKED_NO_WAITERS then Some (w, UnlCas, KNone)
         else Some (w, UnlAnd, KNone))"
| "mutex_exec w UnlCas =
     (case atomic_compare_exchange w LOCKED_NO_WAITERS UNLOCKED MO_release MO_relaxed of
        (True, w', _) \<Rightarrow> Some (w', MIdle, KNone)
      | (False, w', _) \<Rightarrow> Some (w', UnlReload, KNone))"
| "mutex_exec w UnlReload =
     (let _ = atomic_load w MO_relaxed in Some (w, UnlAnd, KNone))"
| "mutex_exec w UnlAnd =
     (let (_, w') = atomic_fetch_and w (NOT LOCKED_FLAG) MO_release in Some (w', UnlWake, KNone))"
| "mutex_exec w UnlWake = Some (w, MIdle, KWakeCount 1)"

fun mutex_asleep :: "mutex_pc \<Rightarrow> bool" where
  "mutex_asleep LcAsleep = True"
| "mutex_asleep _ = False"

definition mutex_step :: "mutex_op act \<Rightarrow> (u32, mutex_pc) fsys \<Rightarrow> (u32, mutex_pc) fsys option" where
  "mutex_step = sys_step mutex_exec mutex_start"

definition mutex_init :: "nat \<Rightarrow> (u32, mutex_pc) fsys" where
  "mutex_init n = sys_init UNLOCKED MIdle n"

abbreviation mutex_reachable :: "nat \<Rightarrow> (u32, mutex_pc) fsys \<Rightarrow> bool" where
  "mutex_reachable n \<equiv> reachable mutex_step (mutex_init n)"

fun_cases mutex_start_cases: "mutex_start op l = Some l'"

lemma mutex_sleep_point: "mutex_exec w l = Some (w', l', k) \<Longrightarrow> mutex_asleep l' \<longleftrightarrow> k = KSleep"
  by (cases l) (auto simp: Let_def KWakeCount_1 split: if_splits)

interpretation mx: futex_client mutex_exec mutex_start mutex_asleep MIdle
  by unfold_locales (auto elim!: mutex_start_cases dest: mutex_sleep_point)

section \<open>The invariant\<close>

text \<open>
  Who holds the lock: the critical section and the part of \<open>unlock\<close> before the flag is
  cleared. Who is counted in the waiter field: from \<open>LcRegister\<close> to the acquisition.
\<close>

fun mutex_holder :: "mutex_pc \<Rightarrow> bool" where
  "mutex_holder MHeld = True"
| "mutex_holder UnlLoad = True"
| "mutex_holder UnlCas = True"
| "mutex_holder UnlReload = True"
| "mutex_holder UnlAnd = True"
| "mutex_holder _ = False"

fun mutex_waiter :: "mutex_pc \<Rightarrow> bool" where
  "mutex_waiter LcLoad = True"
| "mutex_waiter (LcCas _) = True"
| "mutex_waiter (LcWait _) = True"
| "mutex_waiter LcAsleep = True"
| "mutex_waiter _ = False"

text \<open>What a thread knows of the word it read: its locals are consistent with the branch taken.\<close>

fun mutex_local :: "mutex_pc \<Rightarrow> bool" where
  "mutex_local (LcCas c) = even (unat c)"
| "mutex_local (LcWait c) = odd (unat c)"
| "mutex_local (LcSpin sc bo i) = (sc < FUTEX_THRESHOLD \<and> bo \<le> BACKOFF_MAX \<and> i \<le> bo)"
| "mutex_local _ = True"

text \<open>Somebody is on the way to an unlocked mutex: a waker, or a waiter that is awake.\<close>

definition mutex_attended :: "tid list \<Rightarrow> mutex_pc list \<Rightarrow> bool" where
  "mutex_attended q ls \<longleftrightarrow>
     (\<exists>t < length ls. ls ! t = UnlWake \<or> (mutex_waiter (ls ! t) \<and> t \<notin> set q))"

text \<open>The word is twice the number of counted waiters, plus one if the mutex is held.\<close>

definition mutex_word :: "u32 \<Rightarrow> mutex_pc list \<Rightarrow> bool" where
  "mutex_word w ls \<longleftrightarrow>
     unat w = 2 * cnt mutex_waiter ls + cnt mutex_holder ls \<and> cnt mutex_holder ls \<le> 1"

definition mutex_inv :: "u32 \<Rightarrow> tid list \<Rightarrow> mutex_pc list \<Rightarrow> bool" where
  "mutex_inv w q ls \<longleftrightarrow> mutex_word w ls \<and> (\<forall>t < length ls. mutex_local (ls ! t)) \<and>
     (q \<noteq> [] \<longrightarrow> even (unat w) \<longrightarrow> mutex_attended q ls)"

lemma mutex_counts: "cnt mutex_waiter ls + cnt mutex_holder ls \<le> length ls"
proof (rule cnt_disjoint)
  fix l show "\<not> (mutex_waiter l \<and> mutex_holder l)" by (cases l) auto
qed

lemma mutex_word_exec:
  assumes word: "mutex_word w ls" and t: "t < length ls" and n: "length ls < 2 ^ 31"
    and loc: "mutex_local (ls ! t)" and ex: "mutex_exec w (ls ! t) = Some (w', l, k)"
  shows "mutex_word w' (ls[t := l])"
proof -
  note cw = cnt_update [OF t, of mutex_waiter l] and ch = cnt_update [OF t, of mutex_holder l]
  have waiting: "1 \<le> cnt mutex_waiter ls" if "mutex_waiter (ls ! t)"
    using cnt_ge1 [OF t] that by blast
  have holding: "cnt mutex_holder ls = 1" if "mutex_holder (ls ! t)"
    using cnt_ge1 [OF t, of mutex_holder] that word by (simp add: mutex_word_def)
  from word have w: "unat w = 2 * cnt mutex_waiter ls + cnt mutex_holder ls"
    and h: "cnt mutex_holder ls \<le> 1" by (simp_all add: mutex_word_def)
  show ?thesis
  proof (cases "ls ! t")
    case (LcCas c)
    show ?thesis
    proof (cases "w = c")
      case True
      have c: "even (unat c)" using loc LcCas by simp
      with w True have h0: "cnt mutex_holder ls = 0" using h by (auto simp: le_Suc_eq)
      have two: "2 \<le> unat c" using waiting LcCas w True by simp
      then have minus: "unat (c - 2) = unat c - 2" by (simp add: unat_sub_small)
      then have "even (unat (c - 2))" using c two by simp
      then have "unat ((c - 2) OR 1) = unat c - 1" using minus two by (simp add: unat_or_1)
      with ex LcCas True w h0 cw ch two show ?thesis
        by (auto simp: mutex_word_def mutex_consts Let_def)
    qed (use ex LcCas w h cw ch in \<open>auto simp: mutex_word_def\<close>)
  next
    case LcRegister
    with ex have "l = LcLoad" by simp
    with mutex_counts [of "ls[t := l]"] LcRegister cw ch n
    have "2 * cnt mutex_waiter ls + cnt mutex_holder ls + 2 < 2 ^ 32" by simp
    then have "unat (w + 2) = unat w + 2" using w by (simp add: unat_add_small)
    with ex LcRegister w h cw ch show ?thesis by (auto simp: mutex_word_def mutex_consts)
  next
    case UnlAnd
    with w holding have "unat w mod 2 = 1" by simp
    with ex UnlAnd w h cw ch show ?thesis
      by (auto simp: mutex_word_def mutex_consts unat_and_minus_2)
  qed (use ex w h cw ch in \<open>auto simp: mutex_word_def mutex_consts Let_def split: if_splits\<close>)
qed

lemma mutex_local_exec:
  "mutex_local l \<Longrightarrow> mutex_exec w l = Some (w', l', k) \<Longrightarrow> mutex_local l'"
  by (cases l) (auto simp: Let_def mask_simps mutex_consts spin_defs split: if_splits)

text \<open>An unlocked mutex with sleepers stays attended by every transition.\<close>

lemma mutex_attendedI: "t < length ls \<Longrightarrow> ls ! t = UnlWake \<or> (mutex_waiter (ls ! t) \<and> t \<notin> set q) \<Longrightarrow>
    mutex_attended q ls"
  by (auto simp: mutex_attended_def)

lemma mutex_attended_mono: "mutex_attended q ls \<Longrightarrow> set q' \<subseteq> set q \<Longrightarrow> mutex_attended q' ls"
  by (auto simp: mutex_attended_def)

lemma mutex_attended_update:
  assumes "mutex_attended q ls" and "t < length ls"
    and "ls ! t = UnlWake \<or> (mutex_waiter (ls ! t) \<and> t \<notin> set q) \<Longrightarrow>
         l = UnlWake \<or> (mutex_waiter l \<and> t \<notin> set q)"
  shows "mutex_attended q (ls[t := l])"
  using assms unfolding mutex_attended_def by (metis length_list_update nth_list_update)

text \<open>A waker that takes a sleeper out of the queue leaves an awake waiter.\<close>

lemma mutex_attended_wake:
  assumes wf: "mx.queue_wf \<lparr>shm = w, waitq = q, pcs = ls\<rparr>" and t: "t \<notin> set q"
    and wake: "kernel (KWake 1) t ws q = Some q'" and "q \<noteq> []"
  shows "mutex_attended q' (ls[t := l])"
proof -
  from wake assms(4) obtain u where u: "u \<in> set ws" "u \<in> set q"
    using wake_ok_nonempty [of 1 q ws] by (auto simp: kernel_wake)
  with wf have "u < length ls" "mutex_asleep (ls ! u)" by (auto simp: mx.queue_wf_def)
  moreover from this have "mutex_waiter (ls ! u)" by (cases "ls ! u") auto
  moreover have "u \<noteq> t" using u t by auto
  moreover have "u \<notin> set q'" using wake u by (auto simp: kernel_wake)
  ultimately show ?thesis by (intro mutex_attendedI [of u]) auto
qed

lemma mutex_attended_exec:
  assumes inv: "mutex_inv w q ls" and wf: "mx.queue_wf \<lparr>shm = w, waitq = q, pcs = ls\<rparr>"
    and t: "t < length ls" "t \<notin> set q" and n: "length ls < 2 ^ 31"
    and ex: "mutex_exec w (ls ! t) = Some (w', l, k)" and kr: "kernel k t ws q = Some q'"
    and q': "q' \<noteq> []" and free: "even (unat w')"
  shows "mutex_attended q' (ls[t := l])"
proof -
  have word: "mutex_word w ls" and loc: "mutex_local (ls ! t)" and
    att: "q \<noteq> [] \<Longrightarrow> even (unat w) \<Longrightarrow> mutex_attended q ls"
    using inv t by (simp_all add: mutex_inv_def)
  have "mutex_word w' (ls[t := l])" by (rule mutex_word_exec [OF word t(1) n loc ex])
  with free have free': "cnt mutex_holder (ls[t := l]) = 0"
    by (auto simp: mutex_word_def elim: oddE)
  have notheld: "\<not> mutex_holder l"
    using cnt_ge1 [of t "ls[t := l]" mutex_holder] free' t by fastforce
  have stays: "mutex_attended q' (ls[t := l])" if "k = KNone" "even (unat w)"
      "mutex_waiter (ls ! t) \<longrightarrow> mutex_waiter l" "ls ! t \<noteq> UnlWake"
    using that kr q' att t by (auto intro!: mutex_attended_update)
  show ?thesis
  proof (cases "ls ! t")
    case UnlAnd
    with ex t show ?thesis by (auto intro!: mutex_attendedI [of t])
  next
    case UnlWake
    with ex kr q' wf t show ?thesis
      by (auto simp: KWakeCount_1 kernel_wake intro!: mutex_attended_wake)
  next
    case (LcWait c)
    with ex loc free have "k = KNone" "w' = w" "mutex_waiter l" by (auto split: if_splits)
    with LcWait free show ?thesis by (intro stays) auto
  next
    case UnlCas
    show ?thesis
    proof (cases "w = 1")
      case True
      with word have "cnt mutex_waiter ls = 0" by (simp add: mutex_word_def)
      with wf have "q = []"
        by (cases q) (auto simp: mx.queue_wf_def cnt_0_iff elim!: mutex_asleep.elims)
      with UnlCas ex kr q' show ?thesis by (auto simp: mutex_consts split: if_splits)
    next
      case False
      with UnlCas ex free notheld show ?thesis by (auto simp: mutex_consts)
    qed
  next
    case LcRegister
    with ex kr t show ?thesis by (auto intro!: mutex_attendedI [of t])
  qed (rule stays; use ex free notheld in \<open>auto simp: Let_def split: if_splits\<close>)+
qed

lemma mutex_invariant:
  assumes reach: "mutex_reachable n s" and n: "n < 2 ^ 31"
  shows "mutex_inv (shm s) (waitq s) (pcs s)"
proof (rule mx.system_invariant [where I = mutex_inv, OF reach [unfolded mutex_step_def mutex_init_def]])
  show "mutex_inv UNLOCKED [] (replicate n MIdle)"
    by (simp add: mutex_inv_def mutex_word_def mutex_consts cnt_simps)
next
  fix w q ls t op l
  assume "mutex_inv w q ls" "length ls = n" "t < n" "t \<notin> set q" "mutex_start op (ls ! t) = Some l"
  then show "mutex_inv w q (ls[t := l])"
    by (auto simp: mutex_inv_def mutex_word_def cnt_simps nth_list_update
        elim!: mutex_start_cases intro!: mutex_attended_update)
next
  fix w q ls t ws w' l k q'
  assume I: "mutex_inv w q ls" and wf: "mx.queue_wf \<lparr>shm = w, waitq = q, pcs = ls\<rparr>"
    and len: "length ls = n" and t: "t < n" "t \<notin> set q"
    and ex: "mutex_exec w (ls ! t) = Some (w', l, k)" and kr: "kernel k t ws q = Some q'"
  have w: "mutex_word w ls" "mutex_local (ls ! t)" using I len t by (simp_all add: mutex_inv_def)
  show "mutex_inv w' q' (ls[t := l])"
    unfolding mutex_inv_def
  proof (intro conjI impI)
    show "mutex_word w' (ls[t := l])"
      using mutex_word_exec [of w ls t] w len t n ex by simp
    show "\<forall>u < length (ls[t := l]). mutex_local (ls[t := l] ! u)"
      using I mutex_local_exec [OF w(2) ex] unfolding mutex_inv_def by (intro all_nth_update) auto
    show "mutex_attended q' (ls[t := l])" if "q' \<noteq> []" "even (unat w')"
      using mutex_attended_exec [OF I wf _ _ _ ex kr that] len t n by simp
  qed
next
  fix w q ls t
  assume I: "mutex_inv w q ls" and wf: "mx.queue_wf \<lparr>shm = w, waitq = q, pcs = ls\<rparr>"
    and t: "t \<in> set q"
  then have "mutex_attended q ls \<Longrightarrow> mutex_attended (filter (\<lambda>u. u \<noteq> t) q) ls"
    by (elim mutex_attended_mono) auto
  with I t show "mutex_inv w (filter (\<lambda>u. u \<noteq> t) q) ls"
    by (auto simp: mutex_inv_def)
qed

section \<open>The mutex is an exclusive lock\<close>

interpretation mxl: exclusive_lock mutex_step mutex_init "2 ^ 31" "holds_at mutex_holder"
proof unfold_locales
  fix t n :: nat assume "t < n"
  then show "\<not> holds_at mutex_holder (mutex_init n) t"
    by (simp add: holds_at_def mutex_init_def)
next
  fix n s i j
  assume "mutex_reachable n s" "n < 2 ^ 31" "holds_at mutex_holder s i" "holds_at mutex_holder s j"
  then show "i = j"
    using mutex_invariant [of n s] cnt_holds_unique [of mutex_holder s i j]
    by (simp add: mutex_inv_def mutex_word_def)
next
  fix a s s' assume "mutex_step a s = Some s'"
  then show "\<exists>t. \<forall>u. u \<noteq> t \<longrightarrow> holds_at mutex_holder s' u = holds_at mutex_holder s u"
    unfolding mutex_step_def by (rule holds_at_one_change)
qed

section \<open>A waiter on the way to an unlocked mutex gets it\<close>

lemma mutex_reachable_facts:
  assumes "mutex_reachable n s"
  shows "length (pcs s) = n" and "mx.queue_wf s"
  using assms mx.reachable_length mx.reachable_queue_wf
  unfolding mutex_step_def mutex_init_def by blast+

text \<open>The points inside \<open>lock\<close> and inside \<open>unlock\<close>.\<close>

fun mutex_acquiring :: "mutex_pc \<Rightarrow> bool" where
  "mutex_acquiring MLockFast = True"
| "mutex_acquiring (LcSpin _ _ _) = True"
| "mutex_acquiring LcRegister = True"
| "mutex_acquiring LcLoad = True"
| "mutex_acquiring (LcCas _) = True"
| "mutex_acquiring (LcWait _) = True"
| "mutex_acquiring LcAsleep = True"
| "mutex_acquiring _ = False"

fun mutex_releasing :: "mutex_pc \<Rightarrow> bool" where
  "mutex_releasing UnlLoad = True"
| "mutex_releasing UnlCas = True"
| "mutex_releasing UnlReload = True"
| "mutex_releasing UnlAnd = True"
| "mutex_releasing UnlWake = True"
| "mutex_releasing _ = False"

text \<open>A thread in \<open>lock_contended\<close> gets a mutex that nobody holds by its own steps, through all three rounds of spinning.\<close>

lemma mutex_runs_load:
  assumes "even (unat w)"
  shows "\<exists>k w'. plain_run mutex_exec k w LcLoad = Some (w', MHeld)"
proof -
  have "plain_run mutex_exec 2 w LcLoad = Some ((w - 2) OR 1, MHeld)"
    using assms by (simp add: numeral_2_eq_2 mask_simps mutex_consts Let_def)
  then show ?thesis by blast
qed

lemma mutex_runs_step: "mutex_exec w l = Some (w1, l1, KNone) \<Longrightarrow>
    \<exists>k w'. plain_run mutex_exec k w1 l1 = Some (w', MHeld) \<Longrightarrow> \<exists>k w'. plain_run mutex_exec k w l = Some (w', MHeld)"
  by (elim exE) (blast intro: plain_run_step)

lemma mutex_runs_register:
  assumes "even (unat w)"
  shows "\<exists>k w'. plain_run mutex_exec k w LcRegister = Some (w', MHeld)"
proof (rule mutex_runs_step)
  show "mutex_exec w LcRegister = Some (w + 2, LcLoad, KNone)" by (simp add: mutex_consts)
  have "even (unat (w + 2))" using assms by (simp add: unat_word_ariths dvd_mod)
  then show "\<exists>k w'. plain_run mutex_exec k (w + 2) LcLoad = Some (w', MHeld)" by (rule mutex_runs_load)
qed

lemma mutex_runs_spin:
  "even (unat w) \<Longrightarrow> mutex_local (LcSpin sc bo i) \<Longrightarrow> \<exists>k w'. plain_run mutex_exec k w (LcSpin sc bo i) = Some (w', MHeld)"
proof (induction "(FUTEX_THRESHOLD - sc) * 1001 + (bo - i)" arbitrary: sc bo i rule: less_induct)
  case less
  note loc = mutex_local_exec [OF less.prems(2)]
  show ?case
  proof (cases "w = 0 \<and> i < bo")
    case True
    then have "plain_run mutex_exec 1 w (LcSpin sc bo i) = Some (1, MHeld)" by (simp add: mutex_consts)
    then show ?thesis by blast
  next
    case False
    show ?thesis
    proof (cases "i < bo")
      case True
      with False have ex: "mutex_exec w (LcSpin sc bo i) = Some (w, LcSpin sc bo (i + 1), KNone)"
        by (simp add: mutex_consts)
      show ?thesis
        by (rule mutex_runs_step [OF ex], rule less.hyps) (use True less.prems loc [OF ex] in auto)
    next
      case at_end: False
      show ?thesis
      proof (cases "sc + 1 < FUTEX_THRESHOLD")
        case True
        with at_end have ex: "mutex_exec w (LcSpin sc bo i) =
            Some (w, LcSpin (sc + 1) (if BACKOFF_MAX < bo * BACKOFF_MULTIPLIER then BACKOFF_MAX else bo * BACKOFF_MULTIPLIER) 0, KNone)"
          by (simp add: Let_def)
        show ?thesis
          by (rule mutex_runs_step [OF ex], rule less.hyps)
            (use True less.prems loc [OF ex] at_end in \<open>auto simp: spin_defs\<close>)
      next
        case False
        with at_end have ex: "mutex_exec w (LcSpin sc bo i) = Some (w, LcRegister, KNone)" by simp
        show ?thesis by (rule mutex_runs_step [OF ex mutex_runs_register]) (rule less.prems)
      qed
    qed
  qed
qed

lemma mutex_runs_lock:
  assumes "even (unat w)" and "mutex_acquiring l" and "mutex_local l"
  shows "\<exists>k w'. plain_run mutex_exec k w l = Some (w', MHeld)"
proof (cases l)
  case MLockFast
  show ?thesis
  proof (cases "w = 0")
    case True
    with MLockFast have "plain_run mutex_exec 1 w l = Some (1, MHeld)" by (simp add: mutex_consts)
    then show ?thesis by blast
  next
    case False
    with MLockFast have "mutex_exec w l = Some (w, LcSpin 0 SPIN_INITIAL 0, KNone)" by (simp add: mutex_consts)
    then show ?thesis by (rule mutex_runs_step) (rule mutex_runs_spin; use assms in \<open>simp add: spin_defs\<close>)
  qed
next
  case (LcCas c)
  show ?thesis
  proof (cases "w = c")
    case True
    with LcCas have "plain_run mutex_exec 1 w l = Some ((w - 2) OR 1, MHeld)" by (simp add: mutex_consts Let_def)
    then show ?thesis by blast
  next
    case False
    with LcCas have "mutex_exec w l = Some (w, LcLoad, KNone)" by (simp add: Let_def)
    then show ?thesis by (rule mutex_runs_step) (rule mutex_runs_load [OF assms(1)])
  qed
next
  case (LcWait c)
  with assms have "mutex_exec w l = Some (w, LcLoad, KNone)" by auto
  then show ?thesis by (rule mutex_runs_step) (rule mutex_runs_load [OF assms(1)])
next
  case LcAsleep
  then have "mutex_exec w l = Some (w, LcLoad, KNone)" by simp
  then show ?thesis by (rule mutex_runs_step) (rule mutex_runs_load [OF assms(1)])
qed (use assms mutex_runs_load mutex_runs_register mutex_runs_spin in auto)

lemma mutex_waiter_acquires:
  assumes t: "t < length ls" "t \<notin> set q" and l: "mutex_waiter (ls ! t)" "mutex_local (ls ! t)"
    and w: "even (unat w)"
  shows "\<exists>k w'. run mutex_step (steps (replicate k (t, []))) \<lparr>shm = w, waitq = q, pcs = ls\<rparr> =
    Some \<lparr>shm = w', waitq = q, pcs = ls[t := MHeld]\<rparr>"
proof -
  have "mutex_acquiring (ls ! t)" using l(1) by (cases "ls ! t") auto
  from mutex_runs_lock [OF w this l(2)] obtain k w' where "plain_run mutex_exec k w (ls ! t) = Some (w', MHeld)"
    by blast
  from plain_run_system [OF this t] show ?thesis unfolding mutex_step_def steps_simps by blast
qed

lemma mutex_word_free:
  assumes "mutex_reachable n s" and "n < 2 ^ 31"
  shows "unat (shm s) = 2 * cnt mutex_waiter (pcs s) + cnt mutex_holder (pcs s) \<and>
    (shm s AND LOCKED_FLAG = 0 \<longleftrightarrow> owner_of (holds_at mutex_holder s) n = None)"
proof -
  have len: "length (pcs s) = n" by (rule mutex_reachable_facts [OF assms(1)])
  have inv: "mutex_word (shm s) (pcs s)"
    using mutex_invariant [OF assms] by (simp add: mutex_inv_def)
  then have "even (unat (shm s)) \<longleftrightarrow> cnt mutex_holder (pcs s) = 0"
    by (auto simp: mutex_word_def le_Suc_eq)
  with inv len show ?thesis
    by (simp add: mutex_word_def mutex_consts mask_simps owner_of_None holds_at_def cnt_0_iff)
qed

text \<open>Nobody but the threads inside the mutex needs to move for one of the waiters to get it.\<close>

lemma mutex_waiter_gets_it:
  assumes reach: "mutex_reachable n s" and n: "n < 2 ^ 31"
    and free: "owner_of (holds_at mutex_holder s) n = None"
    and t: "t < n" "mutex_waiter (pcs s ! t)"
  shows "\<exists>sched s' u. run mutex_step (steps sched) s = Some s' \<and> u < n \<and> mutex_waiter (pcs s ! u) \<and>
    pcs s' ! u = MHeld"
proof -
  obtain w q ls where s: "s = \<lparr>shm = w, waitq = q, pcs = ls\<rparr>" by (cases s) auto
  have len: "length ls = n" and wf: "mx.queue_wf s"
    using mutex_reachable_facts [OF reach] s by simp_all
  have inv: "mutex_inv w q ls" using mutex_invariant [OF reach n] s by simp
  have "w AND LOCKED_FLAG = 0" using mutex_word_free [OF reach n] free s by simp
  then have even: "even (unat w)" by (simp add: mutex_consts mask_simps)
  have go: ?thesis if u: "u < n" "u \<notin> set q" "mutex_waiter (ls ! u)" for u
  proof -
    have "u < length ls" "mutex_local (ls ! u)" using u inv len by (simp_all add: mutex_inv_def)
    then obtain k w' where "run mutex_step (steps (replicate k (u, []))) \<lparr>shm = w, waitq = q, pcs = ls\<rparr> =
        Some \<lparr>shm = w', waitq = q, pcs = ls[u := MHeld]\<rparr>"
      using mutex_waiter_acquires [OF _ u(2,3) _ even] by blast
    with u s len show ?thesis by (intro exI [of _ "replicate k (u, [])"] exI [of _ u] exI conjI) auto
  qed
  show ?thesis
  proof (cases "t \<in> set q")
    case False
    with t go s show ?thesis by simp
  next
    case True
    then have "q \<noteq> []" by auto
    with inv even have "mutex_attended q ls" by (auto simp: mutex_inv_def)
    then obtain v where v: "v < n" "ls ! v = UnlWake \<or> (mutex_waiter (ls ! v) \<and> v \<notin> set q)"
      using len by (auto simp: mutex_attended_def)
    show ?thesis
    proof (cases "ls ! v = UnlWake")
      case False
      with v go show ?thesis by simp
    next
      case wake: True
      then have ex: "mutex_exec w (ls ! v) = Some (w, MIdle, KWake 1)" by (simp add: KWakeCount_1)
      obtain q' where stp: "mutex_step (Step v (take 1 q)) s =
          Some \<lparr>shm = w, waitq = q', pcs = ls[v := MIdle]\<rparr>"
        and u: "hd q < n" "hd q \<noteq> v" "mutex_asleep (ls[v := MIdle] ! hd q)" "hd q \<notin> set q'"
        using mx.wake_takes_head [OF wf [unfolded s] \<open>q \<noteq> []\<close> _ _ _ ex] v len wake s
        unfolding mutex_step_def by auto
      then have ul: "ls ! hd q = LcAsleep" by (auto elim: mutex_asleep.elims)
      with u obtain k w' where "run mutex_step (steps (replicate k (hd q, []))) \<lparr>shm = w, waitq = q', pcs = ls[v := MIdle]\<rparr> =
          Some \<lparr>shm = w', waitq = q', pcs = ls[v := MIdle, hd q := MHeld]\<rparr>"
        using mutex_waiter_acquires [of "hd q" "ls[v := MIdle]" q' w] len even by auto
      with stp have "run mutex_step (steps ((v, take 1 q) # replicate k (hd q, []))) s =
          Some \<lparr>shm = w', waitq = q', pcs = ls[v := MIdle, hd q := MHeld]\<rparr>" by simp
      with u ul s len show ?thesis
        by (intro exI [of _ "(v, take 1 q) # replicate k (hd q, [])"] exI [of _ "hd q"] exI conjI) auto
    qed
  qed
qed

section \<open>Properties\<close>

text \<open>
  A schedule of two threads: thread 0 locks; thread 1 finds the mutex taken, spins 10, 20 and 40
  times, registers as a waiter and goes to sleep; thread 0 unlocks up to the wake.
\<close>

definition mutex_demo_sleep :: "mutex_op act list" where
  "mutex_demo_sleep = [Invoke 0 OpLock, Step 0 [], Invoke 1 OpLock, Step 1 []] @
     replicate 73 (Step 1 []) @ [Step 1 [], Step 1 [], Step 1 []]"

definition mutex_demo_unlock :: "mutex_op act list" where
  "mutex_demo_unlock = mutex_demo_sleep @ [Invoke 0 OpUnlock, Step 0 [], Step 0 []]"

lemma mutex_demo_sleep_run: "run mutex_step mutex_demo_sleep (mutex_init 2) =
    Some \<lparr>shm = 3, waitq = [1], pcs = [MHeld, LcAsleep]\<rparr>"
  by code_simp

lemma mutex_demo_unlock_run: "run mutex_step mutex_demo_unlock (mutex_init 2) =
    Some \<lparr>shm = 2, waitq = [1], pcs = [UnlWake, LcAsleep]\<rparr>"
  by code_simp

lemma mutex_demo_sleep_reachable:
  "mutex_reachable 2 \<lparr>shm = 3, waitq = [1], pcs = [MHeld, LcAsleep]\<rparr>"
  by (rule run_reachable [OF mutex_demo_sleep_run])

lemma mutex_demo_unlock_reachable:
  "mutex_reachable 2 \<lparr>shm = 2, waitq = [1], pcs = [UnlWake, LcAsleep]\<rparr>"
  by (rule run_reachable [OF mutex_demo_unlock_run])

text \<open>
  C1. Mutual exclusion of the mutex: in every state the threads can reach by any interleaving of
  \<open>lock\<close>, \<open>try_lock\<close> and \<open>unlock\<close>, with any choice of sleepers by the kernel and any spurious
  wake-ups, two different threads are never both inside the critical section.
\<close>
theorem mutex_mutual_exclusion:
  assumes "mutex_reachable n s" and "n < 2 ^ 31" and "i < n" and "j < n" and "i \<noteq> j"
  shows "\<not> (mutex_holder (pcs s ! i) \<and> mutex_holder (pcs s ! j))"
proof
  assume "mutex_holder (pcs s ! i) \<and> mutex_holder (pcs s ! j)"
  with assms mutex_reachable_facts(1) [OF assms(1)]
  have "holds_at mutex_holder s i" "holds_at mutex_holder s j" by (simp_all add: holds_at_def)
  with assms show False using mxl.exclusive [of n s i j] by blast
qed

theorem mutex_mutual_exclusion_witness:
  "mutex_reachable 2 \<lparr>shm = 3, waitq = [1], pcs = [MHeld, LcAsleep]\<rparr> \<and>
   \<not> (mutex_holder ([MHeld, LcAsleep] ! 0) \<and> mutex_holder ([MHeld, LcAsleep] ! 1))"
  using mutex_mutual_exclusion [OF mutex_demo_sleep_reachable, of 0 1] mutex_demo_sleep_reachable
  by simp

text \<open>
  What the word says: bit 0 is set exactly if some thread holds the mutex, and the bits above
  it are the number of registered waiters (awake or asleep), in every reachable state.
\<close>
theorem mutex_word_layout:
  assumes "mutex_reachable n s" and "n < 2 ^ 31"
  shows "unat (shm s) = 2 * cnt mutex_waiter (pcs s) + cnt mutex_holder (pcs s) \<and>
    (shm s AND LOCKED_FLAG = 0 \<longleftrightarrow> owner_of (holds_at mutex_holder s) n = None)"
  using assms by (rule mutex_word_free)

theorem mutex_word_layout_witness:
  "unat (3 :: u32) = 2 * cnt mutex_waiter [MHeld, LcAsleep] + cnt mutex_holder [MHeld, LcAsleep]"
  using mutex_word_layout [OF mutex_demo_sleep_reachable] by simp

text \<open>
  C2. No lost wake-up: whenever the mutex is free and some thread waits for it in
  \<open>lock_contended\<close>, even if all of them are asleep in the kernel, a schedule of nothing but steps of
  the calls already under way leads to a state in which one of the waiters has acquired it. No new
  operation begins in it and nobody is woken spuriously: a sleeper leaves the kernel only by the
  wake of an \<open>unlock\<close>, so a wake-up that was missed would leave a state with no such schedule.
\<close>
theorem mutex_no_lost_wakeup:
  assumes reach: "mutex_reachable n s" and n: "n < 2 ^ 31"
    and free: "owner_of (holds_at mutex_holder s) n = None"
    and t: "t < n" "mutex_waiter (pcs s ! t)"
  shows "\<exists>sched s' u. run mutex_step (steps sched) s = Some s' \<and> u < n \<and> mutex_waiter (pcs s ! u) \<and>
    pcs s' ! u = MHeld"
  by (rule mutex_waiter_gets_it [OF assms])

theorem mutex_no_lost_wakeup_witness:
  "\<exists>sched s' u. run mutex_step (steps sched) \<lparr>shm = 2, waitq = [1], pcs = [UnlWake, LcAsleep]\<rparr> = Some s' \<and>
     u < 2 \<and> mutex_waiter ([UnlWake, LcAsleep] ! u) \<and> pcs s' ! u = MHeld"
proof -
  have "owner_of (holds_at mutex_holder \<lparr>shm = 2 :: u32, waitq = [1], pcs = [UnlWake, LcAsleep]\<rparr>) 2
      = None" by code_simp
  from mutex_no_lost_wakeup [OF mutex_demo_unlock_reachable _ this, of 1] show ?thesis by simp
qed

text \<open>
  Refinement: along every run the owner read off the program points moves only as the abstract
  lock allows, by an acquisition when free and a release by the owner.
\<close>
theorem mutex_refines_lock:
  assumes "mutex_reachable n s" and "n < 2 ^ 31"
  shows "reachable lock_spec None (owner_of (holds_at mutex_holder s) n)"
  using assms by (rule mxl.refines_spec)

theorem mutex_refines_lock_witness:
  "reachable lock_spec None
     (owner_of (holds_at mutex_holder \<lparr>shm = 3 :: u32, waitq = [1], pcs = [MHeld, LcAsleep]\<rparr>) 2)"
  using mutex_refines_lock [OF mutex_demo_sleep_reachable] by simp

end
