(* ===== verification/SpinLock.thy ===== *)
theory SpinLock
  imports Lock_Spec
begin

text \<open>
  \<^verbatim>\<open>psync_spinlock.h\<close>: the \<open>SpinLock\<close> with exponential backoff and the FIFO \<open>TicketLock\<close>.
  Neither sleeps in the kernel. Shown: the spin lock is an exclusive lock whose backoff stays
  within 64; the ticket lock is exclusive and serves the tickets in the order in which they
  were drawn, through the wrap-around of its 32-bit counters.
\<close>

section \<open>SpinLock\<close>

text \<open>\<open>SpSpin\<close> and \<open>SpCas\<close> carry the local \<open>backoff\<close>; pauses and yields touch no memory.\<close>

datatype spin_pc =
    SpIdle
  | SpLockFast
  | SpTryLock
  | SpSpin nat
  | SpCas nat
  | SpHeld
  | SpUnlock

datatype spin_op = SpOpLock | SpOpTryLock | SpOpUnlock

fun spin_start :: "spin_op \<Rightarrow> spin_pc \<Rightarrow> spin_pc option" where
  "spin_start SpOpLock SpIdle = Some SpLockFast"
| "spin_start SpOpTryLock SpIdle = Some SpTryLock"
| "spin_start SpOpUnlock SpHeld = Some SpUnlock"
| "spin_start _ _ = None"

fun spin_exec :: "u32 \<Rightarrow> spin_pc \<Rightarrow> (u32 \<times> spin_pc \<times> keff) option" where
  "spin_exec w SpIdle = None"
| "spin_exec w SpHeld = None"
| "spin_exec w SpLockFast =
     (case atomic_compare_exchange w 0 1 MO_acquire MO_relaxed of
        (True, w', _) \<Rightarrow> Some (w', SpHeld, KNone)
      | (False, w', _) \<Rightarrow> Some (w', SpSpin 1, KNone))"
| "spin_exec w (SpSpin backoff) =
     (if atomic_load w MO_relaxed \<noteq> 0
      then Some (w, SpSpin (if backoff < 64 then backoff * 2 else backoff), KNone)
      else Some (w, SpCas backoff, KNone))"
| "spin_exec w (SpCas backoff) =
     (case atomic_compare_exchange w 0 1 MO_acquire MO_relaxed of
        (True, w', _) \<Rightarrow> Some (w', SpHeld, KNone)
      | (False, w', _) \<Rightarrow> Some (w', SpSpin backoff, KNone))"
| "spin_exec w SpTryLock =
     (case atomic_compare_exchange w 0 1 MO_acquire MO_relaxed of
        (True, w', _) \<Rightarrow> Some (w', SpHeld, KNone)
      | (False, w', _) \<Rightarrow> Some (w', SpIdle, KNone))"
| "spin_exec w SpUnlock = Some (atomic_store w 0 MO_release, SpIdle, KNone)"

definition spin_step :: "spin_op act \<Rightarrow> (u32, spin_pc) fsys \<Rightarrow> (u32, spin_pc) fsys option" where
  "spin_step = sys_step spin_exec spin_start"

definition spin_init :: "nat \<Rightarrow> (u32, spin_pc) fsys" where
  "spin_init n = sys_init 0 SpIdle n"

abbreviation spin_reachable :: "nat \<Rightarrow> (u32, spin_pc) fsys \<Rightarrow> bool" where
  "spin_reachable n \<equiv> reachable spin_step (spin_init n)"

fun_cases spin_start_cases: "spin_start op l = Some l'"

lemma spin_no_kernel: "spin_exec w l = Some (w', l', k) \<Longrightarrow> k = KNone"
  by (cases l) (auto split: if_splits)

interpretation sp: futex_client spin_exec spin_start "\<lambda>_. False" SpIdle
  by unfold_locales (auto dest: spin_no_kernel)

fun spin_holder :: "spin_pc \<Rightarrow> bool" where
  "spin_holder SpHeld = True"
| "spin_holder SpUnlock = True"
| "spin_holder _ = False"

fun spin_contender :: "spin_pc \<Rightarrow> bool" where
  "spin_contender SpLockFast = True"
| "spin_contender (SpSpin _) = True"
| "spin_contender (SpCas _) = True"
| "spin_contender _ = False"

fun spin_local :: "spin_pc \<Rightarrow> bool" where
  "spin_local (SpSpin b) = (\<exists>k \<le> 6. b = 2 ^ k)"
| "spin_local (SpCas b) = (\<exists>k \<le> 6. b = 2 ^ k)"
| "spin_local _ = True"

text \<open>The word is the number of holders; the backoff is a power of two up to 64.\<close>

definition spin_inv :: "u32 \<Rightarrow> tid list \<Rightarrow> spin_pc list \<Rightarrow> bool" where
  "spin_inv w q ls \<longleftrightarrow> unat w = cnt spin_holder ls \<and> cnt spin_holder ls \<le> 1 \<and>
     (\<forall>t < length ls. spin_local (ls ! t))"

lemma spin_local_exec: "spin_local l \<Longrightarrow> spin_exec w l = Some (w', l', k) \<Longrightarrow> spin_local l'"
proof (cases l)
  case (SpSpin b)
  assume "spin_local l" "spin_exec w l = Some (w', l', k)"
  with SpSpin obtain j where j: "j \<le> 6" "b = 2 ^ j" by auto
  show ?thesis
  proof (cases "j = 6")
    case True
    then have "b = 64" using j by simp
    moreover have "\<exists>k \<le> 6. (2 :: nat) ^ k = 64" by (intro exI [of _ 6]) simp
    ultimately show ?thesis
      using SpSpin \<open>spin_exec w l = Some (w', l', k)\<close> by (auto split: if_splits)
  next
    case False
    with j have "\<exists>k \<le> 6. b * 2 = 2 ^ k" by (intro exI [of _ "Suc j"]) simp
    with SpSpin \<open>spin_local l\<close> \<open>spin_exec w l = Some (w', l', k)\<close> show ?thesis
      by (cases "w = 0"; cases "b < 64") auto
  qed
qed (auto split: if_splits intro!: exI [of _ 0])

lemma spin_inv_exec:
  assumes inv: "spin_inv w q ls" and t: "t < length ls"
    and ex: "spin_exec w (ls ! t) = Some (w', l, k)"
  shows "spin_inv w' q' (ls[t := l])"
proof -
  note c = cnt_update [OF t, of spin_holder l]
  have "\<forall>u < length (ls[t := l]). spin_local (ls[t := l] ! u)"
    using inv t spin_local_exec [OF _ ex] unfolding spin_inv_def by (intro all_nth_update) auto
  moreover have "unat w' = cnt spin_holder (ls[t := l]) \<and> cnt spin_holder (ls[t := l]) \<le> 1"
    using inv c ex unfolding spin_inv_def by (cases "ls ! t") (auto split: if_splits)
  ultimately show ?thesis by (simp add: spin_inv_def)
qed

lemma spin_invariant:
  assumes "spin_reachable n s"
  shows "spin_inv (shm s) (waitq s) (pcs s)"
proof (rule sp.system_invariant [where I = spin_inv, OF assms [unfolded spin_step_def spin_init_def]])
  show "spin_inv 0 [] (replicate n SpIdle)" by (simp add: spin_inv_def cnt_simps)
next
  fix w q ls t op l
  assume "spin_inv w q ls" "length ls = n" "t < n" "spin_start op (ls ! t) = Some l"
  then show "spin_inv w q (ls[t := l])"
    by (auto simp: spin_inv_def cnt_simps nth_list_update elim!: spin_start_cases)
next
  fix w q ls t ws w' l k q'
  assume "spin_inv w q ls" "length ls = n" "t < n" "spin_exec w (ls ! t) = Some (w', l, k)"
  then show "spin_inv w' q' (ls[t := l])" by (simp add: spin_inv_exec)
qed (simp add: spin_inv_def)

lemma spin_reachable_length: "spin_reachable n s \<Longrightarrow> length (pcs s) = n"
  unfolding spin_step_def spin_init_def by (rule sp.reachable_length)

lemma spin_reachable_queue: "spin_reachable n s \<Longrightarrow> waitq s = []"
  using sp.reachable_queue_wf [of 0 n s] unfolding spin_step_def spin_init_def
  by (cases "waitq s") (auto simp: sp.queue_wf_def)

interpretation spl: exclusive_lock spin_step spin_init "2 ^ 32" "holds_at spin_holder"
proof unfold_locales
  fix t n :: nat assume "t < n"
  then show "\<not> holds_at spin_holder (spin_init n) t" by (simp add: holds_at_def spin_init_def)
next
  fix n s i j
  assume "spin_reachable n s" "holds_at spin_holder s i" "holds_at spin_holder s j"
  then show "i = j"
    using spin_invariant [of n s] cnt_holds_unique [of spin_holder s i j] by (simp add: spin_inv_def)
next
  fix a s s' assume "spin_step a s = Some s'"
  then show "\<exists>t. \<forall>u. u \<noteq> t \<longrightarrow> holds_at spin_holder s' u = holds_at spin_holder s u"
    unfolding spin_step_def by (rule holds_at_one_change)
qed

section \<open>TicketLock\<close>

record ticket_mem =
  now_serving :: u32
  next_ticket :: u32

text \<open>
  A thread between its \<open>fetch_add\<close> and the end of \<open>lock\<close> carries its ticket and
  \<open>spin_count\<close>; one inside \<open>try_lock\<close> carries \<open>serving\<close>.
\<close>

datatype ticket_pc =
    TkIdle
  | TkFetch
  | TkSpin u32 nat
  | TkTryServing
  | TkTryNext u32
  | TkTryCas u32
  | TkHeld
  | TkUnlock

datatype ticket_op = TkOpLock | TkOpTryLock | TkOpUnlock

fun ticket_start :: "ticket_op \<Rightarrow> ticket_pc \<Rightarrow> ticket_pc option" where
  "ticket_start TkOpLock TkIdle = Some TkFetch"
| "ticket_start TkOpTryLock TkIdle = Some TkTryServing"
| "ticket_start TkOpUnlock TkHeld = Some TkUnlock"
| "ticket_start _ _ = None"

fun ticket_exec :: "ticket_mem \<Rightarrow> ticket_pc \<Rightarrow> (ticket_mem \<times> ticket_pc \<times> keff) option" where
  "ticket_exec m TkIdle = None"
| "ticket_exec m TkHeld = None"
| "ticket_exec m TkFetch =
     (let (my_ticket, next') = atomic_fetch_add (next_ticket m) 1 MO_relaxed
      in Some (m\<lparr>next_ticket := next'\<rparr>, TkSpin my_ticket 0, KNone))"
| "ticket_exec m (TkSpin my_ticket spin_count) =
     (if atomic_load (now_serving m) MO_acquire \<noteq> my_ticket
      then Some (m, TkSpin my_ticket (if 256 < spin_count + 1 then 0 else spin_count + 1), KNone)
      else Some (m, TkHeld, KNone))"
| "ticket_exec m TkTryServing = Some (m, TkTryNext (atomic_load (now_serving m) MO_acquire), KNone)"
| "ticket_exec m (TkTryNext serving) =
     (let next' = atomic_load (next_ticket m) MO_relaxed
      in if serving \<noteq> next' then Some (m, TkIdle, KNone) else Some (m, TkTryCas serving, KNone))"
| "ticket_exec m (TkTryCas serving) =
     (case atomic_compare_exchange (next_ticket m) serving (serving + 1) MO_acquire MO_relaxed of
        (True, next', _) \<Rightarrow> Some (m\<lparr>next_ticket := next'\<rparr>, TkHeld, KNone)
      | (False, next', _) \<Rightarrow> Some (m\<lparr>next_ticket := next'\<rparr>, TkIdle, KNone))"
| "ticket_exec m TkUnlock =
     (let (_, serving') = atomic_fetch_add (now_serving m) 1 MO_release
      in Some (m\<lparr>now_serving := serving'\<rparr>, TkIdle, KNone))"

definition ticket_step :: "ticket_op act \<Rightarrow> (ticket_mem, ticket_pc) fsys \<Rightarrow>
    (ticket_mem, ticket_pc) fsys option" where
  "ticket_step = sys_step ticket_exec ticket_start"

definition ticket_init :: "nat \<Rightarrow> (ticket_mem, ticket_pc) fsys" where
  "ticket_init n = sys_init \<lparr>now_serving = 0, next_ticket = 0\<rparr> TkIdle n"

fun_cases ticket_start_cases: "ticket_start op l = Some l'"

lemma ticket_no_kernel: "ticket_exec w l = Some (w', l', k) \<Longrightarrow> k = KNone"
  by (cases l) (auto simp: Let_def split: if_splits)

interpretation tk: futex_client ticket_exec ticket_start "\<lambda>_. False" TkIdle
  by unfold_locales (auto dest: ticket_no_kernel)

fun ticket_holder :: "ticket_pc \<Rightarrow> bool" where
  "ticket_holder TkHeld = True"
| "ticket_holder TkUnlock = True"
| "ticket_holder _ = False"

fun ticketed :: "ticket_pc \<Rightarrow> bool" where
  "ticketed (TkSpin _ _) = True"
| "ticketed TkHeld = True"
| "ticketed TkUnlock = True"
| "ticketed _ = False"

text \<open>
  The queue behind the two counters: \<open>U\<close> unlocks so far, and \<open>qs\<close> the threads that have drawn
  a ticket and not given it back, in the order of their tickets. Only the first can hold the lock.
  The counters are these numbers modulo \<open>2 ^ 32\<close>; a \<open>try_lock\<close> knows an old value of
  \<open>now_serving_\<close>.
\<close>

fun ticket_at :: "nat \<Rightarrow> nat \<Rightarrow> ticket_pc \<Rightarrow> bool" where
  "ticket_at U i (TkSpin my _) = (my = of_nat (U + i))"
| "ticket_at U i _ = (i = 0)"

fun ticket_old :: "nat \<Rightarrow> ticket_pc \<Rightarrow> bool" where
  "ticket_old U (TkTryNext s) = (\<exists>u \<le> U. s = of_nat u)"
| "ticket_old U (TkTryCas s) = (\<exists>u \<le> U. s = of_nat u)"
| "ticket_old U _ = True"

definition ticket_queue :: "nat \<Rightarrow> tid list \<Rightarrow> ticket_mem \<Rightarrow> ticket_pc list \<Rightarrow> bool" where
  "ticket_queue U qs m ls \<longleftrightarrow>
     now_serving m = of_nat U \<and> next_ticket m = of_nat (U + length qs) \<and> distinct qs \<and>
     (\<forall>t. t \<in> set qs \<longleftrightarrow> t < length ls \<and> ticketed (ls ! t)) \<and>
     (\<forall>i < length qs. ticket_at U i (ls ! (qs ! i))) \<and>
     (\<forall>t < length ls. ticket_old U (ls ! t))"

lemma u32_offset_zero: "(of_nat (U + i) :: u32) = of_nat U \<Longrightarrow> i < 2 ^ 32 \<Longrightarrow> i = 0"
proof -
  assume "(of_nat (U + i) :: u32) = of_nat U" and i: "i < 2 ^ 32"
  then have "(of_nat i :: u32) = 0" by simp
  then have "2 ^ 32 dvd i" by (simp add: word_of_nat_eq_0_iff)
  with i show "i = 0" by (auto dest: nat_dvd_not_less)
qed

lemma ticket_queue_length: "ticket_queue U qs m ls \<Longrightarrow> length qs \<le> length ls"
proof -
  assume "ticket_queue U qs m ls"
  then have "set qs \<subseteq> {..<length ls}" "distinct qs" by (auto simp: ticket_queue_def)
  then show ?thesis using card_mono [of "{..<length ls}" "set qs"] by (simp add: distinct_card)
qed

lemma ticket_old_mono: "ticket_old U l \<Longrightarrow> U \<le> U' \<Longrightarrow> ticket_old U' l"
  by (cases l) (auto intro: le_trans)

text \<open>A thread that moves without drawing or returning a ticket keeps its place.\<close>

lemma ticket_queue_move:
  assumes I: "ticket_queue U qs m ls" and t: "t < length ls"
    and same: "ticketed l = ticketed (ls ! t)" and old: "ticket_old U l"
    and at: "\<And>i. i < length qs \<Longrightarrow> qs ! i = t \<Longrightarrow> ticket_at U i (ls ! t) \<Longrightarrow> ticket_at U i l"
  shows "ticket_queue U qs m (ls[t := l])"
  using I t same old at all_nth_update [of ls "ticket_old U" l t]
  unfolding ticket_queue_def by (auto simp: nth_list_update)

text \<open>Drawing a ticket joins the queue at its end.\<close>

lemma ticket_queue_join:
  assumes I: "ticket_queue U qs m ls" and t: "t < length ls" "\<not> ticketed (ls ! t)"
    and l: "ticketed l" "ticket_at U (length qs) l" "ticket_old U l"
  shows "ticket_queue U (qs @ [t]) (m\<lparr>next_ticket := next_ticket m + 1\<rparr>) (ls[t := l])"
proof -
  have t': "t \<notin> set qs" using I t by (auto simp: ticket_queue_def)
  have "ticket_at U i (ls[t := l] ! ((qs @ [t]) ! i))" if "i < Suc (length qs)" for i
  proof (cases "i = length qs")
    case False
    then have "i < length qs" using that by simp
    moreover from this have "qs ! i \<noteq> t" using t' by auto
    ultimately show ?thesis using I by (simp add: ticket_queue_def nth_append)
  qed (use l t in simp)
  then show ?thesis
    using I t t' l all_nth_update [of ls "ticket_old U" l t]
    unfolding ticket_queue_def by (auto simp: nth_list_update add.commute)
qed

text \<open>Unlocking serves the next ticket.\<close>

lemma ticket_queue_leave:
  assumes I: "ticket_queue U qs m ls" and t: "t < length ls" "ls ! t = TkUnlock"
  shows "ticket_queue (Suc U) (tl qs) (m\<lparr>now_serving := now_serving m + 1\<rparr>) (ls[t := TkIdle])"
proof -
  have "t \<in> set qs" using I t by (simp add: ticket_queue_def)
  then obtain i where "i < length qs" "qs ! i = t" by (auto simp: in_set_conv_nth)
  moreover from this I t have "i = 0" by (fastforce simp: ticket_queue_def)
  ultimately obtain rs where qs: "qs = t # rs" by (cases qs) auto
  have at: "ticket_at (Suc U) i (ls[t := TkIdle] ! (rs ! i))" if i: "i < length rs" for i
  proof -
    have at': "ticket_at U (Suc i) (ls ! (rs ! i))"
      using I qs i by (fastforce simp: ticket_queue_def)
    moreover have "rs ! i \<noteq> t" using I qs i by (auto simp: ticket_queue_def)
    ultimately show ?thesis by (cases "ls ! (rs ! i)") auto
  qed
  have old: "\<forall>u < length ls. ticket_old (Suc U) (ls ! u)"
    using I by (auto simp: ticket_queue_def intro: ticket_old_mono)
  then have "\<forall>u < length (ls[t := TkIdle]). ticket_old (Suc U) (ls[t := TkIdle] ! u)"
    by (intro all_nth_update) auto
  moreover have "u \<in> set rs \<longleftrightarrow> u < length ls \<and> ticketed (ls[t := TkIdle] ! u)" for u
    using I qs t unfolding ticket_queue_def
    by (metis distinct.simps(2) nth_list_update_eq nth_list_update_neq set_ConsD
        list.set_intros(2) ticketed.simps(4))
  ultimately show ?thesis
    using I qs at unfolding ticket_queue_def by simp
qed

text \<open>
  One step of the whole: the number of unlocks grows by at most one. The compare-and-exchange of
  \<open>try_lock\<close> needs that fewer than \<open>2 ^ 32\<close> tickets were ever drawn; otherwise an old
  value of \<open>now_serving_\<close> could pass for a new one.
\<close>

lemma ticket_exec_queue:
  assumes I: "ticket_queue U qs m ls" and t: "t < length ls" and n: "length ls < 2 ^ 32"
    and nowrap: "\<And>s. ls ! t = TkTryCas s \<Longrightarrow> U + length qs < 2 ^ 32"
    and ex: "ticket_exec m (ls ! t) = Some (m', l, k)"
  shows "\<exists>U' qs'. U' \<le> Suc U \<and> ticket_queue U' qs' m' (ls[t := l])"
proof -
  have q: "length qs < 2 ^ 32" using ticket_queue_length [OF I] n by simp
  have old: "ticket_old U (ls ! t)" using I t by (simp add: ticket_queue_def)
  have U: "U \<le> Suc U" by simp
  have mem: "t \<in> set qs \<longleftrightarrow> ticketed (ls ! t)" using I t by (simp add: ticket_queue_def)
  note move = ticket_queue_move [OF I t]
  have keep: ?thesis if "ticket_queue U qs' m' (ls[t := l])" for qs'
    using that U by blast
  show ?thesis
  proof (cases "ls ! t")
    case TkFetch
    with ex have l: "l = TkSpin (next_ticket m) 0" and m': "m' = m\<lparr>next_ticket := next_ticket m + 1\<rparr>"
      by simp_all
    from l I have "ticket_at U (length qs) l" by (simp add: ticket_queue_def)
    with ticket_queue_join [OF I t] TkFetch l
    have "ticket_queue U (qs @ [t]) m' (ls[t := l])" unfolding m' by simp
    then show ?thesis by (rule keep)
  next
    case (TkSpin my c)
    show ?thesis
    proof (cases "now_serving m = my")
      case True
      have "i = 0" if "i < length qs" "ticket_at U i (ls ! t)" for i
        using that True I q TkSpin u32_offset_zero [of U i] by (simp add: ticket_queue_def)
      then have "ticket_queue U qs m (ls[t := TkHeld])" using TkSpin by (intro move) auto
      with True TkSpin ex show ?thesis by (intro keep [of qs]) auto
    next
      case False
      with TkSpin ex have "m' = m" "\<exists>c'. l = TkSpin my c'" by auto
      moreover from this TkSpin have "ticket_queue U qs m (ls[t := l])" by (intro move) auto
      ultimately show ?thesis by (intro keep [of qs]) auto
    qed
  next
    case TkTryServing
    have "ticket_old U (TkTryNext (now_serving m))" using I by (auto simp: ticket_queue_def)
    then have "ticket_queue U qs m (ls[t := TkTryNext (now_serving m)])"
      using TkTryServing mem by (intro move) auto
    with TkTryServing ex show ?thesis by (intro keep [of qs]) auto
  next
    case (TkTryNext s)
    then have "ticket_queue U qs m (ls[t := TkIdle])" "ticket_queue U qs m (ls[t := TkTryCas s])"
      using old mem by (auto intro!: move)
    with TkTryNext ex show ?thesis by (intro keep [of qs]) (auto split: if_splits)
  next
    case (TkTryCas s)
    show ?thesis
    proof (cases "next_ticket m = s")
      case False
      then have "ticket_queue U qs m (ls[t := TkIdle])" using TkTryCas mem by (intro move) auto
      with False TkTryCas ex show ?thesis by (intro keep [of qs]) auto
    next
      case True
      from old TkTryCas obtain u where u: "u \<le> U" "s = of_nat u" by auto
      with True I have "(of_nat (u + (U - u + length qs)) :: u32) = of_nat u"
        by (simp add: ticket_queue_def)
      moreover have "U - u + length qs < 2 ^ 32" using nowrap [OF TkTryCas] by simp
      ultimately have "qs = []" using u32_offset_zero by fastforce
      with ticket_queue_join [OF I t, of TkHeld] True TkTryCas ex
      show ?thesis by (intro keep [of "qs @ [t]"]) auto
    qed
  next
    case TkUnlock
    with ticket_queue_leave [OF I t] ex show ?thesis by (auto simp: Let_def)
  qed (use ex in auto)
qed

text \<open>
  Runs within the bound of \<open>try_lock\<close>: either no client calls it, or the run is shorter than
  the counters' range.
\<close>

fun ticket_is_try :: "ticket_op act \<Rightarrow> bool" where
  "ticket_is_try (Invoke _ TkOpTryLock) = True"
| "ticket_is_try _ = False"

definition ticket_no_wrap :: "nat \<Rightarrow> ticket_op act list \<Rightarrow> bool" where
  "ticket_no_wrap n as \<longleftrightarrow> length as + n < 2 ^ 32 \<or> \<not> list_ex ticket_is_try as"

fun ticket_trying :: "ticket_pc \<Rightarrow> bool" where
  "ticket_trying TkTryServing = True"
| "ticket_trying (TkTryNext _) = True"
| "ticket_trying (TkTryCas _) = True"
| "ticket_trying _ = False"

lemma ticket_trying_exec: "ticket_exec m l = Some (m', l', k) \<Longrightarrow> \<not> ticket_trying l \<Longrightarrow> \<not> ticket_trying l'"
  by (cases l) (auto simp: Let_def split: if_splits)

lemma ticket_trying_step:
  assumes "ticket_step a s = Some s'" and "\<not> ticket_is_try a"
    and none: "\<forall>t < length (pcs s). \<not> ticket_trying (pcs s ! t)"
  shows "\<forall>t < length (pcs s'). \<not> ticket_trying (pcs s' ! t)"
  using assms(1) unfolding ticket_step_def
proof (cases rule: sys_stepE)
  case (invoke t op l)
  with assms(2) have "\<not> ticket_trying l" by (auto elim!: ticket_start_cases)
  with invoke none show ?thesis by (auto simp: nth_list_update)
next
  case (exec t ws w l k q)
  with none have "\<not> ticket_trying l" by (auto dest: ticket_trying_exec)
  with exec none show ?thesis by (auto simp: nth_list_update)
qed (use none in auto)

lemma ticket_step_queue:
  assumes I: "ticket_queue U qs (shm s) (pcs s)" and n: "length (pcs s) < 2 ^ 32"
    and nowrap: "U + length qs < 2 ^ 32 \<or> (\<forall>t < length (pcs s). \<not> ticket_trying (pcs s ! t))"
    and stp: "ticket_step a s = Some s'"
  shows "\<exists>U' qs'. U' \<le> Suc U \<and> ticket_queue U' qs' (shm s') (pcs s')"
  using stp unfolding ticket_step_def
proof (cases rule: sys_stepE)
  case (invoke t op l)
  have "ticket_queue U qs (shm s) ((pcs s)[t := l])"
    using invoke I by (intro ticket_queue_move) (auto elim!: ticket_start_cases)
  with invoke have "U \<le> Suc U \<and> ticket_queue U qs (shm s') (pcs s')" by simp
  then show ?thesis by blast
next
  case (exec t ws w l k q)
  with nowrap have "U + length qs < 2 ^ 32" if "pcs s ! t = TkTryCas x" for x
    using that by fastforce
  with exec ticket_exec_queue [OF I _ n] show ?thesis by simp
qed (use I le_SucI [of U U] in fastforce)

lemma ticket_run_queue:
  assumes n: "n < 2 ^ 32"
  shows "run ticket_step as (ticket_init n) = Some s \<Longrightarrow> ticket_no_wrap n as \<Longrightarrow>
    length (pcs s) = n \<and> (\<exists>U qs. U \<le> length as \<and> ticket_queue U qs (shm s) (pcs s)) \<and>
    (list_ex ticket_is_try as \<or> (\<forall>t < n. \<not> ticket_trying (pcs s ! t)))"
proof (induction as arbitrary: s rule: rev_induct)
  case Nil
  then have "s = ticket_init n" by simp
  moreover have "ticket_queue 0 [] (shm (ticket_init n)) (pcs (ticket_init n))"
    by (simp add: ticket_queue_def ticket_init_def)
  ultimately show ?case by (auto simp: ticket_init_def)
next
  case (snoc a as)
  then obtain s0 where s0: "run ticket_step as (ticket_init n) = Some s0" "ticket_step a s0 = Some s"
    by (auto simp: run_append split: option.splits)
  have nw: "ticket_no_wrap n as" using snoc.prems(2) by (auto simp: ticket_no_wrap_def)
  obtain U qs where U: "U \<le> length as" and q: "ticket_queue U qs (shm s0) (pcs s0)"
    and len: "length (pcs s0) = n"
    and calm: "list_ex ticket_is_try as \<or> (\<forall>t < n. \<not> ticket_trying (pcs s0 ! t))"
    using snoc.IH [OF s0(1) nw] by blast
  have "U + length qs < 2 ^ 32 \<or> (\<forall>t < length (pcs s0). \<not> ticket_trying (pcs s0 ! t))"
    using snoc.prems(2) calm U ticket_queue_length [OF q] len by (auto simp: ticket_no_wrap_def)
  with ticket_step_queue [OF q _ _ s0(2)] len n
  obtain U' qs' where "U' \<le> Suc U" "ticket_queue U' qs' (shm s) (pcs s)" by auto
  moreover have len': "length (pcs s) = n"
    using s0(2) len tk.step_length unfolding ticket_step_def by metis
  moreover have "list_ex ticket_is_try (as @ [a]) \<or> (\<forall>t < n. \<not> ticket_trying (pcs s ! t))"
    using calm ticket_trying_step [OF s0(2)] len len' by auto
  ultimately show ?case using U by (metis Suc_le_mono le_trans length_append_singleton)
qed

text \<open>How many tickets are served before \<open>my\<close>: modulo \<open>2 ^ 32\<close>, as the counters.\<close>

definition ticket_ahead :: "ticket_mem \<Rightarrow> u32 \<Rightarrow> nat" where
  "ticket_ahead m my = unat (my - now_serving m)"

lemma ticket_queue_ahead:
  assumes I: "ticket_queue U qs m ls" and n: "length ls < 2 ^ 32"
    and i: "i < length qs" "ls ! (qs ! i) = TkSpin my c"
  shows "ticket_ahead m my = i"
proof -
  have "my - now_serving m = of_nat i" using I i by (fastforce simp: ticket_queue_def)
  moreover have "i < 2 ^ 32" using ticket_queue_length [OF I] n i by simp
  ultimately show ?thesis by (simp add: ticket_ahead_def unat_of_nat)
qed

lemma ticket_queue_holder_first:
  "ticket_queue U qs m ls \<Longrightarrow> t < length ls \<Longrightarrow> ticket_holder (ls ! t) \<Longrightarrow> qs \<noteq> [] \<and> hd qs = t"
proof -
  assume I: "ticket_queue U qs m ls" and t: "t < length ls" "ticket_holder (ls ! t)"
  then have "t \<in> set qs" by (auto simp: ticket_queue_def elim: ticket_holder.elims)
  then obtain i where i: "i < length qs" "qs ! i = t" by (auto simp: in_set_conv_nth)
  with I have "ticket_at U i (ls ! t)" by (auto simp: ticket_queue_def)
  with t have "i = 0" by (cases "ls ! t") auto
  with i show ?thesis by (cases qs) auto
qed

lemma ticket_run_exclusive:
  assumes "run ticket_step as (ticket_init n) = Some s" and "n < 2 ^ 32" and "ticket_no_wrap n as"
    and "i < n" "ticket_holder (pcs s ! i)" and "j < n" "ticket_holder (pcs s ! j)"
  shows "i = j"
proof -
  obtain U qs where "ticket_queue U qs (shm s) (pcs s)" "length (pcs s) = n"
    using ticket_run_queue [OF assms(2,1,3)] by blast
  with assms show ?thesis using ticket_queue_holder_first by metis
qed

text \<open>The step that serves the next ticket.\<close>

fun ticket_unlocks :: "(ticket_mem, ticket_pc) fsys \<Rightarrow> ticket_op act \<Rightarrow> bool" where
  "ticket_unlocks s (Step u _) = (pcs s ! u = TkUnlock)"
| "ticket_unlocks s _ = False"

lemma ticket_step_serving:
  "ticket_step a s = Some s' \<Longrightarrow>
    now_serving (shm s') = now_serving (shm s) + of_bool (ticket_unlocks s a)"
  unfolding ticket_step_def
proof (erule sys_stepE)
  fix t ws w l k q
  assume "a = Step t ws" "ticket_exec (shm s) (pcs s ! t) = Some (w, l, k)"
    "s' = \<lparr>shm = w, waitq = q, pcs = (pcs s)[t := l]\<rparr>"
  then show ?thesis by (cases "pcs s ! t") (auto simp: Let_def split: if_splits)
qed auto

lemma ticket_queue_waiter:
  assumes I: "ticket_queue U qs m ls" and n: "length ls < 2 ^ 32"
    and t: "t < length ls" "ls ! t = TkSpin my c"
  shows "ticket_ahead m my < length ls"
    and "u < length ls \<Longrightarrow> ls ! u = TkUnlock \<Longrightarrow> 0 < ticket_ahead m my"
proof -
  have "t \<in> set qs" using I t by (simp add: ticket_queue_def)
  then obtain i where i: "i < length qs" "qs ! i = t" by (auto simp: in_set_conv_nth)
  then have ah: "ticket_ahead m my = i" using ticket_queue_ahead [OF I n] t by simp
  with i ticket_queue_length [OF I] show "ticket_ahead m my < length ls" by simp
  show "0 < ticket_ahead m my" if "u < length ls" "ls ! u = TkUnlock"
  proof -
    have "qs \<noteq> [] \<and> hd qs = u" using ticket_queue_holder_first [OF I that(1)] that(2) by simp
    with i t that have "i \<noteq> 0" by (cases "i = 0") (auto simp: hd_conv_nth)
    with ah show ?thesis by simp
  qed
qed

section \<open>Properties\<close>

definition spin_demo :: "spin_op act list" where
  "spin_demo = [Invoke 0 SpOpLock, Step 0 [], Invoke 1 SpOpLock, Step 1 [], Step 1 [], Step 1 []]"

lemma spin_demo_reachable:
  "spin_reachable 2 \<lparr>shm = 1, waitq = [], pcs = [SpHeld, SpSpin 4]\<rparr>"
proof (rule run_reachable)
  show "run spin_step spin_demo (spin_init 2) =
      Some \<lparr>shm = 1, waitq = [], pcs = [SpHeld, SpSpin 4]\<rparr>" by code_simp
qed

text \<open>
  The spin lock: in every reachable state the word is 1 exactly if some thread holds the lock
  and 0 otherwise, at most one thread holds it, the owner moves as the abstract lock allows, and a
  spinning thread's backoff is one of the powers of two up to 64.
\<close>
theorem spinlock_correct:
  assumes "spin_reachable n s" and "n < 2 ^ 32"
  shows "shm s = (if owner_of (holds_at spin_holder s) n = None then 0 else 1) \<and>
    cnt spin_holder (pcs s) \<le> 1 \<and>
    reachable lock_spec None (owner_of (holds_at spin_holder s) n) \<and>
    list_all (\<lambda>l. case l of SpSpin b \<Rightarrow> b \<in> set [1, 2, 4, 8, 16, 32, 64] | _ \<Rightarrow> True) (pcs s)"
proof (intro conjI)
  have len: "length (pcs s) = n" by (rule spin_reachable_length [OF assms(1)])
  have I: "spin_inv (shm s) (waitq s) (pcs s)" by (rule spin_invariant [OF assms(1)])
  have "unat (shm s) = (if owner_of (holds_at spin_holder s) n = None then 0 else 1)"
    using I cnt_0_iff [of spin_holder "pcs s"] len
    by (auto simp: spin_inv_def owner_of_None holds_at_def le_Suc_eq)
  then show "shm s = (if owner_of (holds_at spin_holder s) n = None then 0 else 1)"
    by (cases "owner_of (holds_at spin_holder s) n = None") (simp_all add: word_unat_eq_iff)
  show "cnt spin_holder (pcs s) \<le> 1" using I by (simp add: spin_inv_def)
  show "reachable lock_spec None (owner_of (holds_at spin_holder s) n)"
    using assms by (rule spl.refines_spec)
  have "2 ^ k \<in> set [1, 2, 4, 8, 16, 32, 64 :: nat]" if "k \<le> 6" for k
  proof -
    from that have "k = 0 \<or> k = 1 \<or> k = 2 \<or> k = 3 \<or> k = 4 \<or> k = 5 \<or> k = 6" by linarith
    then show ?thesis by (elim disjE) simp_all
  qed
  then show "list_all (\<lambda>l. case l of SpSpin b \<Rightarrow> b \<in> set [1, 2, 4, 8, 16, 32, 64] | _ \<Rightarrow> True) (pcs s)"
    using I unfolding spin_inv_def list_all_length
    by (auto split: spin_pc.splits simp del: list.set dest!: spec)
qed

theorem spinlock_correct_witness:
  "(1 :: u32) = (if owner_of (holds_at spin_holder
      \<lparr>shm = 1 :: u32, waitq = [], pcs = [SpHeld, SpSpin 4]\<rparr>) 2 = None then 0 else 1)"
  using spinlock_correct [OF spin_demo_reachable] by simp

definition ticket_demo :: "ticket_op act list" where
  "ticket_demo = [Invoke 0 TkOpTryLock, Step 0 [], Step 0 [], Step 0 [],
     Invoke 2 TkOpLock, Step 2 [], Invoke 1 TkOpLock, Step 1 [], Step 1 [],
     Invoke 0 TkOpUnlock]"

definition ticket_demo_state :: "(ticket_mem, ticket_pc) fsys" where
  "ticket_demo_state = \<lparr>shm = \<lparr>now_serving = 0, next_ticket = 3\<rparr>, waitq = [],
     pcs = [TkUnlock, TkSpin 2 1, TkSpin 1 0]\<rparr>"

lemma ticket_demo_run: "run ticket_step ticket_demo (ticket_init 3) = Some ticket_demo_state"
  by code_simp

text \<open>
  The ticket lock is exclusive: two different threads are never both between the end of
  \<open>lock\<close> (or a successful \<open>try_lock\<close>) and the end of \<open>unlock\<close>. With clients that only use
  \<open>lock\<close> and \<open>unlock\<close> this holds however often the 32-bit counters wrap around; with
  \<open>try_lock\<close>, whose compare-and-exchange trusts an earlier read of \<open>now_serving_\<close>, in runs of
  fewer than \<open>2 ^ 32\<close> steps.
\<close>
theorem ticketlock_mutual_exclusion:
  assumes "run ticket_step as (ticket_init n) = Some s" and "n < 2 ^ 32" and "ticket_no_wrap n as"
    and "i < n" and "j < n" and "i \<noteq> j"
  shows "\<not> (ticket_holder (pcs s ! i) \<and> ticket_holder (pcs s ! j))"
  using assms ticket_run_exclusive by blast

theorem ticketlock_mutual_exclusion_witness:
  "\<not> (ticket_holder (pcs ticket_demo_state ! 0) \<and> ticket_holder (pcs ticket_demo_state ! 1))"
  using ticketlock_mutual_exclusion [OF ticket_demo_run, of 0 1]
  by (simp add: ticket_no_wrap_def ticket_demo_def)

text \<open>
  C26. The ticket lock is first-in first-out, with bounded waiting: a thread that has drawn a
  ticket has fewer than \<open>n\<close> tickets before it, every \<open>unlock\<close> of another thread takes exactly
  one of them away, and no other step of the system (a newcomer, a \<open>try_lock\<close>) changes their
  number. So nobody overtakes it, and its turn comes after at most \<open>n - 1\<close> unlocks.
\<close>
theorem ticketlock_fifo:
  assumes run: "run ticket_step as (ticket_init n) = Some s" and n: "n < 2 ^ 32"
    and nw: "ticket_no_wrap n as" and stp: "ticket_step a s = Some s'"
    and t: "t < n" and my: "pcs s ! t = TkSpin my c"
  shows "ticket_ahead (shm s) my < n \<and>
    ticket_ahead (shm s') my + of_bool (ticket_unlocks s a) = ticket_ahead (shm s) my"
proof -
  obtain U qs where I: "ticket_queue U qs (shm s) (pcs s)" and len: "length (pcs s) = n"
    using ticket_run_queue [OF n run nw] by blast
  note wait = ticket_queue_waiter [OF I _ _ my, unfolded len, OF n t]
  show ?thesis
  proof (cases "ticket_unlocks s a")
    case False
    with ticket_step_serving [OF stp] wait(1) show ?thesis by (simp add: ticket_ahead_def)
  next
    case True
    then obtain u ws where a: "a = Step u ws" "pcs s ! u = TkUnlock" by (cases a) auto
    with stp len have "u < n" by (auto simp: ticket_step_def sys_step_def awake_def split: if_splits)
    with a wait(2) have "0 < unat (my - now_serving (shm s))" by (simp add: ticket_ahead_def)
    then have "unat (my - now_serving (shm s) - 1) = unat (my - now_serving (shm s)) - 1"
      using unat_sub_small [of 1 "my - now_serving (shm s)"] by simp
    with True ticket_step_serving [OF stp] wait(1) \<open>0 < unat (my - now_serving (shm s))\<close>
    show ?thesis by (simp add: ticket_ahead_def algebra_simps)
  qed
qed

theorem ticketlock_fifo_witness:
  "ticket_ahead (shm ticket_demo_state) 2 < 3 \<and>
    (\<exists>s'. ticket_step (Step 0 []) ticket_demo_state = Some s' \<and>
      ticket_ahead (shm s') 2 + 1 = ticket_ahead (shm ticket_demo_state) 2)"
proof -
  have stp: "ticket_step (Step 0 []) ticket_demo_state =
      Some \<lparr>shm = \<lparr>now_serving = 1, next_ticket = 3\<rparr>, waitq = [],
        pcs = [TkIdle, TkSpin 2 1, TkSpin 1 0]\<rparr>" by code_simp
  have nw: "ticket_no_wrap 3 ticket_demo" by (simp add: ticket_no_wrap_def ticket_demo_def)
  have my: "pcs ticket_demo_state ! 1 = TkSpin 2 1" by (simp add: ticket_demo_state_def)
  have ul: "ticket_unlocks ticket_demo_state (Step 0 [])" by (simp add: ticket_demo_state_def)
  from ticketlock_fifo [OF ticket_demo_run _ nw stp _ my] ul stp show ?thesis by simp
qed

end
