(* ===== verification/SharedMutex.thy ===== *)
theory SharedMutex
  imports Mutex
begin

text \<open>
  \<^verbatim>\<open>psync_shared.h\<close>: the 4-byte reader/writer lock. The word is
  writer bit + 2 * waiting writers + 65536 * readers. Shown: readers and writers exclude each
  other, the layout of the word, no lost wake-up, writer preference and the refinement of an
  abstract reader/writer lock, event by event, for up to 32767 threads (the width of the waiter field). In
  the interleaving a thread holds the lock once at a time; that a thread may read repeatedly is shown of the
  functions run alone.
\<close>

section \<open>The word and the program points\<close>

definition WRITER_LOCKED :: u32 where "WRITER_LOCKED = 0x00000001"
definition WRITER_WAITING_INC :: u32 where "WRITER_WAITING_INC = 0x00000002"
definition WRITER_WAITING_MASK :: u32 where "WRITER_WAITING_MASK = 0x0000FFFE"
definition READER_SHIFT :: nat where "READER_SHIFT = 16"
definition READER_INCREMENT :: u32 where "READER_INCREMENT = 0x00010000"
definition READER_MASK :: u32 where "READER_MASK = 0xFFFF0000"
definition SH_UNLOCKED :: u32 where "SH_UNLOCKED = 0"

lemmas shared_consts = WRITER_LOCKED_def WRITER_WAITING_INC_def WRITER_WAITING_MASK_def
  READER_SHIFT_def READER_INCREMENT_def READER_MASK_def SH_UNLOCKED_def

text \<open>
  \<open>W...\<close> are the points of the exclusive side, \<open>R...\<close> those of the shared side; the
  arguments are the locals \<open>spin_count\<close>, \<open>backoff\<close> and \<open>current\<close>.
\<close>

datatype shared_pc =
    ShIdle
  | WLockFast
  | WTryLock
  | WRegister
  | WLoad nat nat
  | WCas nat nat u32
  | WWait u32
  | WAsleep
  | WHeld
  | WUnlAnd
  | WUnlWake
  | RLoad
  | RLoop u32
  | RTryLoad
  | RTryLoop u32
  | RcLoad nat nat
  | RcCas nat nat u32
  | RcWait u32
  | RcAsleep
  | RHeld
  | RUnlSub
  | RUnlWake

datatype shared_op = ShLock | ShTryLock | ShUnlock | ShLockShared | ShTryLockShared | ShUnlockShared

fun shared_start :: "shared_op \<Rightarrow> shared_pc \<Rightarrow> shared_pc option" where
  "shared_start ShLock l = (if l = ShIdle then Some WLockFast else None)"
| "shared_start ShTryLock l = (if l = ShIdle then Some WTryLock else None)"
| "shared_start ShUnlock l = (if l = WHeld then Some WUnlAnd else None)"
| "shared_start ShLockShared l = (if l = ShIdle then Some RLoad else None)"
| "shared_start ShTryLockShared l = (if l = ShIdle then Some RTryLoad else None)"
| "shared_start ShUnlockShared l = (if l = RHeld then Some RUnlSub else None)"

definition next_backoff :: "nat \<Rightarrow> nat" where
  "next_backoff backoff =
     (if BACKOFF_MAX < backoff * BACKOFF_MULTIPLIER then BACKOFF_MAX
      else backoff * BACKOFF_MULTIPLIER)"

fun shared_exec :: "u32 \<Rightarrow> shared_pc \<Rightarrow> (u32 \<times> shared_pc \<times> keff) option" where
  "shared_exec w ShIdle = None"
| "shared_exec w WHeld = None"
| "shared_exec w RHeld = None"
| "shared_exec w WLockFast =
     (case atomic_compare_exchange w SH_UNLOCKED WRITER_LOCKED MO_acquire MO_relaxed of
        (True, w', _) \<Rightarrow> Some (w', WHeld, KNone)
      | (False, w', _) \<Rightarrow> Some (w', WRegister, KNone))"
| "shared_exec w WTryLock =
     (case atomic_compare_exchange w SH_UNLOCKED WRITER_LOCKED MO_acquire MO_relaxed of
        (True, w', _) \<Rightarrow> Some (w', WHeld, KNone)
      | (False, w', _) \<Rightarrow> Some (w', ShIdle, KNone))"
| "shared_exec w WRegister =
     (let (_, w') = atomic_fetch_add w WRITER_WAITING_INC MO_relaxed
      in Some (w', WLoad 0 SPIN_INITIAL, KNone))"
| "shared_exec w (WLoad spin_count backoff) =
     (let current = atomic_load w MO_relaxed
      in if current AND (WRITER_LOCKED OR READER_MASK) = 0
         then Some (w, WCas spin_count backoff current, KNone)
         else if spin_count < FUTEX_THRESHOLD
         then Some (w, WLoad (spin_count + 1) (next_backoff backoff), KNone)
         else Some (w, WWait current, KNone))"
| "shared_exec w (WCas spin_count backoff current) =
     (let new_state = (current - WRITER_WAITING_INC) OR WRITER_LOCKED
      in case atomic_compare_exchange w current new_state MO_acquire MO_relaxed of
        (True, w', _) \<Rightarrow> Some (w', WHeld, KNone)
      | (False, w', _) \<Rightarrow> Some (w', WLoad spin_count backoff, KNone))"
| "shared_exec w (WWait current) =
     (if w = current then Some (w, WAsleep, KSleep) else Some (w, WLoad 0 SPIN_INITIAL, KNone))"
| "shared_exec w WAsleep = Some (w, WLoad 0 SPIN_INITIAL, KNone)"
| "shared_exec w WUnlAnd =
     (let (_, w') = atomic_fetch_and w (NOT WRITER_LOCKED) MO_release
      in Some (w', WUnlWake, KNone))"
| "shared_exec w WUnlWake = Some (w, ShIdle, KWakeAll)"
| "shared_exec w RLoad = Some (w, RLoop (atomic_load w MO_relaxed), KNone)"
| "shared_exec w (RLoop current) =
     (if current AND (WRITER_LOCKED OR WRITER_WAITING_MASK) \<noteq> 0
      then Some (w, RcLoad 0 SPIN_INITIAL, KNone)
      else let new_state = current + READER_INCREMENT
        in case atomic_compare_exchange w current new_state MO_acquire MO_relaxed of
          (True, w', _) \<Rightarrow> Some (w', RHeld, KNone)
        | (False, w', expected) \<Rightarrow> Some (w', RLoop expected, KNone))"
| "shared_exec w RTryLoad = Some (w, RTryLoop (atomic_load w MO_relaxed), KNone)"
| "shared_exec w (RTryLoop current) =
     (if current AND (WRITER_LOCKED OR WRITER_WAITING_MASK) \<noteq> 0
      then Some (w, ShIdle, KNone)
      else let new_state = current + READER_INCREMENT
        in case atomic_compare_exchange w current new_state MO_acquire MO_relaxed of
          (True, w', _) \<Rightarrow> Some (w', RHeld, KNone)
        | (False, w', expected) \<Rightarrow> Some (w', RTryLoop expected, KNone))"
| "shared_exec w (RcLoad spin_count backoff) =
     (let current = atomic_load w MO_relaxed
      in if current AND (WRITER_LOCKED OR WRITER_WAITING_MASK) = 0
         then Some (w, RcCas spin_count backoff current, KNone)
         else if spin_count < FUTEX_THRESHOLD
         then Some (w, RcLoad (spin_count + 1) (next_backoff backoff), KNone)
         else Some (w, RcWait current, KNone))"
| "shared_exec w (RcCas spin_count backoff current) =
     (let new_state = current + READER_INCREMENT
      in case atomic_compare_exchange w current new_state MO_acquire MO_relaxed of
        (True, w', _) \<Rightarrow> Some (w', RHeld, KNone)
      | (False, w', _) \<Rightarrow> Some (w', RcLoad spin_count backoff, KNone))"
| "shared_exec w (RcWait current) =
     (if w = current then Some (w, RcAsleep, KSleep) else Some (w, RcLoad 0 SPIN_INITIAL, KNone))"
| "shared_exec w RcAsleep = Some (w, RcLoad 0 SPIN_INITIAL, KNone)"
| "shared_exec w RUnlSub =
     (let (prev, w') = atomic_fetch_sub w READER_INCREMENT MO_release;
          reader_count = drop_bit READER_SHIFT (prev AND READER_MASK) - 1
      in if reader_count = 0 \<and> prev AND WRITER_WAITING_MASK \<noteq> 0
         then Some (w', RUnlWake, KNone)
         else Some (w', ShIdle, KNone))"
| "shared_exec w RUnlWake = Some (w, ShIdle, KWakeAll)"

fun shared_asleep :: "shared_pc \<Rightarrow> bool" where
  "shared_asleep WAsleep = True"
| "shared_asleep RcAsleep = True"
| "shared_asleep _ = False"

definition shared_step :: "shared_op act \<Rightarrow> (u32, shared_pc) fsys \<Rightarrow> (u32, shared_pc) fsys option" where
  "shared_step = sys_step shared_exec shared_start"

definition shared_init :: "nat \<Rightarrow> (u32, shared_pc) fsys" where
  "shared_init n = sys_init SH_UNLOCKED ShIdle n"

abbreviation shared_reachable :: "nat \<Rightarrow> (u32, shared_pc) fsys \<Rightarrow> bool" where
  "shared_reachable n \<equiv> reachable shared_step (shared_init n)"

lemma shared_start_cases:
  assumes "shared_start op l = Some l'"
  obtains "l = ShIdle" "l' \<in> {WLockFast, WTryLock, RLoad, RTryLoad}"
  | "l = WHeld" "l' = WUnlAnd" | "l = RHeld" "l' = RUnlSub"
  using assms by (cases op) (auto split: if_splits)

lemma shared_sleep_point: "shared_exec w l = Some (w', l', k) \<Longrightarrow> shared_asleep l' \<longleftrightarrow> k = KSleep"
  by (cases l) (auto simp: Let_def KWakeAll_eq split: if_splits)

interpretation sh: futex_client shared_exec shared_start shared_asleep ShIdle
  by unfold_locales (auto elim!: shared_start_cases dest: shared_sleep_point)

section \<open>The masks of the word\<close>

lemma minus_mod_0_iff: "0 < d \<Longrightarrow> (a - a mod d = 0) = (a < d)" for a d :: nat
  by (simp only: minus_mod_eq_mult_div mult_eq_0_iff div_eq_0_iff) simp

lemma shared_low_mask: "unat (c AND 0xFFFF) = unat c mod 65536" for c :: u32
proof -
  have m: "mask 16 = (0xFFFF :: u32)" by (simp add: mask_eq_exp_minus_1)
  from unat_and_mask [of c 16] show ?thesis unfolding m by simp
qed

lemma shared_high_mask: "unat (c AND READER_MASK) = unat c - unat c mod 65536"
proof -
  have m: "NOT (mask 16) = READER_MASK" by (simp add: mask_eq_exp_minus_1 READER_MASK_def)
  from unat_and_not_mask [of c 16] show ?thesis unfolding m by simp
qed

lemma shared_reader_mask:
  "(c AND (WRITER_LOCKED OR WRITER_WAITING_MASK) = 0) = (unat c mod 65536 = 0)"
  using shared_low_mask [of c] by (simp add: shared_consts word_unat_eq_iff [of _ 0])

lemma shared_writer_mask:
  "(c AND (WRITER_LOCKED OR READER_MASK) = 0) = (even (unat c) \<and> unat c < 65536)"
proof -
  have "(c AND (WRITER_LOCKED OR READER_MASK) = 0) = (c AND 1 = 0 \<and> c AND READER_MASK = 0)"
    by (simp only: bit.conj_disj_distrib or_eq_0_iff WRITER_LOCKED_def)
  also have "(c AND READER_MASK = 0) = (unat c - unat c mod 65536 = 0)"
    by (simp only: word_unat_eq_iff [of _ 0] shared_high_mask unat_0)
  also have "(unat c - unat c mod 65536 = 0) = (unat c < 65536)" by (rule minus_mod_0_iff) simp
  finally show ?thesis by (simp only: word_and_1_eq_0)
qed

lemma shared_waiting_mask: "(c AND WRITER_WAITING_MASK = 0) = (unat c mod 65536 < 2)"
proof -
  have m: "WRITER_WAITING_MASK = 0xFFFF AND NOT 1" by (simp add: shared_consts)
  have "unat ((c AND 0xFFFF) AND NOT 1) = unat c mod 65536 - unat c mod 65536 mod 2"
    by (simp only: unat_and_not_1 shared_low_mask)
  then have "unat (c AND WRITER_WAITING_MASK) = unat c mod 65536 - unat c mod 65536 mod 2"
    by (simp only: m and.assoc)
  then have "(c AND WRITER_WAITING_MASK = 0) = (unat c mod 65536 - unat c mod 65536 mod 2 = 0)"
    by (simp only: word_unat_eq_iff [of _ 0] unat_0)
  then show ?thesis by (simp only: minus_mod_0_iff zero_less_numeral)
qed

lemma shared_last_reader:
  "(drop_bit READER_SHIFT (c AND READER_MASK) - 1 = 0) = (unat c div 65536 = 1)"
proof -
  have "unat (drop_bit READER_SHIFT (c AND READER_MASK)) = (unat c - unat c mod 65536) div 65536"
    by (simp only: READER_SHIFT_def unat_drop_bit_eq shared_high_mask)
       (simp add: drop_bit_eq_div)
  also have "\<dots> = unat c div 65536" by (simp add: minus_mod_eq_mult_div)
  finally have "unat (drop_bit READER_SHIFT (c AND READER_MASK)) = unat c div 65536" .
  then show ?thesis by (metis eq_iff_diff_eq_0 unat_1 word_unat_eq_iff)
qed

lemmas shared_masks = shared_reader_mask shared_writer_mask shared_waiting_mask shared_last_reader

section \<open>The invariant\<close>

fun writer_holds :: "shared_pc \<Rightarrow> bool" where
  "writer_holds WHeld = True"
| "writer_holds WUnlAnd = True"
| "writer_holds _ = False"

fun writer_waits :: "shared_pc \<Rightarrow> bool" where
  "writer_waits (WLoad _ _) = True"
| "writer_waits (WCas _ _ _) = True"
| "writer_waits (WWait _) = True"
| "writer_waits WAsleep = True"
| "writer_waits _ = False"

fun reader_holds :: "shared_pc \<Rightarrow> bool" where
  "reader_holds RHeld = True"
| "reader_holds RUnlSub = True"
| "reader_holds _ = False"

text \<open>The points of \<open>lock_shared_contended\<close>; waiting readers are not counted in the word.\<close>

fun reader_waits :: "shared_pc \<Rightarrow> bool" where
  "reader_waits (RcLoad _ _) = True"
| "reader_waits (RcCas _ _ _) = True"
| "reader_waits (RcWait _) = True"
| "reader_waits RcAsleep = True"
| "reader_waits _ = False"

fun shared_local :: "shared_pc \<Rightarrow> bool" where
  "shared_local (WCas _ _ c) = (even (unat c) \<and> unat c < 65536)"
| "shared_local (WWait c) = (odd (unat c) \<or> 65536 \<le> unat c)"
| "shared_local (RcCas _ _ c) = (unat c mod 65536 = 0)"
| "shared_local (RcWait c) = (unat c mod 65536 \<noteq> 0)"
| "shared_local _ = True"

fun shared_waker :: "shared_pc \<Rightarrow> bool" where
  "shared_waker WUnlWake = True"
| "shared_waker RUnlWake = True"
| "shared_waker _ = False"

text \<open>The value of the word that justifies staying asleep.\<close>

fun shared_blocked :: "nat \<Rightarrow> shared_pc \<Rightarrow> bool" where
  "shared_blocked v WAsleep = (odd v \<or> 65536 \<le> v)"
| "shared_blocked v RcAsleep = (v mod 65536 \<noteq> 0)"
| "shared_blocked v _ = True"

definition shared_word :: "u32 \<Rightarrow> shared_pc list \<Rightarrow> bool" where
  "shared_word w ls \<longleftrightarrow>
     unat w = 65536 * cnt reader_holds ls + (2 * cnt writer_waits ls + cnt writer_holds ls) \<and>
     cnt writer_holds ls \<le> 1 \<and> (cnt writer_holds ls = 0 \<or> cnt reader_holds ls = 0)"

definition shared_attended :: "u32 \<Rightarrow> tid list \<Rightarrow> shared_pc list \<Rightarrow> bool" where
  "shared_attended w q ls \<longleftrightarrow>
     (\<forall>u \<in> set q. shared_blocked (unat w) (ls ! u)) \<or> (\<exists>v < length ls. shared_waker (ls ! v))"

definition shared_inv :: "u32 \<Rightarrow> tid list \<Rightarrow> shared_pc list \<Rightarrow> bool" where
  "shared_inv w q ls \<longleftrightarrow> shared_word w ls \<and> (\<forall>t < length ls. shared_local (ls ! t)) \<and>
     shared_attended w q ls"

text \<open>The three fields of the word, for up to 32767 threads.\<close>

lemma shared_word_fields:
  assumes "shared_word w ls" and "length ls < 2 ^ 15"
  shows "unat w mod 65536 = 2 * cnt writer_waits ls + cnt writer_holds ls"
    and "unat w div 65536 = cnt reader_holds ls"
    and "even (unat w) \<longleftrightarrow> cnt writer_holds ls = 0"
    and "unat w < 65536 \<longleftrightarrow> cnt reader_holds ls = 0"
proof -
  have w: "unat w = 65536 * cnt reader_holds ls + (2 * cnt writer_waits ls + cnt writer_holds ls)"
    and h: "cnt writer_holds ls \<le> 1" using assms(1) by (simp_all add: shared_word_def)
  have low: "2 * cnt writer_waits ls + cnt writer_holds ls < 65536"
    using assms(2) cnt_le_length [of writer_waits ls] h by simp
  show "unat w mod 65536 = 2 * cnt writer_waits ls + cnt writer_holds ls"
    unfolding w using low by (simp only: mod_mult_self4 mod_less)
  show "unat w div 65536 = cnt reader_holds ls"
    unfolding w using low by (simp add: div_mult_self4)
  show "even (unat w) \<longleftrightarrow> cnt writer_holds ls = 0"
    unfolding w using h by (auto simp: le_Suc_eq)
  show "unat w < 65536 \<longleftrightarrow> cnt reader_holds ls = 0"
    unfolding w using low by auto
qed

lemma shared_word_exec:
  assumes word: "shared_word w ls" and t: "t < length ls" and n: "length ls < 2 ^ 15"
    and loc: "shared_local (ls ! t)" and ex: "shared_exec w (ls ! t) = Some (w', l, k)"
  shows "shared_word w' (ls[t := l])"
proof -
  note cs = cnt_update [OF t, of writer_waits l] cnt_update [OF t, of writer_holds l]
    cnt_update [OF t, of reader_holds l]
  have one: "P (ls ! t) \<Longrightarrow> 1 \<le> cnt P ls" for P using cnt_ge1 [OF t] by blast
  note fields = shared_word_fields [OF word n]
  have w: "unat w = 65536 * cnt reader_holds ls + (2 * cnt writer_waits ls + cnt writer_holds ls)"
    and h: "cnt writer_holds ls \<le> 1" "cnt writer_holds ls = 0 \<or> cnt reader_holds ls = 0"
    using word by (simp_all add: shared_word_def)
  have small: "unat w + 65536 < 2 ^ 32" "unat w + 2 < 2 ^ 32"
    using w h(1) n cnt_le_length [of writer_waits ls] cnt_le_length [of reader_holds ls] by auto
  have enter: "shared_word (w + 65536) (ls[t := l])"
    if "unat w mod 65536 = 0" "l = RHeld" "\<not> reader_holds (ls ! t)" "\<not> writer_waits (ls ! t)"
      "\<not> writer_holds (ls ! t)"
    using that fields w h cs small(1) by (simp add: shared_word_def unat_add_small)
  show ?thesis
  proof (cases "ls ! t")
    case (WCas sc bo c)
    show ?thesis
    proof (cases "w = c")
      case True
      have c: "even (unat c)" "unat c < 65536" using loc WCas by simp_all
      with fields True have free: "cnt writer_holds ls = 0" "cnt reader_holds ls = 0" by simp_all
      have two: "2 \<le> unat c" using one [of writer_waits] WCas w True by simp
      then have minus: "unat (c - 2) = unat c - 2" by (simp add: unat_sub_small)
      then have "even (unat (c - 2))" using c two by simp
      then have "unat ((c - 2) OR 1) = unat c - 1" using minus two by (simp add: unat_or_1)
      with ex WCas True w free cs two show ?thesis
        by (auto simp: shared_word_def shared_consts Let_def)
    qed (use ex WCas w h cs in \<open>auto simp: shared_word_def\<close>)
  next
    case WRegister
    with ex w h cs small show ?thesis
      by (auto simp: shared_word_def shared_consts unat_add_small)
  next
    case WUnlAnd
    then have "cnt writer_holds ls = 1" using one [of writer_holds] h by simp
    with ex WUnlAnd w h cs fields show ?thesis
      by (auto simp: shared_word_def shared_consts unat_and_minus_2 mod_2_eq_odd)
  next
    case RUnlSub
    then have "1 \<le> cnt reader_holds ls" by (intro one) simp
    moreover from this w have "unat (w - 65536) = unat w - 65536" by (simp add: unat_sub_small)
    ultimately show ?thesis using ex RUnlSub w h cs
      by (auto simp: shared_word_def shared_consts Let_def split: if_splits)
  next
    case (RLoop c)
    with ex enter w h cs show ?thesis
      by (auto simp: shared_reader_mask shared_word_def READER_INCREMENT_def Let_def split: if_splits)
  next
    case (RTryLoop c)
    with ex enter w h cs show ?thesis
      by (auto simp: shared_reader_mask shared_word_def READER_INCREMENT_def Let_def split: if_splits)
  next
    case (RcCas sc bo c)
    with ex enter loc w h cs show ?thesis
      by (auto simp: shared_word_def shared_consts Let_def split: if_splits)
  qed (use ex w h cs in \<open>auto simp: shared_word_def shared_consts Let_def split: if_splits\<close>)
qed

lemma shared_local_exec:
  "shared_local l \<Longrightarrow> shared_exec w l = Some (w', l', k) \<Longrightarrow> shared_local l'"
  by (cases l) (auto simp: Let_def shared_reader_mask shared_writer_mask split: if_splits)

text \<open>
  A change of the word leaves the sleepers blocked, or the thread that made it is on its way to
  wake them all.
\<close>

lemma shared_attended_update:
  assumes att: "shared_attended w q ls" and t: "t < length ls" "t \<notin> set q"
    and waker: "shared_waker (ls ! t) \<Longrightarrow> shared_waker l"
    and blocked: "\<And>u. u \<in> set q \<Longrightarrow> shared_blocked (unat w) (ls ! u) \<Longrightarrow>
      shared_blocked (unat w') (ls ! u) \<or> shared_waker l"
  shows "shared_attended w' q (ls[t := l])"
proof (cases "shared_waker l")
  case True
  with t show ?thesis by (auto simp: shared_attended_def intro!: disjI2 exI [of _ t])
next
  case False
  with att waker blocked t show ?thesis
    unfolding shared_attended_def by (metis length_list_update nth_list_update_neq)
qed

lemma shared_blocked_mono: "shared_blocked v l \<Longrightarrow> odd v \<longrightarrow> odd v' \<or> 65536 \<le> v' \<Longrightarrow>
    65536 \<le> v \<longrightarrow> odd v' \<or> 65536 \<le> v' \<Longrightarrow> v mod 65536 \<noteq> 0 \<longrightarrow> v' mod 65536 \<noteq> 0 \<Longrightarrow>
    shared_blocked v' l"
  by (cases l) auto

lemma shared_blocked_odd: "odd v \<Longrightarrow> shared_blocked v l"
proof -
  assume "odd v"
  moreover have "v mod 65536 mod 2 = v mod 2" by (rule mod_mod_cancel) simp
  ultimately have "v mod 65536 \<noteq> 0" by (auto simp: odd_iff_mod_2_eq_one)
  with \<open>odd v\<close> show ?thesis by (cases l) auto
qed

text \<open>Entering as a reader adds to the readers only; the last reader out wakes if a writer waits.\<close>

lemma shared_enter_blocked:
  fixes w :: u32
  assumes "unat w + 65536 < 2 ^ 32" and "shared_blocked (unat w) l"
  shows "shared_blocked (unat (w + 65536)) l"
proof -
  have "unat (w + 65536) = unat w + 65536" using assms(1) by (simp add: unat_add_small)
  with assms(2) show ?thesis by (cases l) auto
qed

lemma shared_leave_blocked:
  fixes w :: u32
  assumes "65536 \<le> unat w" and "shared_blocked (unat w) l"
    and "unat w div 65536 = 1 \<Longrightarrow> l \<noteq> WAsleep"
  shows "shared_blocked (unat (w - 65536)) l"
proof -
  have w: "unat (w - 65536) = unat w - 65536" using assms(1) by (simp add: unat_sub_small)
  have "(unat w - 65536) mod 65536 = unat w mod 65536" using assms(1) by (simp add: mod_if)
  moreover have "unat w div 65536 \<noteq> 1 \<Longrightarrow> 65536 \<le> unat w - 65536"
    using assms(1) by (simp add: div_nat_eqI leI)
  ultimately show ?thesis using w assms by (cases l) auto
qed

lemma shared_unlock_exec: "shared_exec w RUnlSub = Some (w - 65536,
    if unat w div 65536 = 1 \<and> \<not> unat w mod 65536 < 2 then RUnlWake else ShIdle, KNone)"
proof -
  have "shared_exec w RUnlSub =
      (if drop_bit READER_SHIFT (w AND READER_MASK) - 1 = 0 \<and> w AND WRITER_WAITING_MASK \<noteq> 0
       then Some (w - 65536, RUnlWake, KNone) else Some (w - 65536, ShIdle, KNone))"
    by (simp only: shared_exec.simps Let_def atomic_fetch_sub_def split_conv READER_INCREMENT_def)
  then show ?thesis by (simp only: shared_last_reader shared_waiting_mask) simp
qed

lemma shared_register_blocked:
  assumes "shared_word (w + 2) ls" and "length ls < 2 ^ 15" and "t < length ls" "writer_waits (ls ! t)"
    and "unat w + 2 < 2 ^ 32" and "shared_blocked (unat w) l"
  shows "shared_blocked (unat (w + 2)) l"
proof -
  have "1 \<le> cnt writer_waits ls" using assms(3,4) by (rule cnt_ge1)
  with shared_word_fields(1) [OF assms(1,2)] have "unat (w + 2) mod 65536 \<noteq> 0" by simp
  moreover have "unat (w + 2) = unat w + 2" using assms(5) by (simp add: unat_add_small)
  ultimately show ?thesis using assms(6) by (cases l) auto
qed

lemma shared_attended_exec:
  assumes inv: "shared_inv w q ls" and wf: "sh.queue_wf \<lparr>shm = w, waitq = q, pcs = ls\<rparr>"
    and t: "t < length ls" "t \<notin> set q" and n: "length ls < 2 ^ 15"
    and ex: "shared_exec w (ls ! t) = Some (w', l, k)" and kr: "kernel k t ws q = Some q'"
  shows "shared_attended w' q' (ls[t := l])"
proof -
  have word: "shared_word w ls" and loc: "shared_local (ls ! t)" and att: "shared_attended w q ls"
    using inv t by (simp_all add: shared_inv_def)
  have word': "shared_word w' (ls[t := l])" by (rule shared_word_exec [OF word t(1) n loc ex])
  note fields = shared_word_fields [OF word n]
  have small: "unat w + 65536 < 2 ^ 32" "unat w + 2 < 2 ^ 32"
    using word n cnt_le_length [of writer_waits ls] cnt_le_length [of reader_holds ls]
    by (auto simp: shared_word_def)
  note upd = shared_attended_update [OF att t, of l w']
  have move: ?thesis if "k = KNone" "\<not> shared_waker (ls ! t)"
    "\<And>u. u \<in> set q \<Longrightarrow> shared_blocked (unat w) (ls ! u) \<Longrightarrow>
       shared_blocked (unat w') (ls ! u) \<or> shared_waker l"
  proof -
    have "shared_attended w' q (ls[t := l])" by (rule upd) (use that in blast)+
    with that(1) kr show ?thesis by simp
  qed
  have same: ?thesis if "w' = w" "k = KNone" "\<not> shared_waker (ls ! t)"
    by (rule move) (use that in auto)
  have enter: ?thesis if "w' = w + 65536" "k = KNone" "\<not> shared_waker (ls ! t)"
    by (rule move) (use that small(1) shared_enter_blocked in auto)
  have taken: ?thesis if "writer_holds l" "k = KNone" "\<not> shared_waker (ls ! t)"
  proof -
    have "odd (unat w')"
      using shared_word_fields(3) [OF word'] n t that(1) cnt_ge1 [of t "ls[t := l]" writer_holds] by simp
    then show ?thesis by (intro move) (use that shared_blocked_odd in auto)
  qed
  have moved: ?thesis if "k = KNone" "\<not> shared_waker (ls ! t)"
    "w' = w \<or> w' = w + 65536 \<or> writer_holds l"
    using that same enter taken by blast
  have wake: ?thesis if "k = KWakeAll"
  proof -
    have "q' = []" using sh.wake_all_queue [OF wf, of t ws q'] that kr n by simp
    then show ?thesis by (simp add: shared_attended_def)
  qed
  have sleep: ?thesis if "k = KSleep" "w' = w" "shared_blocked (unat w) l" "\<not> shared_waker (ls ! t)"
  proof -
    have "shared_attended w' q (ls[t := l])" by (rule upd) (use that in auto)
    with that kr t show ?thesis by (auto simp: shared_attended_def)
  qed
  show ?thesis
  proof (cases "ls ! t")
    case WRegister
    with ex have l: "w' = w + 2" "l = WLoad 0 SPIN_INITIAL" "k = KNone" by (auto simp: shared_consts)
    show ?thesis
    proof (rule move)
      fix u assume "shared_blocked (unat w) (ls ! u)"
      then have "shared_blocked (unat (w + 2)) (ls ! u)"
        using shared_register_blocked [of w "ls[t := l]" t "ls ! u"] word' n t small(2) l by simp
      with l show "shared_blocked (unat w') (ls ! u) \<or> shared_waker l" by simp
    qed (use l WRegister in auto)
  next
    case WUnlAnd
    with ex show ?thesis by (intro move) auto
  next
    case RUnlSub
    have wasleep: "unat w mod 65536 \<ge> 2" if "u \<in> set q" "ls ! u = WAsleep" for u
      using cnt_ge1 [of u ls writer_waits] that wf fields(1) by (auto simp: sh.queue_wf_def)
    have "65536 \<le> unat w" using cnt_ge1 [OF t(1), of reader_holds] RUnlSub fields(4) by auto
    note big = this
    from RUnlSub ex have l: "w' = w - 65536" "k = KNone"
      "l = (if unat w div 65536 = 1 \<and> \<not> unat w mod 65536 < 2 then RUnlWake else ShIdle)"
      by (simp_all only: shared_unlock_exec option.inject prod.inject)
    show ?thesis
    proof (rule move)
      fix u assume u: "u \<in> set q" "shared_blocked (unat w) (ls ! u)"
      have "l = RUnlWake" if "unat w div 65536 = 1" "ls ! u = WAsleep"
        using l(3) that wasleep [OF u(1)] by simp
      with shared_leave_blocked [OF big u(2)] l(1)
      show "shared_blocked (unat w') (ls ! u) \<or> shared_waker l" by fastforce
    qed (use l(2) RUnlSub in auto)
  next
    case WUnlWake
    with ex show ?thesis by (intro wake) auto
  next
    case RUnlWake
    with ex show ?thesis by (intro wake) auto
  next
    case (WWait c)
    then show ?thesis using ex loc
      by (cases "w = c") (rule sleep; auto; fail | rule same; auto; fail)+
  next
    case (RcWait c)
    then show ?thesis using ex loc
      by (cases "w = c") (rule sleep; auto; fail | rule same; auto; fail)+
  qed (rule moved; use ex in \<open>auto simp: Let_def READER_INCREMENT_def split: if_splits\<close>)+
qed

lemma shared_invariant:
  assumes reach: "shared_reachable n s" and n: "n < 2 ^ 15"
  shows "shared_inv (shm s) (waitq s) (pcs s)"
proof (rule sh.system_invariant [where I = shared_inv,
      OF reach [unfolded shared_step_def shared_init_def]])
  show "shared_inv SH_UNLOCKED [] (replicate n ShIdle)"
    by (simp add: shared_inv_def shared_word_def shared_attended_def shared_consts cnt_simps)
next
  fix w q ls t op l
  assume I: "shared_inv w q ls" "length ls = n" "t < n" "t \<notin> set q"
    and op: "shared_start op (ls ! t) = Some l"
  from op have same: "writer_holds l = writer_holds (ls ! t)" "writer_waits l = writer_waits (ls ! t)"
    "reader_holds l = reader_holds (ls ! t)" "shared_local l" "shared_waker l = shared_waker (ls ! t)"
    by (auto elim!: shared_start_cases)
  have "shared_word w (ls[t := l])"
    using I same by (simp add: shared_inv_def shared_word_def cnt_simps)
  moreover have "shared_attended w q (ls[t := l])"
    using I same by (auto simp: shared_inv_def intro: shared_attended_update)
  moreover have "\<forall>u < length (ls[t := l]). shared_local (ls[t := l] ! u)"
    using I same unfolding shared_inv_def by (intro all_nth_update) auto
  ultimately show "shared_inv w q (ls[t := l])" by (simp add: shared_inv_def)
next
  fix w q ls t ws w' l k q'
  assume I: "shared_inv w q ls" and wf: "sh.queue_wf \<lparr>shm = w, waitq = q, pcs = ls\<rparr>"
    and len: "length ls = n" and t: "t < n" "t \<notin> set q"
    and ex: "shared_exec w (ls ! t) = Some (w', l, k)" and kr: "kernel k t ws q = Some q'"
  have w: "shared_word w ls" "shared_local (ls ! t)" using I len t by (simp_all add: shared_inv_def)
  show "shared_inv w' q' (ls[t := l])"
    unfolding shared_inv_def
  proof (intro conjI)
    show "shared_word w' (ls[t := l])" using shared_word_exec [OF w(1) _ _ w(2) ex] len t n by simp
    show "\<forall>u < length (ls[t := l]). shared_local (ls[t := l] ! u)"
      using I shared_local_exec [OF w(2) ex] unfolding shared_inv_def by (intro all_nth_update) auto
    show "shared_attended w' q' (ls[t := l])"
      using shared_attended_exec [OF I wf _ _ _ ex kr] len t n by simp
  qed
qed (auto simp: shared_inv_def shared_attended_def)

section \<open>Waiters get the lock once nobody is in their way\<close>

lemma shared_reachable_facts:
  assumes "shared_reachable n s"
  shows "length (pcs s) = n" and "sh.queue_wf s"
  using assms sh.reachable_length sh.reachable_queue_wf
  unfolding shared_step_def shared_init_def by blast+

lemma shared_writer_runs:
  assumes l: "writer_waits l" "shared_local l" and w: "even (unat w)" "unat w < 65536"
  shows "\<exists>m w'. plain_run shared_exec m w l = Some (w', WHeld)"
proof -
  have load: "plain_run shared_exec 2 w (WLoad sc bo) = Some ((w - 2) OR 1, WHeld)" for sc bo
    using w by (simp add: numeral_2_eq_2 shared_writer_mask Let_def)
      (simp add: shared_consts)
  have go: ?thesis if "shared_exec w l = Some (w, WLoad sc bo, KNone)" for sc bo
    using plain_run_step [OF that load] by blast
  show ?thesis
  proof (cases l)
    case (WLoad sc bo)
    with load show ?thesis by blast
  next
    case (WCas sc bo c)
    show ?thesis
    proof (cases "w = c")
      case True
      with WCas have "plain_run shared_exec 1 w l = Some ((w - 2) OR 1, WHeld)"
        by (simp add: shared_consts Let_def)
      then show ?thesis by blast
    next
      case False
      with WCas show ?thesis by (intro go [of sc bo]) (simp add: Let_def)
    qed
  next
    case (WWait c)
    with l w show ?thesis by (intro go [of 0 SPIN_INITIAL]) auto
  next
    case WAsleep
    then show ?thesis by (intro go [of 0 SPIN_INITIAL]) auto
  qed (use l in auto)
qed

lemma shared_reader_runs:
  assumes l: "reader_waits l" "shared_local l" and w: "unat w mod 65536 = 0"
  shows "\<exists>m w'. plain_run shared_exec m w l = Some (w', RHeld)"
proof -
  have load: "plain_run shared_exec 2 w (RcLoad sc bo) = Some (w + READER_INCREMENT, RHeld)" for sc bo
    using w by (simp add: numeral_2_eq_2 shared_reader_mask Let_def)
  have go: ?thesis if "shared_exec w l = Some (w, RcLoad sc bo, KNone)" for sc bo
    using plain_run_step [OF that load] by blast
  show ?thesis
  proof (cases l)
    case (RcLoad sc bo)
    with load show ?thesis by blast
  next
    case (RcCas sc bo c)
    show ?thesis
    proof (cases "w = c")
      case True
      with RcCas have "plain_run shared_exec 1 w l = Some (w + READER_INCREMENT, RHeld)"
        by (simp add: Let_def)
      then show ?thesis by blast
    next
      case False
      with RcCas show ?thesis by (intro go [of sc bo]) (simp add: Let_def)
    qed
  next
    case (RcWait c)
    with l w show ?thesis by (intro go [of 0 SPIN_INITIAL]) auto
  next
    case RcAsleep
    then show ?thesis by (intro go [of 0 SPIN_INITIAL]) auto
  qed (use l in auto)
qed

text \<open>A sleeper that the word no longer justifies: the waker that is pending gets it out.\<close>

lemma shared_wakes_up:
  assumes reach: "shared_reachable n s" and n: "n < 2 ^ 15" and t: "t < n"
    and unblocked: "t \<in> set (waitq s) \<longrightarrow> \<not> shared_blocked (unat (shm s)) (pcs s ! t)"
  shows "\<exists>sched ls q. run shared_step (steps sched) s = Some \<lparr>shm = shm s, waitq = q, pcs = ls\<rparr> \<and>
    t \<notin> set q \<and> length ls = n \<and> ls ! t = pcs s ! t"
proof (cases "t \<in> set (waitq s)")
  case False
  have "run shared_step (steps []) s = Some \<lparr>shm = shm s, waitq = waitq s, pcs = pcs s\<rparr>" by simp
  with False shared_reachable_facts(1) [OF reach] show ?thesis by blast
next
  case True
  obtain w q ls where s: "s = \<lparr>shm = w, waitq = q, pcs = ls\<rparr>" by (cases s) auto
  have len: "length ls = n" and wf: "sh.queue_wf s"
    using shared_reachable_facts [OF reach] s by simp_all
  have "shared_attended w q ls"
    using shared_invariant [OF reach n] s by (simp add: shared_inv_def)
  with True unblocked s len obtain v where v: "v < n" "shared_waker (ls ! v)"
    by (auto simp: shared_attended_def)
  from v(2) have ex: "shared_exec w (ls ! v) = Some (w, ShIdle, KWake 0x7fffffff)"
    by (cases "ls ! v") (auto simp: KWakeAll_eq)
  from v(2) have nv: "\<not> shared_asleep (ls ! v)" by (cases "ls ! v") auto
  then have vq: "v \<notin> set q" using wf s by (auto simp: sh.queue_wf_def)
  have dq: "distinct q" using wf s by (simp add: sh.queue_wf_def)
  have ok: "wake_ok 0x7fffffff q q"
    using dq sh.queue_length [OF wf] s len n by (simp add: wake_ok_def)
  have "shared_step (Step v q) s = Some \<lparr>shm = w, waitq = filter (\<lambda>u. u \<notin> set q) q, pcs = ls[v := ShIdle]\<rparr>"
    unfolding s shared_step_def using v len vq ex ok by (intro step_wake) auto
  moreover have "t \<notin> set (filter (\<lambda>u. u \<notin> set q) q)" by simp
  moreover have "t \<noteq> v" using True vq s by auto
  ultimately show ?thesis using s len
    by (intro exI [of _ "[(v, q)]"] exI [of _ "ls[v := ShIdle]"]
        exI [of _ "filter (\<lambda>u. u \<notin> set q) q"]) simp
qed

section \<open>The shared mutex is a reader/writer lock\<close>

interpretation shl: rw_lock shared_step shared_init "2 ^ 15" "holds_at writer_holds"
  "holds_at reader_holds"
proof unfold_locales
  fix t n :: nat assume "t < n"
  then show "\<not> holds_at writer_holds (shared_init n) t \<and> \<not> holds_at reader_holds (shared_init n) t"
    by (simp add: holds_at_def shared_init_def)
next
  fix n s i j
  assume "shared_reachable n s" "n < 2 ^ 15" "holds_at writer_holds s i" "holds_at writer_holds s j"
  then show "i = j"
    using shared_invariant [of n s] cnt_holds_unique [of writer_holds s i j]
    by (simp add: shared_inv_def shared_word_def)
next
  fix n s i j
  assume "shared_reachable n s" "n < 2 ^ 15" "holds_at writer_holds s i"
  then show "\<not> holds_at reader_holds s j"
    using shared_invariant [of n s] cnt_ge1 [of i "pcs s" writer_holds]
      cnt_ge1 [of j "pcs s" reader_holds]
    by (auto simp: shared_inv_def shared_word_def holds_at_def)
next
  fix a s s' assume "shared_step a s = Some s'"
  then show "\<exists>t. \<forall>u. u \<noteq> t \<longrightarrow> holds_at writer_holds s' u = holds_at writer_holds s u \<and>
        holds_at reader_holds s' u = holds_at reader_holds s u"
    unfolding shared_step_def
  proof (cases rule: sys_stepE)
    case (invoke t op l)
    then show ?thesis by (intro exI [of _ t]) (auto simp: holds_at_def)
  next
    case (exec t ws w l k q)
    then show ?thesis by (intro exI [of _ t]) (auto simp: holds_at_def)
  qed (auto simp: holds_at_def)
qed

lemma shared_fields_read:
  assumes "shared_reachable n s" and "n < 2 ^ 15"
  shows "unat (shm s) mod 65536 = 2 * cnt writer_waits (pcs s) + cnt writer_holds (pcs s)"
    and "unat (shm s) div 65536 = cnt reader_holds (pcs s)"
  using shared_word_fields [of "shm s" "pcs s"] shared_invariant [OF assms]
    shared_reachable_facts(1) [OF assms(1)] assms(2)
  by (simp_all add: shared_inv_def)

text \<open>One step lets a reader in only if no writer holds or waits.\<close>

lemma shared_reader_enters:
  assumes "shared_exec w l = Some (w', l', k)" and "reader_holds l'" and "shared_local l"
  shows "unat w mod 65536 = 0"
  using assms by (cases l) (auto simp: Let_def shared_reader_mask split: if_splits)

section \<open>The events of a run\<close>

text \<open>
  What a step of thread \<open>t\<close> from \<open>l\<close> to \<open>l'\<close> means for the abstract lock. A failing
  \<open>try_lock_shared\<close> has failed when it reads a word that has a writer in it.
\<close>

definition shared_blocks_reader :: "u32 \<Rightarrow> bool" where
  "shared_blocks_reader c \<longleftrightarrow> c AND (WRITER_LOCKED OR WRITER_WAITING_MASK) \<noteq> 0"

fun shared_event :: "tid \<Rightarrow> shared_pc \<Rightarrow> shared_pc \<Rightarrow> rw_event list" where
  "shared_event t WLockFast l' = (if l' = WHeld then [AcquireWrite t] else [])"
| "shared_event t WTryLock l' = (if l' = WHeld then [AcquireWrite t] else [TryWriteFails t])"
| "shared_event t WRegister l' = [RegisterWrite t]"
| "shared_event t (WCas sc bo c) l' = (if l' = WHeld then [GrantWrite t] else [])"
| "shared_event t WUnlAnd l' = [ReleaseWrite t]"
| "shared_event t (RLoop c) l' = (if l' = RHeld then [AcquireRead t] else [])"
| "shared_event t RTryLoad (RTryLoop c) = (if shared_blocks_reader c then [TryReadFails t] else [])"
| "shared_event t (RTryLoop c) l' = (case l' of
     RHeld \<Rightarrow> [AcquireRead t]
   | RTryLoop c' \<Rightarrow> if shared_blocks_reader c' then [TryReadFails t] else []
   | _ \<Rightarrow> [])"
| "shared_event t (RcCas sc bo c) l' = (if l' = RHeld then [AcquireRead t] else [])"
| "shared_event t RUnlSub l' = [ReleaseRead t]"
| "shared_event t _ _ = []"

fun shared_events :: "shared_op act \<Rightarrow> (u32, shared_pc) fsys \<Rightarrow> (u32, shared_pc) fsys \<Rightarrow> rw_event list" where
  "shared_events (Step t ws) s s' = shared_event t (pcs s ! t) (pcs s' ! t)"
| "shared_events _ s s' = []"

text \<open>
  The state of the abstract lock, all of it, as the program points have it: the writer is every thread that
  holds the lock exclusively, so there is at most one.
\<close>

definition shared_shows :: "(u32, shared_pc) fsys \<Rightarrow> rw_state \<Rightarrow> bool" where
  "shared_shows s x \<longleftrightarrow>
     (\<forall>u. holds_at writer_holds s u \<longleftrightarrow> rw_writer x = Some u) \<and>
     (\<forall>u. count (rw_readers x) u = of_bool (holds_at reader_holds s u)) \<and>
     (\<forall>u. count (rw_waiting x) u = of_bool (holds_at writer_waits s u))"

lemma cnt_0_holds_at: "cnt h (pcs s) = 0 \<longleftrightarrow> (\<forall>u. \<not> holds_at h s u)"
  by (fastforce simp: cnt_def holds_at_def filter_empty_conv in_set_conv_nth)

lemma shared_shows_empty:
  assumes "shared_shows s x"
  shows "rw_writer x = None \<longleftrightarrow> cnt writer_holds (pcs s) = 0"
    and "rw_readers x = {#} \<longleftrightarrow> cnt reader_holds (pcs s) = 0"
    and "rw_waiting x = {#} \<longleftrightarrow> cnt writer_waits (pcs s) = 0"
  using assms by (auto simp: shared_shows_def cnt_0_holds_at multiset_eq_iff)

text \<open>The tests of the code on a word of a reachable state are the guards of the abstract lock.\<close>

lemma shared_word_guards:
  assumes "shared_reachable n s" "n < 2 ^ 15" "shared_shows s x"
  shows "rw_write_ok x \<longleftrightarrow> even (unat (shm s)) \<and> unat (shm s) < 65536"
    and "rw_read_ok x \<longleftrightarrow> \<not> shared_blocks_reader (shm s)"
    and "rw_write_ok x \<and> rw_waiting x = {#} \<longleftrightarrow> shm s = 0"
proof -
  have word: "shared_word (shm s) (pcs s)" and len: "length (pcs s) < 2 ^ 15"
    using shared_invariant [OF assms(1,2)] shared_reachable_facts(1) [OF assms(1)] assms(2) by (simp_all add: shared_inv_def)
  note f = shared_word_fields [OF word len]
  show "rw_write_ok x \<longleftrightarrow> even (unat (shm s)) \<and> unat (shm s) < 65536"
    using f by (simp add: rw_ok_defs shared_shows_empty [OF assms(3)])
  show "rw_read_ok x \<longleftrightarrow> \<not> shared_blocks_reader (shm s)"
    using f by (auto simp: rw_ok_defs shared_shows_empty [OF assms(3)] shared_blocks_reader_def shared_reader_mask)
  have "shm s = 0 \<longleftrightarrow> unat (shm s) = 0" by (simp add: unat_eq_0)
  also have "\<dots> \<longleftrightarrow> cnt reader_holds (pcs s) = 0 \<and> cnt writer_waits (pcs s) = 0 \<and> cnt writer_holds (pcs s) = 0"
    using word by (auto simp: shared_word_def)
  finally show "rw_write_ok x \<and> rw_waiting x = {#} \<longleftrightarrow> shm s = 0"
    by (auto simp: rw_ok_defs shared_shows_empty [OF assms(3)])
qed

text \<open>One thread moves: the new state shows what its new point says of it, and the rest as before.\<close>

lemma shared_shows_update:
  assumes "shared_shows s x" "t < length (pcs s)" "pcs s' = (pcs s)[t := l]"
    and "writer_holds l \<longleftrightarrow> rw_writer x' = Some t" "\<And>u. u \<noteq> t \<Longrightarrow> rw_writer x' = Some u \<longleftrightarrow> rw_writer x = Some u"
    and "count (rw_readers x') t = of_bool (reader_holds l)" "\<And>u. u \<noteq> t \<Longrightarrow> count (rw_readers x') u = count (rw_readers x) u"
    and "count (rw_waiting x') t = of_bool (writer_waits l)" "\<And>u. u \<noteq> t \<Longrightarrow> count (rw_waiting x') u = count (rw_waiting x) u"
  shows "shared_shows s' x'"
  unfolding shared_shows_def
proof (intro conjI allI)
  fix u
  show "holds_at writer_holds s' u \<longleftrightarrow> rw_writer x' = Some u"
    using assms(1-3) assms(4) assms(5) [of u] by (cases "u = t") (auto simp: shared_shows_def holds_at_def)
  show "count (rw_readers x') u = of_bool (holds_at reader_holds s' u)"
    using assms(1-3) assms(6) assms(7) [of u] by (cases "u = t") (auto simp: shared_shows_def holds_at_def)
  show "count (rw_waiting x') u = of_bool (holds_at writer_waits s' u)"
    using assms(1-3) assms(8) assms(9) [of u] by (cases "u = t") (auto simp: shared_shows_def holds_at_def)
qed

lemma shared_exec_simulates:
  assumes reach: "shared_reachable n s" and n: "n < 2 ^ 15" and sh: "shared_shows s x"
    and t: "t < length (pcs s)" and ex: "shared_exec (shm s) (pcs s ! t) = Some (w, l, k)"
    and s': "pcs s' = (pcs s)[t := l]"
  shows "\<exists>x'. run rw_spec (shared_event t (pcs s ! t) l) x = Some x' \<and> shared_shows s' x'"
proof -
  note up = shared_shows_update [OF sh t s']
  note g = shared_word_guards [OF reach n sh]
  have loc: "shared_local (pcs s ! t)"
    using shared_invariant [OF reach n] t by (simp add: shared_inv_def)
  have now: "rw_writer x = Some t \<longleftrightarrow> writer_holds (pcs s ! t)"
    "count (rw_readers x) t = of_bool (reader_holds (pcs s ! t))"
    "count (rw_waiting x) t = of_bool (writer_waits (pcs s ! t))"
    using sh t by (auto simp: shared_shows_def holds_at_def)
  show ?thesis
  proof (cases "pcs s ! t")
    case WLockFast
    with ex g(3) now show ?thesis by (auto simp: SH_UNLOCKED_def rw_ok_defs split: if_splits intro!: up)
  next
    case WTryLock
    with ex g(3) now show ?thesis by (auto simp: SH_UNLOCKED_def rw_ok_defs split: if_splits intro!: up)
  next
    case WRegister
    with ex now show ?thesis by (auto intro!: up)
  next
    case (WCas sc bo c)
    with ex g(1) loc now show ?thesis
      by (auto simp: rw_ok_defs Let_def count_greater_zero_iff [symmetric] split: if_splits intro!: up)
  next
    case WUnlAnd
    with ex now show ?thesis by (auto intro!: up)
  next
    case RTryLoad
    with ex g(2) now show ?thesis by (auto intro!: up)
  next
    case (RLoop c)
    with ex g(2) now show ?thesis
      by (auto simp: shared_blocks_reader_def rw_ok_defs Let_def split: if_splits intro!: up)
  next
    case (RTryLoop c)
    with ex g(2) now show ?thesis
      by (auto simp: shared_blocks_reader_def rw_ok_defs Let_def split: if_splits intro!: up)
  next
    case (RcCas sc bo c)
    with ex g(2) loc now show ?thesis
      by (auto simp: shared_blocks_reader_def shared_reader_mask rw_ok_defs Let_def split: if_splits intro!: up)
  next
    case RUnlSub
    with ex now show ?thesis
      by (auto simp: Let_def count_greater_zero_iff [symmetric] split: if_splits intro!: up)
  qed (use ex now in \<open>auto simp: Let_def split: if_splits intro!: up\<close>)
qed

interpretation shr: rw_refinement shared_step shared_init "2 ^ 15" shared_events shared_shows
proof unfold_locales
  fix n show "shared_shows (shared_init n) rw_free"
    by (auto simp: shared_shows_def holds_at_def shared_init_def rw_free_def)
next
  fix n s a s' x
  assume reach: "shared_reachable n s" and n: "n < 2 ^ 15" and stp: "shared_step a s = Some s'" and sh: "shared_shows s x"
  from stp show "\<exists>x'. run rw_spec (shared_events a s s') x = Some x' \<and> shared_shows s' x'"
    unfolding shared_step_def
  proof (cases rule: sys_stepE)
    case (invoke t op l)
    then have "writer_holds l = writer_holds (pcs s ! t)" "reader_holds l = reader_holds (pcs s ! t)"
      "writer_waits l = writer_waits (pcs s ! t)"
      by (auto elim!: shared_start_cases)
    with invoke sh have "shared_shows s' x"
      by (intro shared_shows_update [OF sh]) (auto simp: shared_shows_def holds_at_def)
    with invoke show ?thesis by simp
  next
    case (exec t ws w l k q)
    with shared_exec_simulates [OF reach n sh, of t w l k s'] show ?thesis by auto
  next
    case (spurious t)
    with sh show ?thesis by (auto simp: shared_shows_def holds_at_def)
  qed
qed

section \<open>The functions alone, on the word of an abstract state\<close>

text \<open>
  The program points give a thread one lock at a time; the word does not know who reads. On the word of any
  abstract state, a thread that reads already included, each function run alone does what the abstract
  lock does, while the counts fit their fields.
\<close>

definition rw_word :: "rw_state \<Rightarrow> nat" where
  "rw_word x = 65536 * size (rw_readers x) + (2 * size (rw_waiting x) + of_bool (rw_writer x \<noteq> None))"

definition rw_fits :: "rw_state \<Rightarrow> bool" where
  "rw_fits x \<longleftrightarrow> size (rw_readers x) < 2 ^ 16 - 1 \<and> size (rw_waiting x) < 2 ^ 15 - 1"

lemma rw_word_fields:
  assumes "unat w = rw_word x" "rw_fits x"
  shows "rw_write_ok x \<longleftrightarrow> even (unat w) \<and> unat w < 65536"
    and "rw_read_ok x \<longleftrightarrow> unat w mod 65536 = 0"
    and "rw_write_ok x \<and> rw_waiting x = {#} \<longleftrightarrow> w = 0"
proof -
  let ?low = "2 * size (rw_waiting x) + of_bool (rw_writer x \<noteq> None)"
  have w: "unat w = 65536 * size (rw_readers x) + ?low" using assms(1) by (simp add: rw_word_def)
  have low: "?low < 65536" using assms(2) by (auto simp: rw_fits_def)
  have "unat w mod 65536 = ?low" unfolding w using low by (simp only: mod_mult_self4 mod_less)
  then show "rw_read_ok x \<longleftrightarrow> unat w mod 65536 = 0" by (auto simp: rw_ok_defs)
  have "even (unat w) \<longleftrightarrow> rw_writer x = None" unfolding w by auto
  moreover have "unat w < 65536 \<longleftrightarrow> size (rw_readers x) = 0"
    unfolding w using low by (cases "size (rw_readers x)") simp_all
  then have "unat w < 65536 \<longleftrightarrow> rw_readers x = {#}" by simp
  ultimately show "rw_write_ok x \<longleftrightarrow> even (unat w) \<and> unat w < 65536" by (simp add: rw_ok_defs)
  have "w = 0 \<longleftrightarrow> unat w = 0" by (simp add: unat_eq_0)
  then show "rw_write_ok x \<and> rw_waiting x = {#} \<longleftrightarrow> w = 0" unfolding w by (auto simp: rw_ok_defs)
qed

lemma rw_word_read:
  assumes w: "unat w = rw_word x" and fits: "rw_fits x" and x': "rw_spec (AcquireRead t) x = Some x'"
  shows "unat (w + READER_INCREMENT) = rw_word x'"
proof -
  have "unat w + 65536 < 2 ^ 32" using w fits by (auto simp: rw_word_def rw_fits_def)
  then show ?thesis using w x' by (auto simp: rw_word_def READER_INCREMENT_def unat_add_small split: if_splits)
qed

text \<open>\<open>lock_shared\<close> and \<open>try_lock_shared\<close>: the read lock at once, or to the slow path, or failure.\<close>

lemma shared_read_alone:
  assumes w: "unat w = rw_word x" and fits: "rw_fits x"
  shows "case rw_spec (AcquireRead t) x of
      Some x' \<Rightarrow> \<exists>w'. plain_run shared_exec 2 w RLoad = Some (w', RHeld) \<and>
        plain_run shared_exec 2 w RTryLoad = Some (w', RHeld) \<and> unat w' = rw_word x'
    | None \<Rightarrow> plain_run shared_exec 2 w RLoad = Some (w, RcLoad 0 SPIN_INITIAL) \<and>
        plain_run shared_exec 2 w RTryLoad = Some (w, ShIdle)"
  using rw_word_read [OF w fits, of t] rw_word_fields(2) [OF w fits]
  by (cases "rw_read_ok x") (simp_all add: numeral_2_eq_2 Let_def shared_reader_mask)

lemma shared_unread_alone:
  assumes w: "unat w = rw_word x" and x': "rw_spec (ReleaseRead t) x = Some x'"
  shows "\<exists>w' l. shared_exec w RUnlSub = Some (w', l, KNone) \<and> unat w' = rw_word x' \<and> (l = ShIdle \<or> l = RUnlWake)"
proof -
  have t: "t \<in># rw_readers x" and x'_def: "x' = x\<lparr>rw_readers := rw_readers x - {#t#}\<rparr>"
    using x' by (auto split: if_splits)
  then have "size (rw_readers x') = size (rw_readers x) - 1" "1 \<le> size (rw_readers x)"
    by (auto simp: size_Diff_singleton Suc_le_eq simp flip: nonempty_has_size)
  then have le: "65536 \<le> unat w" "rw_word x' = unat w - 65536"
    using w x'_def by (simp_all add: rw_word_def algebra_simps)
  then have "unat (w - 65536) = rw_word x'" by (simp add: unat_sub_small)
  then show ?thesis by (auto simp: Let_def READER_INCREMENT_def)
qed

text \<open>\<open>lock\<close> and \<open>try_lock\<close>: the free lock at once; else failure, or the registration and then the grant.\<close>

lemma shared_write_alone:
  assumes w: "unat w = rw_word x" and fits: "rw_fits x"
  shows "case rw_spec (AcquireWrite t) x of
      Some x' \<Rightarrow> \<exists>w'. shared_exec w WLockFast = Some (w', WHeld, KNone) \<and>
        shared_exec w WTryLock = Some (w', WHeld, KNone) \<and> unat w' = rw_word x'
    | None \<Rightarrow> shared_exec w WLockFast = Some (w, WRegister, KNone) \<and> shared_exec w WTryLock = Some (w, ShIdle, KNone) \<and>
        (\<forall>x'. rw_write t x = Some x' \<longrightarrow>
          (\<exists>w'. plain_run shared_exec 3 w WRegister = Some (w', WHeld) \<and> unat w' = rw_word x'))"
proof (cases "rw_write_ok x \<and> rw_waiting x = {#}")
  case True
  then have "w = 0" using rw_word_fields(3) [OF w fits] by blast
  with True w show ?thesis by (simp add: SH_UNLOCKED_def WRITER_LOCKED_def rw_word_def rw_ok_defs)
next
  case False
  have slow: "\<exists>w'. plain_run shared_exec 3 w WRegister = Some (w', WHeld) \<and> unat w' = rw_word x'"
    if wr: "rw_write t x = Some x'" for x'
  proof -
    have ok: "rw_write_ok x" and x': "x' = x\<lparr>rw_writer := Some t\<rparr>" using wr by (auto simp: rw_write_eq split: if_splits)
    have even: "even (unat w)" "unat w = 2 * size (rw_waiting x)" using ok w by (simp_all add: rw_word_def rw_ok_defs)
    have small: "unat w + 2 < 65536" using even fits by (simp add: rw_fits_def)
    then have plus: "unat (w + 2) = unat w + 2" by (simp add: unat_add_small)
    have "unat ((w + 2 - 2) OR 1) = rw_word x'"
      using even x' ok by (simp add: unat_or_1 rw_word_def rw_ok_defs)
    moreover have "(w + 2) AND (WRITER_LOCKED OR READER_MASK) = 0"
      using plus even small by (simp add: shared_writer_mask)
    ultimately show ?thesis
      by (simp add: numeral_3_eq_3 Let_def WRITER_WAITING_INC_def WRITER_LOCKED_def)
  qed
  with False w rw_word_fields(3) [OF w fits] show ?thesis by (simp add: SH_UNLOCKED_def)
qed

lemma shared_unwrite_alone:
  assumes w: "unat w = rw_word x" and x': "rw_spec (ReleaseWrite t) x = Some x'"
  shows "\<exists>w'. shared_exec w WUnlAnd = Some (w', WUnlWake, KNone) \<and> unat w' = rw_word x'"
proof -
  have "rw_writer x = Some t" "x' = x\<lparr>rw_writer := None\<rparr>" using x' by (auto split: if_splits)
  moreover from this w have "unat w mod 2 = 1" by (simp add: rw_word_def mod_Suc)
  ultimately show ?thesis using w by (simp add: WRITER_LOCKED_def unat_and_minus_2 rw_word_def)
qed

section \<open>Properties\<close>

text \<open>
  Thread 0 writes; reader 1 and writer 2 spin three times and go to sleep; then thread 0 clears
  the writer bit and is about to wake.
\<close>

definition shared_demo_sleep :: "shared_op act list" where
  "shared_demo_sleep = [Invoke 0 ShLock, Step 0 [], Invoke 1 ShLockShared, Step 1 [], Step 1 []] @
     replicate 5 (Step 1 []) @ [Invoke 2 ShLock, Step 2 [], Step 2 []] @ replicate 5 (Step 2 [])"

definition shared_demo_unlock :: "shared_op act list" where
  "shared_demo_unlock = shared_demo_sleep @ [Invoke 0 ShUnlock, Step 0 []]"

text \<open>Two readers inside.\<close>

definition shared_demo_readers :: "shared_op act list" where
  "shared_demo_readers = [Invoke 0 ShLockShared, Step 0 [], Step 0 [],
     Invoke 1 ShTryLockShared, Step 1 [], Step 1 []]"

lemma shared_demo_sleep_reachable: "shared_reachable 3 \<lparr>shm = 3, waitq = [1, 2],
    pcs = [WHeld, RcAsleep, WAsleep]\<rparr>"
  by (rule run_reachable [of _ shared_demo_sleep]) code_simp

lemma shared_demo_unlock_reachable: "shared_reachable 3 \<lparr>shm = 2, waitq = [1, 2],
    pcs = [WUnlWake, RcAsleep, WAsleep]\<rparr>"
  by (rule run_reachable [of _ shared_demo_unlock]) code_simp

lemma shared_demo_readers_reachable: "shared_reachable 2 \<lparr>shm = 0x20000, waitq = [],
    pcs = [RHeld, RHeld]\<rparr>"
  by (rule run_reachable [of _ shared_demo_readers]) code_simp

text \<open>
  C3. Reader/writer exclusion: in every reachable state a thread that holds the shared mutex
  exclusively is the only one that holds it, in either mode.
\<close>
theorem shared_exclusion:
  assumes "shared_reachable n s" and "n < 2 ^ 15" and "i < n" and "j < n" and "i \<noteq> j"
    and "writer_holds (pcs s ! i)"
  shows "\<not> writer_holds (pcs s ! j) \<and> \<not> reader_holds (pcs s ! j)"
  using shl.one_writer [OF assms(1-4)] shl.no_mix [OF assms(1-4)] assms
    shared_reachable_facts(1) [OF assms(1)]
  by (auto simp: holds_at_def)

theorem shared_exclusion_witness:
  "\<not> writer_holds ([WHeld, RcAsleep, WAsleep] ! 1) \<and> \<not> reader_holds ([WHeld, RcAsleep, WAsleep] ! 1)"
  using shared_exclusion [OF shared_demo_sleep_reachable, of 0 1] by simp

text \<open>
  What the word says, for up to 32767 threads: the low half counts the registered writers
  twice plus the writer bit, the high half counts the readers inside; the fields never overflow
  into each other.
\<close>
theorem shared_word_layout:
  assumes "shared_reachable n s" and "n < 2 ^ 15"
  shows "unat (shm s) mod 65536 = 2 * cnt writer_waits (pcs s) + cnt writer_holds (pcs s) \<and>
    unat (shm s) div 65536 = cnt reader_holds (pcs s)"
  using shared_fields_read [OF assms] by simp

theorem shared_word_layout_witness:
  "unat (0x20000 :: u32) div 65536 = cnt reader_holds [RHeld, RHeld]"
  using shared_word_layout [OF shared_demo_readers_reachable] by simp

text \<open>
  C17. No lost wake-up: a writer that waits while nobody holds the mutex, and a reader that waits
  while no writer holds or waits, acquires it, even from sleep, under a schedule of nothing but steps
  of calls already under way: no new operation and no spurious wake-up. A sleeper leaves the kernel
  only by a wake that such a call makes, so one whose wake-up was lost would have no such schedule.
\<close>
theorem shared_no_lost_wakeup:
  assumes reach: "shared_reachable n s" and n: "n < 2 ^ 15" and t: "t < n"
    and waits: "(writer_waits (pcs s ! t) \<and> cnt writer_holds (pcs s) = 0 \<and> cnt reader_holds (pcs s) = 0) \<or>
      (reader_waits (pcs s ! t) \<and> cnt writer_holds (pcs s) = 0 \<and> cnt writer_waits (pcs s) = 0)"
  shows "\<exists>sched s'. run shared_step (steps sched) s = Some s' \<and> (pcs s' ! t = WHeld \<or> pcs s' ! t = RHeld)"
proof -
  have word: "shared_word (shm s) (pcs s)" and loc: "shared_local (pcs s ! t)"
    using shared_invariant [OF reach n] shared_reachable_facts(1) [OF reach] t
    by (simp_all add: shared_inv_def)
  note f = shared_word_fields [OF word, unfolded shared_reachable_facts(1) [OF reach], OF n]
  have "t \<in> set (waitq s) \<longrightarrow> \<not> shared_blocked (unat (shm s)) (pcs s ! t)"
    using shared_reachable_facts(2) [OF reach] waits f
    by (cases "pcs s ! t") (auto simp: sh.queue_wf_def)
  then obtain sched ls q where up: "run shared_step (steps sched) s = Some \<lparr>shm = shm s, waitq = q, pcs = ls\<rparr>"
    and q: "t \<notin> set q" "length ls = n" "ls ! t = pcs s ! t"
    using shared_wakes_up [OF reach n t] by blast
  have "\<exists>m w' l. plain_run shared_exec m (shm s) (ls ! t) = Some (w', l) \<and> (l = WHeld \<or> l = RHeld)"
    using waits
  proof
    assume "writer_waits (pcs s ! t) \<and> cnt writer_holds (pcs s) = 0 \<and> cnt reader_holds (pcs s) = 0"
    then have "\<exists>m w'. plain_run shared_exec m (shm s) (pcs s ! t) = Some (w', WHeld)"
      using f by (intro shared_writer_runs [OF _ loc]) auto
    with q show ?thesis by auto
  next
    assume "reader_waits (pcs s ! t) \<and> cnt writer_holds (pcs s) = 0 \<and> cnt writer_waits (pcs s) = 0"
    then have "\<exists>m w'. plain_run shared_exec m (shm s) (pcs s ! t) = Some (w', RHeld)"
      using f by (intro shared_reader_runs [OF _ loc]) auto
    with q show ?thesis by auto
  qed
  then obtain m w' l where "plain_run shared_exec m (shm s) (ls ! t) = Some (w', l)"
    and l: "l = WHeld \<or> l = RHeld" by blast
  then have "run shared_step (steps (replicate m (t, []))) \<lparr>shm = shm s, waitq = q, pcs = ls\<rparr> =
      Some \<lparr>shm = w', waitq = q, pcs = ls[t := l]\<rparr>"
    unfolding shared_step_def steps_simps using q t by (intro plain_run_system) auto
  with run_trans [OF up] have "run shared_step (steps (sched @ replicate m (t, []))) s =
      Some \<lparr>shm = w', waitq = q, pcs = ls[t := l]\<rparr>" by simp
  with l q t show ?thesis by fastforce
qed

theorem shared_no_lost_wakeup_witness:
  "\<exists>sched s'. run shared_step (steps sched) \<lparr>shm = 2, waitq = [1, 2], pcs = [WUnlWake, RcAsleep, WAsleep]\<rparr> =
     Some s' \<and> (pcs s' ! 2 = WHeld \<or> pcs s' ! 2 = RHeld)"
  by (rule shared_no_lost_wakeup [OF shared_demo_unlock_reachable]) (simp_all add: cnt_def)

text \<open>
  Writer preference: while a writer holds the mutex or is registered as waiting, no step lets
  a new reader in.
\<close>
theorem shared_writer_preference:
  assumes reach: "shared_reachable n s" and n: "n < 2 ^ 15"
    and writer: "0 < cnt writer_waits (pcs s) + cnt writer_holds (pcs s)"
    and stp: "shared_step a s = Some s'" and reader: "reader_holds (pcs s' ! t)" "t < n"
  shows "reader_holds (pcs s ! t)"
proof (rule ccontr)
  assume new: "\<not> reader_holds (pcs s ! t)"
  have len: "length (pcs s) = n" by (rule shared_reachable_facts(1) [OF reach])
  have loc: "shared_local (pcs s ! t)"
    using shared_invariant [OF reach n] len reader(2) by (simp add: shared_inv_def)
  from stp have "unat (shm s) mod 65536 = 0" unfolding shared_step_def
  proof (cases rule: sys_stepE)
    case (invoke u op l)
    with new reader len show ?thesis
      by (cases "u = t") (auto elim!: shared_start_cases)
  next
    case (exec u ws w l k q)
    with new reader len loc show ?thesis
      by (cases "u = t") (auto intro: shared_reader_enters)
  next
    case (spurious u)
    with new reader show ?thesis by simp
  qed
  with shared_fields_read(1) [OF reach n] writer show False by simp
qed

theorem shared_writer_preference_witness:
  "reader_holds ([RHeld, WLoad 0 SPIN_INITIAL] ! 0)"
proof -
  let ?s = "\<lparr>shm = 0x10002 :: u32, waitq = [], pcs = [RHeld, WLoad 0 SPIN_INITIAL]\<rparr>"
  let ?s' = "\<lparr>shm = 0x10002 :: u32, waitq = [], pcs = [RHeld, WLoad 1 20]\<rparr>"
  have "shared_reachable 2 ?s"
    by (rule run_reachable [of _ "[Invoke 0 ShLockShared, Step 0 [], Step 0 [], Invoke 1 ShLock,
      Step 1 [], Step 1 []]"]) code_simp
  moreover have "shared_step (Step 1 []) ?s = Some ?s'" by code_simp
  ultimately show ?thesis
    using shared_writer_preference [of 2 ?s "Step 1 []" ?s' 0] by (simp add: cnt_def)
qed

text \<open>
  C23. Refinement: take any run of the shared mutex and the events of its steps, each where the code does it
  (the two ways to the write lock, the registration of a writer, the two releases, the read locks, and the
  failed tries where they have read why). That sequence of events is possible for the abstract reader/writer
  lock, guards included: so a writer comes in only when nobody is inside, a reader only when no writer is
  inside or registered, a \<open>try_lock\<close> fails only when the lock is not free. At the end the abstract writer,
  readers and waiting writers are exactly the threads at those points of the code.
\<close>
theorem shared_refines_rw_lock:
  assumes "run shared_step as (shared_init n) = Some s" and "n < 2 ^ 15"
  shows "\<exists>x. run rw_spec (events shared_step shared_events as (shared_init n)) rw_free = Some x \<and>
    (\<forall>u. holds_at writer_holds s u \<longleftrightarrow> rw_writer x = Some u) \<and>
    (\<forall>u. count (rw_readers x) u = of_bool (holds_at reader_holds s u)) \<and>
    (\<forall>u. count (rw_waiting x) u = of_bool (holds_at writer_waits s u))"
  using shr.trace_refines [OF assms] unfolding shared_shows_def .

text \<open>Readers 0 and 1 inside, then writer 2 registers; a third reader's try fails.\<close>

definition shared_demo_events :: "shared_op act list" where
  "shared_demo_events = shared_demo_readers @
     [Invoke 2 ShLock, Step 2 [], Step 2 [], Invoke 3 ShTryLockShared, Step 3 []]"

lemma shared_demo_events_run:
  "run shared_step shared_demo_events (shared_init 4) = Some \<lparr>shm = 0x20002, waitq = [],
     pcs = [RHeld, RHeld, WLoad 0 SPIN_INITIAL, RTryLoop 0x20002]\<rparr>"
  "events shared_step shared_events shared_demo_events (shared_init 4) =
     [AcquireRead 0, AcquireRead 1, RegisterWrite 2, TryReadFails 3]"
  by code_simp+

theorem shared_refines_rw_lock_witness:
  "\<exists>x. run rw_spec [AcquireRead 0, AcquireRead 1, RegisterWrite 2, TryReadFails 3] rw_free = Some x \<and>
     rw_writer x = None \<and> count (rw_readers x) 1 = 1 \<and> count (rw_waiting x) 2 = 1"
proof -
  let ?s = "\<lparr>shm = 0x20002 :: u32, waitq = [], pcs = [RHeld, RHeld, WLoad 0 SPIN_INITIAL, RTryLoop 0x20002]\<rparr>"
  obtain x where run: "run rw_spec [AcquireRead 0, AcquireRead 1, RegisterWrite 2, TryReadFails 3] rw_free = Some x"
    and w: "\<And>u. holds_at writer_holds ?s u \<longleftrightarrow> rw_writer x = Some u"
    and r: "\<And>u. count (rw_readers x) u = of_bool (holds_at reader_holds ?s u)"
    and q: "\<And>u. count (rw_waiting x) u = of_bool (holds_at writer_waits ?s u)"
    using shared_refines_rw_lock [OF shared_demo_events_run(1)] unfolding shared_demo_events_run(2) by fastforce
  have "rw_writer x \<noteq> Some u" for u
    using w [of u] by (auto simp: holds_at_def less_Suc_eq numeral_eq_Suc)
  moreover have "count (rw_readers x) 1 = 1" "count (rw_waiting x) 2 = 1"
    unfolding r q by (simp_all add: holds_at_def)
  ultimately show ?thesis using run by (cases "rw_writer x") auto
qed

text \<open>The exclusive side alone is a lock in the sense of the other mutexes.\<close>

theorem shared_writers_refine_lock: "shared_reachable n s \<Longrightarrow> n < 2 ^ 15 \<Longrightarrow>
    reachable lock_spec None (owner_of (holds_at writer_holds s) n)"
  by (rule shl.writer.refines_spec)

end
