(* ===== verification/Semaphore.thy ===== *)
theory Semaphore
  imports Lock_Spec
begin

text \<open>
  \<^verbatim>\<open>psync_semaphore.h\<close>: the counting semaphore. \<open>try_acquire\<close> is called from \<open>acquire\<close> and
  \<open>try_acquire_for\<close> at several places; the call site is part of the program point. Shown:
  tokens are neither lost nor duplicated, and no token lies idle while a thread sleeps for it.
\<close>

section \<open>The semaphore\<close>

text \<open>The sites from which \<open>try_acquire\<close> is called, with the spin counter of the loop.\<close>

datatype sem_site =
    ByClient
  | AcqFast | AcqSpin nat | AcqLoop
  | ForFast | ForSpin nat | ForLoop | ForLast

text \<open>
  \<open>SemOut\<close> is a thread outside, with the result of its last call; \<open>timed\<close> distinguishes
  \<open>try_acquire_for\<close> from \<open>acquire\<close> where the two loops are the same.
\<close>

datatype sem_pc =
    SemOut "bool option"
  | SemAdd u32
  | SemWake u32
  | SemTryLoad sem_site
  | SemTryCas sem_site u32
  | SemNow
  | SemCheck bool
  | SemWait bool
  | SemAsleep bool

text \<open>\<open>g_released\<close> and \<open>g_acquired\<close> record the history: tokens put in and taken out so far.\<close>

record sem_mem =
  sem_count :: u32
  g_released :: nat
  g_acquired :: nat

text \<open>
  \<open>SemDeadline\<close> is the clock's answer that the deadline of a \<open>try_acquire_for\<close> has passed; a
  thread at \<open>SemNow\<close> that steps instead has been told it has not.
\<close>

datatype sem_op = SemRelease u32 | SemTryAcquire | SemAcquire | SemTryAcquireFor | SemDeadline

definition sem_outside :: "sem_pc \<Rightarrow> bool" where
  "sem_outside l \<longleftrightarrow> (case l of SemOut _ \<Rightarrow> True | _ \<Rightarrow> False)"

fun sem_start :: "sem_op \<Rightarrow> sem_pc \<Rightarrow> sem_pc option" where
  "sem_start (SemRelease update) l =
     (if sem_outside l \<and> 0 < update then Some (SemAdd update) else None)"
| "sem_start SemTryAcquire l = (if sem_outside l then Some (SemTryLoad ByClient) else None)"
| "sem_start SemAcquire l = (if sem_outside l then Some (SemTryLoad AcqFast) else None)"
| "sem_start SemTryAcquireFor l = (if sem_outside l then Some (SemTryLoad ForFast) else None)"
| "sem_start SemDeadline l = (if l = SemNow then Some (SemTryLoad ForLast) else None)"

text \<open>Where a call of \<open>try_acquire\<close> that returned true, or false, continues.\<close>

fun sem_true :: "sem_site \<Rightarrow> sem_pc" where
  "sem_true AcqFast = SemOut None"
| "sem_true (AcqSpin _) = SemOut None"
| "sem_true AcqLoop = SemOut None"
| "sem_true _ = SemOut (Some True)"

fun sem_false :: "sem_site \<Rightarrow> sem_pc" where
  "sem_false ByClient = SemOut (Some False)"
| "sem_false AcqFast = SemTryLoad (AcqSpin 0)"
| "sem_false (AcqSpin i) = (if i + 1 < 32 then SemTryLoad (AcqSpin (i + 1)) else SemTryLoad AcqLoop)"
| "sem_false AcqLoop = SemCheck False"
| "sem_false ForFast = SemTryLoad (ForSpin 0)"
| "sem_false (ForSpin i) = (if i + 1 < 16 then SemTryLoad (ForSpin (i + 1)) else SemTryLoad ForLoop)"
| "sem_false ForLoop = SemNow"
| "sem_false ForLast = SemOut (Some False)"

definition sem_loop :: "bool \<Rightarrow> sem_pc" where
  "sem_loop timed = SemTryLoad (if timed then ForLoop else AcqLoop)"

fun sem_exec :: "sem_mem \<Rightarrow> sem_pc \<Rightarrow> (sem_mem \<times> sem_pc \<times> keff) option" where
  "sem_exec m (SemOut r) = None"
| "sem_exec m (SemAdd update) =
     (let (_, c) = atomic_fetch_add (sem_count m) update MO_release
      in Some (m\<lparr>sem_count := c, g_released := g_released m + unat update\<rparr>, SemWake update, KNone))"
| "sem_exec m (SemWake update) = Some (m, SemOut None, KWakeCount update)"
| "sem_exec m (SemTryLoad site) =
     (let current = atomic_load (sem_count m) MO_relaxed
      in if 0 < current then Some (m, SemTryCas site current, KNone)
         else Some (m, sem_false site, KNone))"
| "sem_exec m (SemTryCas site current) =
     (case atomic_compare_exchange (sem_count m) current (current - 1) MO_acquire MO_relaxed of
        (True, c, _) \<Rightarrow>
          Some (m\<lparr>sem_count := c, g_acquired := g_acquired m + 1\<rparr>, sem_true site, KNone)
      | (False, c, expected) \<Rightarrow>
          if 0 < expected then Some (m\<lparr>sem_count := c\<rparr>, SemTryCas site expected, KNone)
          else Some (m\<lparr>sem_count := c\<rparr>, sem_false site, KNone))"
| "sem_exec m SemNow = Some (m, SemCheck True, KNone)"
| "sem_exec m (SemCheck timed) =
     (let current = atomic_load (sem_count m) MO_relaxed
      in if current = 0 then Some (m, SemWait timed, KNone) else Some (m, sem_loop timed, KNone))"
| "sem_exec m (SemWait timed) =
     (if sem_count m = 0 then Some (m, SemAsleep timed, KSleep) else Some (m, sem_loop timed, KNone))"
| "sem_exec m (SemAsleep timed) = Some (m, sem_loop timed, KNone)"

fun sem_asleep :: "sem_pc \<Rightarrow> bool" where
  "sem_asleep (SemAsleep _) = True"
| "sem_asleep _ = False"

definition sem_step :: "sem_op act \<Rightarrow> (sem_mem, sem_pc) fsys \<Rightarrow> (sem_mem, sem_pc) fsys option" where
  "sem_step = sys_step sem_exec sem_start"

definition sem_mem0 :: "u32 \<Rightarrow> sem_mem" where
  "sem_mem0 desired = \<lparr>sem_count = desired, g_released = 0, g_acquired = 0\<rparr>"

definition sem_init :: "u32 \<Rightarrow> nat \<Rightarrow> (sem_mem, sem_pc) fsys" where
  "sem_init desired n = sys_init (sem_mem0 desired) (SemOut None) n"

abbreviation sem_reachable :: "u32 \<Rightarrow> nat \<Rightarrow> (sem_mem, sem_pc) fsys \<Rightarrow> bool" where
  "sem_reachable desired n \<equiv> reachable sem_step (sem_init desired n)"

text \<open>Inside a call that may take a token; the tokens a pending wake stands for.\<close>

fun sem_acquiring :: "sem_pc \<Rightarrow> bool" where
  "sem_acquiring (SemOut _) = False"
| "sem_acquiring (SemAdd _) = False"
| "sem_acquiring (SemWake _) = False"
| "sem_acquiring _ = True"

fun sem_pending :: "sem_pc \<Rightarrow> nat" where
  "sem_pending (SemWake update) = unat update"
| "sem_pending _ = 0"

lemma sem_continue [simp]:
  "\<not> sem_asleep (sem_true site)" "\<not> sem_asleep (sem_false site)" "\<not> sem_asleep (sem_loop timed)"
  "\<not> sem_acquiring (sem_true site)" "sem_pending (sem_true site) = 0"
  "sem_pending (sem_false site) = 0" "sem_pending (sem_loop timed) = 0" "sem_acquiring (sem_loop timed)"
  by (cases site; simp add: sem_loop_def)+

lemma sem_start_cases:
  assumes "sem_start op l = Some l'"
  obtains u where "sem_outside l" "l' = SemAdd u" "0 < u"
  | site where "sem_outside l" "l' = SemTryLoad site"
  | "l = SemNow" "l' = SemTryLoad ForLast"
  using assms by (cases op) (auto split: if_splits)

lemma sem_outside_simps [simp]: "sem_outside l \<Longrightarrow> \<not> sem_acquiring l"
  "sem_outside l \<Longrightarrow> sem_pending l = 0"
  by (cases l; simp add: sem_outside_def)+

lemma sem_sleep_point: "sem_exec m l = Some (m', l', k) \<Longrightarrow> sem_asleep l' \<longleftrightarrow> k = KSleep"
  by (cases l) (auto simp: Let_def KWakeCount_def split: if_splits)

interpretation sem: futex_client sem_exec sem_start sem_asleep "SemOut None"
  by unfold_locales (auto elim!: sem_start_cases dest: sem_sleep_point)

section \<open>The invariant\<close>

text \<open>
  Tokens are conserved as long as fewer than \<open>2 ^ 32\<close> were ever put in. The second part is what
  keeps sleepers from being stranded: if somebody sleeps, the tokens present are at most the
  wake-ups still to be issued plus the threads awake inside a call that takes a token.
\<close>

definition sem_tokens :: "u32 \<Rightarrow> sem_mem \<Rightarrow> bool" where
  "sem_tokens desired m \<longleftrightarrow> (unat desired + g_released m < 2 ^ 32 \<longrightarrow>
     unat (sem_count m) + g_acquired m = unat desired + g_released m)"

definition sem_covered :: "sem_mem \<Rightarrow> tid list \<Rightarrow> sem_pc list \<Rightarrow> bool" where
  "sem_covered m q ls \<longleftrightarrow> (q \<noteq> [] \<longrightarrow>
     unat (sem_count m) + length q \<le> wsum sem_pending ls + cnt sem_acquiring ls)"

definition sem_local :: "sem_pc \<Rightarrow> bool" where
  "sem_local l \<longleftrightarrow> (case l of SemTryCas _ c \<Rightarrow> 0 < c | SemAdd u \<Rightarrow> 0 < u | SemWake u \<Rightarrow> 0 < u | _ \<Rightarrow> True)"

definition sem_inv :: "u32 \<Rightarrow> sem_mem \<Rightarrow> tid list \<Rightarrow> sem_pc list \<Rightarrow> bool" where
  "sem_inv desired m q ls \<longleftrightarrow> sem_tokens desired m \<and> sem_covered m q ls \<and>
     (\<forall>t < length ls. sem_local (ls ! t))"

lemma sem_local_exec: "sem_local l \<Longrightarrow> sem_exec m l = Some (m', l', k) \<Longrightarrow> sem_local l'"
proof -
  have "sem_local (sem_true site)" "sem_local (sem_false site)" "sem_local (sem_loop b)" for site b
    by (cases site; simp add: sem_local_def sem_loop_def)+
  then show "sem_local l \<Longrightarrow> sem_exec m l = Some (m', l', k) \<Longrightarrow> sem_local l'"
    by (cases l) (auto simp: Let_def sem_local_def split: if_splits)
qed

lemma unat_minus_1: "0 < c \<Longrightarrow> unat (c - 1) = unat c - 1" for c :: u32
  using unat_sub_small [of 1 c] by (simp add: word_less_nat_alt Suc_le_eq)

lemma sem_tokens_exec: "sem_tokens desired m \<Longrightarrow> sem_local l \<Longrightarrow> sem_exec m l = Some (m', l', k) \<Longrightarrow>
    sem_tokens desired m'"
  by (cases l) (auto simp: sem_tokens_def sem_local_def Let_def unat_minus_1 unat_add_small
      word_less_nat_alt split: if_splits)

text \<open>A wake of \<open>update\<close> sleepers takes that many out of the queue, or all.\<close>

lemma sem_wake_queue:
  assumes "kernel (KWakeCount u) t ws q = Some q'" and "0 < u" and "length q < 2 ^ 31" and "q' \<noteq> []"
    and "distinct q"
  shows "length q' + unat u \<le> length q"
proof -
  let ?m = "unat (wake_count u)"
  have ok: "wake_ok ?m q ws" and q': "q' = filter (\<lambda>x. x \<notin> set ws) q"
    using assms(1) by (simp_all add: KWakeCount_def kernel_wake)
  have "length q < ?m \<Longrightarrow> q' = []"
    using wake_all_empties [OF ok _ assms(5)] q' by simp
  then have m: "?m \<le> length q" using assms(4) by fastforce
  have "length (filter (\<lambda>x. x \<in> set ws) q) = length ws"
  proof -
    have "set (filter (\<lambda>x. x \<in> set ws) q) = set ws" using ok by (auto simp: wake_ok_def)
    with ok assms(5) show ?thesis unfolding wake_ok_def by (metis distinct_card distinct_filter)
  qed
  with sum_length_filter_compl [of "\<lambda>x. x \<in> set ws" q] ok m
  have "length q' + ?m = length q" unfolding q' by (simp add: wake_ok_def)
  moreover have "wake_count u = u \<or> ?m = 0x7fffffff" by (auto simp: wake_count_def)
  moreover have "0 < length q'" using assms(4) by simp
  ultimately show ?thesis using assms(3) by (cases q') auto
qed

lemma sem_covered_exec:
  assumes cov: "sem_covered m q ls" and wf: "sem.queue_wf \<lparr>shm = m, waitq = q, pcs = ls\<rparr>"
    and t: "t < length ls" "t \<notin> set q" and n: "length ls < 2 ^ 31"
    and loc: "sem_local (ls ! t)"
    and ex: "sem_exec m (ls ! t) = Some (m', l, k)" and kr: "kernel k t ws q = Some q'"
  shows "sem_covered m' q' (ls[t := l])"
proof -
  note cw = wsum_update [OF t(1), of sem_pending l] and ca = cnt_update [OF t(1), of sem_acquiring l]
  have dq: "distinct q" using wf by (simp add: sem.queue_wf_def)
  have qs: "\<forall>u \<in> set q. u < length ls \<and> sem_acquiring (ls ! u)"
    using wf by (auto simp: sem.queue_wf_def elim!: sem_asleep.elims)
  have awake: "length q < cnt sem_acquiring ls" if "sem_acquiring (ls ! t)"
    using cnt_gt_distinct [OF dq qs t that] .
  have len: "length q < 2 ^ 31" using sem.queue_length [OF wf] n by simp
  have grow: "unat (sem_count m + u) \<le> unat (sem_count m) + unat u" for u
    by (simp add: unat_word_ariths)
  have neg: ?thesis if "k = KNone" "m' = m" "sem_count m = 0" "sem_acquiring (ls ! t)"
      "sem_pending (ls ! t) = 0"
    using that kr cw ca awake by (auto simp: sem_covered_def split: if_splits)
  have stay: ?thesis if "k = KNone" "m' = m" "sem_acquiring l" "sem_acquiring (ls ! t)"
      "sem_pending (ls ! t) = 0"
    using that kr cov cw ca by (auto simp: sem_covered_def)
  have moved: ?thesis if "k = KNone" "m' = m" "sem_acquiring (ls ! t)" "sem_pending (ls ! t) = 0"
      "sem_acquiring l \<or> sem_count m = 0"
    using that neg stay by blast
  show ?thesis
  proof (cases "ls ! t")
    case (SemAdd u)
    with ex kr cov cw ca grow [of u] show ?thesis by (auto simp: sem_covered_def)
  next
    case (SemWake u)
    with ex have k: "k = KWakeCount u" "m' = m" "l = SemOut None" by simp_all
    have "q \<noteq> []" if "q' \<noteq> []" using that kr k by (auto simp: KWakeCount_def kernel_wake)
    with SemWake k kr loc sem_wake_queue [OF _ _ len _ dq, of u t ws q'] cov cw ca
    show ?thesis by (fastforce simp: sem_covered_def sem_local_def)
  next
    case (SemTryCas site c)
    show ?thesis
    proof (cases "sem_count m = c")
      case True
      with SemTryCas ex kr cov cw ca loc show ?thesis
        by (auto simp: sem_covered_def sem_local_def unat_minus_1 word_less_nat_alt)
    next
      case False
      show ?thesis
      proof (cases "0 < sem_count m")
        case True
        with False SemTryCas ex show ?thesis by (intro stay) auto
      next
        case zero: False
        with False SemTryCas ex show ?thesis by (intro neg) (auto simp: word_gt_0)
      qed
    qed
  next
    case (SemWait timed)
    show ?thesis
    proof (cases "sem_count m = 0")
      case True
      with SemWait ex kr cw ca awake show ?thesis by (auto simp: sem_covered_def)
    next
      case False
      with SemWait ex show ?thesis by (intro stay) auto
    qed
  qed (rule moved; use ex in \<open>auto simp: Let_def word_gt_0 split: if_splits\<close>)+
qed

lemma sem_invariant:
  assumes reach: "sem_reachable desired n s" and n: "n < 2 ^ 31"
  shows "sem_inv desired (shm s) (waitq s) (pcs s)"
proof (rule sem.system_invariant [where I = "sem_inv desired",
      OF reach [unfolded sem_step_def sem_init_def]])
  show "sem_inv desired (sem_mem0 desired) [] (replicate n (SemOut None))"
    by (simp add: sem_inv_def sem_tokens_def sem_covered_def sem_mem0_def sem_local_def)
next
  fix m q ls t op l
  assume I: "sem_inv desired m q ls" "length ls = n" "t < n" "t \<notin> set q"
    and op: "sem_start op (ls ! t) = Some l"
  have "sem_local l" and "sem_pending l = sem_pending (ls ! t)"
    and "sem_acquiring (ls ! t) \<Longrightarrow> sem_acquiring l"
    using op by (auto simp: sem_local_def elim!: sem_start_cases)
  moreover from this I have "cnt sem_acquiring ls \<le> cnt sem_acquiring (ls[t := l])"
    and "wsum sem_pending (ls[t := l]) = wsum sem_pending ls"
    using cnt_update [of t ls sem_acquiring l] wsum_update [of t ls sem_pending l]
    by (cases "sem_acquiring (ls ! t)"; simp)+
  ultimately show "sem_inv desired m q (ls[t := l])"
    using I by (auto simp: sem_inv_def sem_covered_def nth_list_update)
next
  fix m q ls t ws m' l k q'
  assume I: "sem_inv desired m q ls" and wf: "sem.queue_wf \<lparr>shm = m, waitq = q, pcs = ls\<rparr>"
    and len: "length ls = n" and t: "t < n" "t \<notin> set q"
    and ex: "sem_exec m (ls ! t) = Some (m', l, k)" and kr: "kernel k t ws q = Some q'"
  have loc: "sem_local (ls ! t)" using I len t by (simp add: sem_inv_def)
  show "sem_inv desired m' q' (ls[t := l])"
    unfolding sem_inv_def
  proof (intro conjI)
    show "sem_tokens desired m'" using I sem_tokens_exec [OF _ loc ex] by (simp add: sem_inv_def)
    show "sem_covered m' q' (ls[t := l])"
      using I sem_covered_exec [OF _ wf _ _ _ loc ex kr] len t n by (simp add: sem_inv_def)
    show "\<forall>u < length (ls[t := l]). sem_local (ls[t := l] ! u)"
      using I sem_local_exec [OF loc ex] unfolding sem_inv_def by (intro all_nth_update) auto
  qed
next
  fix m q ls t assume I: "sem_inv desired m q ls" and t: "t \<in> set q"
  let ?q = "filter (\<lambda>u. u \<noteq> t) q"
  have "length ?q \<le> length q" by (rule length_filter_le)
  moreover have "unat (sem_count m) + length q \<le> wsum sem_pending ls + cnt sem_acquiring ls"
    using I t by (auto simp: sem_inv_def sem_covered_def)
  ultimately have "sem_covered m ?q ls" unfolding sem_covered_def by linarith
  with I show "sem_inv desired m ?q ls" by (simp add: sem_inv_def)
qed

lemma sem_reachable_facts:
  assumes "sem_reachable desired n s"
  shows "length (pcs s) = n" and "sem.queue_wf s"
  using assms sem.reachable_length sem.reachable_queue_wf
  unfolding sem_step_def sem_init_def by blast+

section \<open>A thread in a call finds the token\<close>

lemma sem_acquirer_runs:
  assumes l: "sem_acquiring l" and c: "0 < sem_count m"
  shows "\<exists>k m' l'. plain_run sem_exec k m l = Some (m', l') \<and> g_acquired m' = Suc (g_acquired m)"
proof -
  let ?m = "m\<lparr>sem_count := sem_count m - 1, g_acquired := g_acquired m + 1\<rparr>"
  have cas: "plain_run sem_exec 1 m (SemTryCas site (sem_count m)) = Some (?m, sem_true site)" for site
    by simp
  have load: "plain_run sem_exec 2 m (SemTryLoad site) = Some (?m, sem_true site)" for site
    using c by (simp add: numeral_2_eq_2)
  have loop: "plain_run sem_exec 2 m (sem_loop timed) = Some (?m, sem_true (if timed then ForLoop else AcqLoop))"
    for timed unfolding sem_loop_def by (rule load)
  have fin: ?thesis if "plain_run sem_exec k m l = Some (?m, l')" for k l' using that by fastforce
  have check: "plain_run sem_exec 3 m (SemCheck timed) =
      Some (?m, sem_true (if timed then ForLoop else AcqLoop))" for timed
  proof -
    have "sem_exec m (SemCheck timed) = Some (m, sem_loop timed, KNone)"
      using c by (auto simp: Let_def)
    from plain_run_step [OF this loop] show ?thesis by simp
  qed
  show ?thesis
  proof (cases l)
    case (SemTryLoad site)
    then show ?thesis by (intro fin [of 2]) (simp only: load)
  next
    case (SemTryCas site e)
    show ?thesis
    proof (cases "sem_count m = e")
      case True
      with SemTryCas cas have "plain_run sem_exec 1 m l = Some (?m, sem_true site)" by simp
      then show ?thesis by (rule fin)
    next
      case False
      then have "sem_exec m l = Some (m, SemTryCas site (sem_count m), KNone)"
        using SemTryCas c by simp
      from plain_run_step [OF this cas] show ?thesis by (rule fin)
    qed
  next
    case SemNow
    then have "sem_exec m l = Some (m, SemCheck True, KNone)" by simp
    from plain_run_step [OF this check] show ?thesis by (rule fin)
  next
    case (SemCheck timed)
    then show ?thesis by (intro fin [of 3]) (simp only: check)
  next
    case (SemWait timed)
    then have "sem_exec m l = Some (m, sem_loop timed, KNone)" using c by simp
    from plain_run_step [OF this loop] show ?thesis by (rule fin)
  next
    case (SemAsleep timed)
    then have "sem_exec m l = Some (m, sem_loop timed, KNone)" by simp
    from plain_run_step [OF this loop] show ?thesis by (rule fin)
  qed (use l in auto)
qed

lemma sem_system_acquires:
  assumes "t < length ls" "t \<notin> set q" "sem_acquiring (ls ! t)" "0 < sem_count m"
  shows "\<exists>sched s'. run sem_step (steps sched) \<lparr>shm = m, waitq = q, pcs = ls\<rparr> = Some s' \<and>
    g_acquired (shm s') = Suc (g_acquired m)"
proof -
  obtain k m' l' where "plain_run sem_exec k m (ls ! t) = Some (m', l')"
    and g: "g_acquired m' = Suc (g_acquired m)"
    using sem_acquirer_runs assms by blast
  then have "run sem_step (steps (replicate k (t, []))) \<lparr>shm = m, waitq = q, pcs = ls\<rparr> =
      Some \<lparr>shm = m', waitq = q, pcs = ls[t := l']\<rparr>"
    unfolding sem_step_def steps_simps using assms by (intro plain_run_system)
  with g show ?thesis by fastforce
qed

section \<open>Properties\<close>

text \<open>One token for three threads: two of them go to sleep, then a release of two tokens.\<close>

definition sem_demo :: "sem_op act list" where
  "sem_demo = [Invoke 0 SemAcquire, Step 0 [], Step 0 [], Invoke 1 SemAcquire, Invoke 2 SemTryAcquireFor] @
     replicate 36 (Step 1 []) @ replicate 21 (Step 2 []) @ [Invoke 0 (SemRelease 2), Step 0 []]"

definition sem_demo_state :: "(sem_mem, sem_pc) fsys" where
  "sem_demo_state = \<lparr>shm = \<lparr>sem_count = 2, g_released = 2, g_acquired = 1\<rparr>, waitq = [1, 2],
     pcs = [SemWake 2, SemAsleep False, SemAsleep True]\<rparr>"

lemma sem_demo_reachable: "sem_reachable 1 3 sem_demo_state"
  by (rule run_reachable [of _ sem_demo]) code_simp

text \<open>
  Token conservation: in every reachable state, as long as fewer than \<open>2 ^ 32\<close> tokens were
  ever put in, the counter plus the acquisitions made is the initial count plus the tokens
  released; no acquisition is made without a token, and none is lost.
\<close>
theorem sem_token_conservation:
  assumes "sem_reachable desired n s" and "n < 2 ^ 31"
    and "unat desired + g_released (shm s) < 2 ^ 32"
  shows "unat (sem_count (shm s)) + g_acquired (shm s) = unat desired + g_released (shm s)"
  using sem_invariant [OF assms(1,2)] assms(3) by (simp add: sem_inv_def sem_tokens_def)

theorem sem_token_conservation_witness:
  "unat (sem_count (shm sem_demo_state)) + g_acquired (shm sem_demo_state) = 1 + 2"
  using sem_token_conservation [OF sem_demo_reachable] by (simp add: sem_demo_state_def)

text \<open>
  C16. No stranded sleeper: if somebody sleeps in the semaphore, then the tokens present plus the
  sleepers are covered by the wake-ups that releasing threads still have to issue and the threads
  inside a call; so once all others have returned, a thread stays asleep only at count zero.
\<close>
theorem sem_no_stranded_sleeper:
  assumes reach: "sem_reachable desired n s" and n: "n < 2 ^ 31" and q: "waitq s \<noteq> []"
  shows "unat (sem_count (shm s)) + length (waitq s) \<le>
      wsum sem_pending (pcs s) + cnt sem_acquiring (pcs s) \<and>
    ((\<forall>t < n. t \<in> set (waitq s) \<or> sem_outside (pcs s ! t)) \<longrightarrow> sem_count (shm s) = 0)"
proof -
  have cov: "unat (sem_count (shm s)) + length (waitq s) \<le>
      wsum sem_pending (pcs s) + cnt sem_acquiring (pcs s)"
    using sem_invariant [OF reach n] q by (simp add: sem_inv_def sem_covered_def)
  have len: "length (pcs s) = n" and wf: "sem.queue_wf s"
    by (rule sem_reachable_facts [OF reach])+
  have "sem_count (shm s) = 0" if quiet: "\<forall>t < n. t \<in> set (waitq s) \<or> sem_outside (pcs s ! t)"
  proof -
    have "sem_pending (pcs s ! t) = 0" if "t < length (pcs s)" for t
      using quiet that wf len by (auto simp: sem.queue_wf_def elim!: sem_asleep.elims allE [of _ t])
    then have "wsum sem_pending (pcs s) = 0" by (rule wsum_0)
    moreover have "{t. t < n \<and> sem_acquiring (pcs s ! t)} \<subseteq> set (waitq s)" using quiet by auto
    then have "cnt sem_acquiring (pcs s) \<le> length (waitq s)"
      using wf len by (auto simp: cnt_card sem.queue_wf_def distinct_card [symmetric] intro: card_mono)
    ultimately have "unat (sem_count (shm s)) = 0" using cov by linarith
    then show ?thesis by (simp add: unat_eq_zero)
  qed
  with cov show ?thesis by blast
qed

theorem sem_no_stranded_sleeper_witness:
  "unat (sem_count (shm sem_demo_state)) + length (waitq sem_demo_state) \<le>
     wsum sem_pending (pcs sem_demo_state) + cnt sem_acquiring (pcs sem_demo_state)"
  using sem_no_stranded_sleeper [OF sem_demo_reachable] by (simp add: sem_demo_state_def)

text \<open>
  No lost wake-up: whenever the count is positive and some thread is inside \<open>acquire\<close>,
  \<open>try_acquire\<close> or \<open>try_acquire_for\<close>, even if all of them are asleep, the system can go on to
  an acquisition.
\<close>
theorem sem_no_lost_wakeup:
  assumes reach: "sem_reachable desired n s" and n: "n < 2 ^ 31"
    and c: "0 < sem_count (shm s)" and t: "t < n" "sem_acquiring (pcs s ! t)"
  shows "\<exists>sched s'. run sem_step (steps sched) s = Some s' \<and> g_acquired (shm s') = Suc (g_acquired (shm s))"
proof -
  obtain m q ls where s: "s = \<lparr>shm = m, waitq = q, pcs = ls\<rparr>" by (cases s) auto
  have len: "length ls = n" and wf: "sem.queue_wf s" using sem_reachable_facts [OF reach] s by simp_all
  have dq: "distinct q" using wf s by (simp add: sem.queue_wf_def)
  show ?thesis
  proof (cases "\<exists>u < n. sem_acquiring (ls ! u) \<and> u \<notin> set q")
    case True
    then show ?thesis using sem_system_acquires [of _ ls q m] len c s by auto
  next
    case False
    then have tq: "t \<in> set q" and "{u. u < n \<and> sem_acquiring (ls ! u)} \<subseteq> set q" using t s by auto
    then have "cnt sem_acquiring ls \<le> length q"
      using dq len by (auto simp: cnt_card distinct_card [symmetric] intro: card_mono)
    moreover have "unat (sem_count m) + length q \<le> wsum sem_pending ls + cnt sem_acquiring ls"
      using sem_invariant [OF reach n] tq s by (auto simp: sem_inv_def sem_covered_def)
    moreover have "0 < unat (sem_count m)" using c s by (simp add: word_less_nat_alt)
    ultimately have "wsum sem_pending ls \<noteq> 0" by linarith
    then obtain v where v: "v < n" "sem_pending (ls ! v) \<noteq> 0" using wsum_pos [of sem_pending ls] len by auto
    then obtain u where u: "ls ! v = SemWake u" by (cases "ls ! v") auto
    let ?k = "unat (wake_count u)"
    have "0 < u" using u v by (cases "u = 0") (simp_all add: word_gt_0)
    then have k: "0 < ?k" by (simp add: wake_count_def word_gt_0 unat_gt_0)
    have qn: "q \<noteq> []" using tq by auto
    have ex: "sem_exec m (ls ! v) = Some (m, SemOut None, KWake ?k)" using u by (simp add: KWakeCount_def)
    obtain q' where stp: "sem_step (Step v (take ?k q)) s =
        Some \<lparr>shm = m, waitq = q', pcs = ls[v := SemOut None]\<rparr>"
      and h: "hd q < n" "sem_asleep (ls[v := SemOut None] ! hd q)" "hd q \<notin> set q'"
      using sem.wake_takes_head [OF wf [unfolded s] qn k _ _ ex] v(1) u len s
      unfolding sem_step_def by auto
    have "sem_acquiring (ls[v := SemOut None] ! hd q)" using h(2) by (auto elim!: sem_asleep.elims)
    from sem_system_acquires [OF _ h(3) this, of m] h(1) len c s obtain sched s' where
      "run sem_step (steps sched) \<lparr>shm = m, waitq = q', pcs = ls[v := SemOut None]\<rparr> = Some s'"
      "g_acquired (shm s') = Suc (g_acquired m)" by auto
    with stp s show ?thesis
      by (intro exI [of _ "(v, take ?k q) # sched"] exI [of _ s']) simp
  qed
qed

theorem sem_no_lost_wakeup_witness:
  "\<exists>sched s'. run sem_step (steps sched) sem_demo_state = Some s' \<and> g_acquired (shm s') = Suc 1"
  using sem_no_lost_wakeup [OF sem_demo_reachable, of 1] by (simp add: sem_demo_state_def)

end
