(* ===== verification/Latch.thy ===== *)
theory Latch
  imports Futex
begin

text \<open>
  \<^verbatim>\<open>psync_latch.h\<close>: the count-down latch. Shown: nobody is let through before the counter has
  been counted down, and no waiter sleeps past that.
\<close>

section \<open>The latch\<close>

text \<open>\<open>g_down\<close> records the total counted down so far.\<close>

record latch_mem =
  latch_count :: u32
  g_down :: nat

text \<open>
  \<open>LaOut\<close> is a thread outside, with the result of its last call. The flag of \<open>LaSub\<close> and
  \<open>LaWake\<close> says that the count-down is part of \<open>arrive_and_wait\<close>; the flag of the waiting points
  distinguishes \<open>wait_for\<close> from \<open>wait\<close>.
\<close>

datatype latch_pc =
    LaOut "bool option"
  | LaSub u32 bool
  | LaWake bool
  | LaTry
  | LaTimedTry
  | LaLoad bool
  | LaNow u32
  | LaLast
  | LaWait bool u32
  | LaAsleep bool

text \<open>\<open>LatchDeadline\<close> is the clock's answer that the deadline of a \<open>wait_for\<close> has passed.\<close>

datatype latch_op =
  LatchCountDown u32 | LatchTryWait | LatchWait | LatchArriveAndWait u32 | LatchWaitFor | LatchDeadline

definition latch_outside :: "latch_pc \<Rightarrow> bool" where
  "latch_outside l \<longleftrightarrow> (case l of LaOut _ \<Rightarrow> True | _ \<Rightarrow> False)"

fun latch_start :: "latch_op \<Rightarrow> latch_pc \<Rightarrow> latch_pc option" where
  "latch_start (LatchCountDown n) l =
     (if latch_outside l \<and> 0 < n then Some (LaSub n False) else None)"
| "latch_start LatchTryWait l = (if latch_outside l then Some LaTry else None)"
| "latch_start LatchWait l = (if latch_outside l then Some (LaLoad False) else None)"
| "latch_start (LatchArriveAndWait n) l =
     (if latch_outside l \<and> 0 < n then Some (LaSub n True) else None)"
| "latch_start LatchWaitFor l = (if latch_outside l then Some LaTimedTry else None)"
| "latch_start LatchDeadline l = (case l of LaNow _ \<Rightarrow> Some LaLast | _ \<Rightarrow> None)"

definition latch_after :: "bool \<Rightarrow> latch_pc" where
  "latch_after then_wait = (if then_wait then LaLoad False else LaOut None)"

fun latch_exec :: "latch_mem \<Rightarrow> latch_pc \<Rightarrow> (latch_mem \<times> latch_pc \<times> keff) option" where
  "latch_exec m (LaOut r) = None"
| "latch_exec m (LaSub n then_wait) =
     (let (old, c) = atomic_fetch_sub (latch_count m) n MO_acq_rel;
          m' = m\<lparr>latch_count := c, g_down := g_down m + unat n\<rparr>
      in if old \<le> n then Some (m', LaWake then_wait, KNone)
         else Some (m', latch_after then_wait, KNone))"
| "latch_exec m (LaWake then_wait) = Some (m, latch_after then_wait, KWakeAll)"
| "latch_exec m LaTry =
     Some (m, LaOut (Some (atomic_load (latch_count m) MO_acquire = 0)), KNone)"
| "latch_exec m LaTimedTry =
     (if atomic_load (latch_count m) MO_acquire = 0 then Some (m, LaOut (Some True), KNone)
      else Some (m, LaLoad True, KNone))"
| "latch_exec m (LaLoad timed) =
     (let current = atomic_load (latch_count m) MO_acquire
      in if current = 0 then Some (m, LaOut (if timed then Some True else None), KNone)
         else if timed then Some (m, LaNow current, KNone)
         else Some (m, LaWait False current, KNone))"
| "latch_exec m (LaNow current) = Some (m, LaWait True current, KNone)"
| "latch_exec m LaLast =
     Some (m, LaOut (Some (atomic_load (latch_count m) MO_acquire = 0)), KNone)"
| "latch_exec m (LaWait timed current) =
     (if latch_count m = current then Some (m, LaAsleep timed, KSleep)
      else Some (m, LaLoad timed, KNone))"
| "latch_exec m (LaAsleep timed) = Some (m, LaLoad timed, KNone)"

fun latch_asleep :: "latch_pc \<Rightarrow> bool" where
  "latch_asleep (LaAsleep _) = True"
| "latch_asleep _ = False"

definition latch_step :: "latch_op act \<Rightarrow> (latch_mem, latch_pc) fsys \<Rightarrow> (latch_mem, latch_pc) fsys option" where
  "latch_step = sys_step latch_exec latch_start"

definition latch_mem0 :: "u32 \<Rightarrow> latch_mem" where
  "latch_mem0 count = \<lparr>latch_count = count, g_down = 0\<rparr>"

definition latch_init :: "u32 \<Rightarrow> nat \<Rightarrow> (latch_mem, latch_pc) fsys" where
  "latch_init count n = sys_init (latch_mem0 count) (LaOut None) n"

abbreviation latch_reachable :: "u32 \<Rightarrow> nat \<Rightarrow> (latch_mem, latch_pc) fsys \<Rightarrow> bool" where
  "latch_reachable count n \<equiv> reachable latch_step (latch_init count n)"

text \<open>The points of \<open>wait\<close> and \<open>wait_for\<close>; when a sleep is justified; the points about to wake.\<close>

fun latch_waiting :: "latch_pc \<Rightarrow> bool" where
  "latch_waiting LaTimedTry = True"
| "latch_waiting (LaLoad _) = True"
| "latch_waiting (LaNow _) = True"
| "latch_waiting LaLast = True"
| "latch_waiting (LaWait _ _) = True"
| "latch_waiting (LaAsleep _) = True"
| "latch_waiting _ = False"

definition latch_blocked :: "latch_mem \<Rightarrow> latch_pc \<Rightarrow> bool" where
  "latch_blocked m l \<longleftrightarrow> (latch_asleep l \<longrightarrow> latch_count m \<noteq> 0)"

fun latch_waker :: "latch_pc \<Rightarrow> bool" where
  "latch_waker (LaWake _) = True"
| "latch_waker _ = False"

lemma latch_after_simps [simp]: "\<not> latch_asleep (latch_after b)" "\<not> latch_waker (latch_after b)"
  by (simp_all add: latch_after_def)

lemma latch_start_cases:
  assumes "latch_start op l = Some l'"
  shows "\<not> latch_asleep l'" and "\<not> latch_waker l"
  using assms by (cases op; cases l; auto simp: latch_outside_def split: if_splits)+

interpretation la: wake_all_client latch_exec latch_start latch_asleep "LaOut None" latch_blocked latch_waker
proof unfold_locales
  fix m l m' l' k assume "latch_exec m l = Some (m', l', k)"
  then show "latch_asleep l' \<longleftrightarrow> k = KSleep"
    by (cases l) (auto simp: Let_def KWakeAll_eq split: if_splits)
next
  fix m l assume "latch_waker l"
  then show "\<exists>l'. latch_exec m l = Some (m, l', KWakeAll)" by (cases l) auto
next
  fix m l m' l' j assume "latch_exec m l = Some (m', l', KWake j)"
  then show "KWake j = KWakeAll" by (cases l) (auto simp: Let_def split: if_splits)
qed (auto dest: latch_start_cases elim: latch_waker.elims)

section \<open>The invariant\<close>

definition latch_sum :: "u32 \<Rightarrow> latch_mem \<Rightarrow> bool" where
  "latch_sum count m \<longleftrightarrow>
     (g_down m \<le> unat count \<longrightarrow> unat (latch_count m) + g_down m = unat count)"

fun latch_local :: "latch_pc \<Rightarrow> bool" where
  "latch_local (LaNow c) = (c \<noteq> 0)"
| "latch_local (LaWait _ c) = (c \<noteq> 0)"
| "latch_local _ = True"

definition latch_inv :: "u32 \<Rightarrow> latch_mem \<Rightarrow> tid list \<Rightarrow> latch_pc list \<Rightarrow> bool" where
  "latch_inv count m q ls \<longleftrightarrow> latch_sum count m \<and> la.attended m q ls \<and>
     (\<forall>t < length ls. latch_local (ls ! t))"

lemma latch_local_exec: "latch_local l \<Longrightarrow> latch_exec m l = Some (m', l', k) \<Longrightarrow> latch_local l'"
  by (cases l) (auto simp: Let_def latch_after_def split: if_splits)

lemma latch_sum_exec: "latch_sum count m \<Longrightarrow> latch_exec m l = Some (m', l', k) \<Longrightarrow> latch_sum count m'"
  by (cases l) (auto simp: latch_sum_def Let_def unat_sub_small split: if_splits)

text \<open>The count-down that reaches zero is the one that wakes.\<close>

lemma latch_sub_wakes: "latch_exec m l = Some (m', l', KNone) \<Longrightarrow> latch_count m \<noteq> 0 \<Longrightarrow>
    latch_count m' = 0 \<Longrightarrow> latch_waker l'"
  by (cases l) (auto simp: Let_def split: if_splits)

lemma latch_invariant:
  assumes reach: "latch_reachable count n s" and n: "n < 2 ^ 31"
  shows "latch_inv count (shm s) (waitq s) (pcs s)"
proof (rule la.system_invariant [where I = "latch_inv count",
      OF reach [unfolded latch_step_def latch_init_def]])
  show "latch_inv count (latch_mem0 count) [] (replicate n (LaOut None))"
    by (simp add: latch_inv_def latch_sum_def latch_mem0_def)
next
  fix m q ls t op l
  assume "latch_inv count m q ls" "length ls = n" "t < n" "t \<notin> set q"
    and op: "latch_start op (ls ! t) = Some l"
  moreover have "latch_local l"
    using op by (cases op) (auto split: if_splits latch_pc.splits)
  ultimately show "latch_inv count m q (ls[t := l])"
    by (auto simp: latch_inv_def nth_list_update intro: la.attended_invoke)
next
  fix m q ls t ws m' l k q'
  assume I: "latch_inv count m q ls" and wf: "la.queue_wf \<lparr>shm = m, waitq = q, pcs = ls\<rparr>"
    and len: "length ls = n" and t: "t < n" "t \<notin> set q"
    and ex: "latch_exec m (ls ! t) = Some (m', l, k)" and kr: "kernel k t ws q = Some q'"
  have loc: "latch_local (ls ! t)" using I len t by (simp add: latch_inv_def)
  have move: "latch_waker l \<or> (\<forall>u \<in> set q. latch_blocked m (ls ! u) \<longrightarrow> latch_blocked m' (ls ! u))"
    if "k = KNone" using ex latch_sub_wakes that unfolding latch_blocked_def by blast
  have sleep: "m' = m \<and> latch_blocked m l" if "k = KSleep"
    using ex loc that by (cases "ls ! t") (auto simp: latch_blocked_def Let_def KWakeAll_eq split: if_splits)
  show "latch_inv count m' q' (ls[t := l])"
    unfolding latch_inv_def
  proof (intro conjI)
    show "latch_sum count m'" using I latch_sum_exec [OF _ ex] by (simp add: latch_inv_def)
    show "la.attended m' q' (ls[t := l])"
      using la.attended_exec [OF _ wf _ _ _ ex kr move sleep] I len t n by (simp add: latch_inv_def)
    show "\<forall>u < length (ls[t := l]). latch_local (ls[t := l] ! u)"
      using I latch_local_exec [OF loc ex] unfolding latch_inv_def by (intro all_nth_update) auto
  qed
qed (auto simp: latch_inv_def intro: la.attended_spurious)

lemma latch_reachable_facts:
  assumes "latch_reachable count n s"
  shows "length (pcs s) = n" and "la.queue_wf s"
  using assms la.reachable_length la.reachable_queue_wf
  unfolding latch_step_def latch_init_def by blast+

lemma latch_returns: "latch_exec m l = Some (m', LaOut r, k) \<Longrightarrow> latch_waiting l \<Longrightarrow> r \<noteq> Some False \<Longrightarrow>
    latch_count m = 0 \<and> m' = m"
  by (cases l) (auto simp: Let_def split: if_splits)

text \<open>On an open latch every waiter returns after a few steps of its own.\<close>

lemma latch_waiter_runs:
  assumes l: "latch_waiting l" "latch_local l" and c: "latch_count m = 0"
  shows "\<exists>k r. plain_run latch_exec k m l = Some (m, LaOut r) \<and> r \<noteq> Some False"
proof -
  have load: "plain_run latch_exec 1 m (LaLoad b) = Some (m, LaOut (if b then Some True else None))" for b
    using c by (simp add: Let_def)
  have wait: "plain_run latch_exec (Suc 1) m (LaWait b e) = Some (m, LaOut (if b then Some True else None))"
    if "e \<noteq> 0" for b e using plain_run_step [of latch_exec m "LaWait b e" m "LaLoad b", OF _ load] that c by simp
  show ?thesis
  proof (cases l)
    case LaTimedTry
    with c show ?thesis by (intro exI [of _ 1] exI [of _ "Some True"]) simp
  next
    case (LaLoad b)
    with load show ?thesis by (intro exI [of _ 1] exI [of _ "if b then Some True else None"]) simp
  next
    case (LaNow e)
    with l have "plain_run latch_exec (Suc (Suc 1)) m l = Some (m, LaOut (Some True))"
      using plain_run_step [of latch_exec m l m "LaWait True e", OF _ wait] by simp
    then show ?thesis by blast
  next
    case LaLast
    with c show ?thesis by (intro exI [of _ 1] exI [of _ "Some True"]) simp
  next
    case (LaWait b e)
    with l wait show ?thesis
      by (intro exI [of _ "Suc 1"] exI [of _ "if b then Some True else None"]) simp
  next
    case (LaAsleep b)
    with plain_run_step [of latch_exec m l m "LaLoad b", OF _ load]
    show ?thesis by (intro exI [of _ "Suc 1"] exI [of _ "if b then Some True else None"]) simp
  qed (use l in auto)
qed

section \<open>Properties\<close>

text \<open>A count of two: thread 1 waits in the kernel; thread 0 counts down twice, up to its wake.\<close>

definition latch_demo :: "latch_op act list" where
  "latch_demo = [Invoke 1 LatchWait, Step 1 [], Step 1 [], Invoke 0 (LatchCountDown 1), Step 0 [],
     Invoke 0 (LatchArriveAndWait 1), Step 0 []]"

definition latch_demo_state :: "(latch_mem, latch_pc) fsys" where
  "latch_demo_state = \<lparr>shm = \<lparr>latch_count = 0, g_down = 2\<rparr>, waitq = [1],
     pcs = [LaWake True, LaAsleep False]\<rparr>"

definition latch_demo_woken :: "(latch_mem, latch_pc) fsys" where
  "latch_demo_woken = \<lparr>shm = \<lparr>latch_count = 0, g_down = 2\<rparr>, waitq = [],
     pcs = [LaWake True, LaLoad False]\<rparr>"

lemma latch_demo_reachable: "latch_reachable 2 2 latch_demo_state"
  by (rule run_reachable [of _ latch_demo]) code_simp

lemma latch_demo_woken_reachable: "latch_reachable 2 2 latch_demo_woken"
  by (rule run_reachable [of _ "latch_demo @ [Spurious 1, Step 1 []]"]) code_simp

text \<open>
  Nobody passes early: as long as the latch is not counted down by more than its initial
  count, a thread that returns from \<open>wait\<close>, \<open>arrive_and_wait\<close> or (with true) from \<open>wait_for\<close>
  does so only when all of the initial count has been counted down.
\<close>
theorem latch_opens_after_count:
  assumes reach: "latch_reachable count n s" and n: "n < 2 ^ 31" and t: "t < n"
    and bound: "g_down (shm s) \<le> unat count"
    and stp: "latch_step (Step t ws) s = Some s'" and waits: "latch_waiting (pcs s ! t)"
    and out: "pcs s' ! t = LaOut r" "r \<noteq> Some False"
  shows "g_down (shm s) = unat count"
proof -
  have len: "length (pcs s) = n" by (rule latch_reachable_facts [OF reach])
  obtain m' l k where "latch_exec (shm s) (pcs s ! t) = Some (m', l, k)" "pcs s' ! t = l"
    using stp len t unfolding latch_step_def by (auto elim!: sys_stepE)
  with latch_returns [of "shm s" "pcs s ! t" m' r k] waits out have "latch_count (shm s) = 0" by simp
  with latch_invariant [OF reach n] bound show ?thesis by (simp add: latch_inv_def latch_sum_def)
qed

theorem latch_opens_after_count_witness:
  "\<exists>s'. latch_step (Step 1 []) latch_demo_woken = Some s' \<and> pcs s' ! 1 = LaOut None \<and>
     g_down (shm latch_demo_woken) = unat (2 :: u32)"
proof -
  let ?s = "\<lparr>shm = \<lparr>latch_count = 0, g_down = 2\<rparr>, waitq = [], pcs = [LaWake True, LaOut None]\<rparr>"
  have stp: "latch_step (Step 1 []) latch_demo_woken = Some ?s" by code_simp
  have "g_down (shm latch_demo_woken) = unat (2 :: u32)"
    by (rule latch_opens_after_count [OF latch_demo_woken_reachable _ _ _ stp, of None])
      (simp_all add: latch_demo_woken_def)
  with stp show ?thesis by simp
qed

text \<open>
  C32. No lost wake-up: once the counter is zero, every thread inside \<open>wait\<close> or \<open>wait_for\<close>, asleep
  or not, returns under a schedule of nothing but steps of the calls already under way: no new call,
  and no spurious wake-up, so that a sleeper is taken out by the count-down's own \<open>wake_all\<close>.
\<close>
theorem latch_no_lost_wakeup:
  assumes reach: "latch_reachable count n s" and n: "n < 2 ^ 31" and t: "t < n"
    and waits: "latch_waiting (pcs s ! t)" and zero: "latch_count (shm s) = 0"
  shows "\<exists>sched s' r. run latch_step (steps sched) s = Some s' \<and> pcs s' ! t = LaOut r \<and> r \<noteq> Some False"
proof -
  obtain m q ls where s: "s = \<lparr>shm = m, waitq = q, pcs = ls\<rparr>" by (cases s) auto
  have len: "length ls = n" and wf: "la.queue_wf s" using latch_reachable_facts [OF reach] s by simp_all
  have inv: "latch_inv count m q ls" using latch_invariant [OF reach n] s by simp
  then have "latch_local (ls ! t)" using t len by (simp add: latch_inv_def)
  with latch_waiter_runs [of "ls ! t" m] waits zero s
  obtain k r where run: "plain_run latch_exec k m (ls ! t) = Some (m, LaOut r)" and r: "r \<noteq> Some False"
    by auto
  have "t \<in> set q \<longrightarrow> \<not> latch_blocked m (ls ! t)"
    using wf zero s by (auto simp: latch_blocked_def la.queue_wf_def)
  then have "\<exists>sched s'. run latch_step (steps sched) s = Some s' \<and> shm s' = m \<and> pcs s' ! t = LaOut r"
    using la.attended_progress [OF _ _ _ _ _ run] inv wf len t n s
    unfolding latch_step_def latch_inv_def by auto
  with r show ?thesis by blast
qed

theorem latch_no_lost_wakeup_witness:
  "\<exists>sched s' r. run latch_step (steps sched) latch_demo_state = Some s' \<and> pcs s' ! 1 = LaOut r \<and> r \<noteq> Some False"
  by (rule latch_no_lost_wakeup [OF latch_demo_reachable]) (simp_all add: latch_demo_state_def)

end
