(* ===== verification/Once.thy ===== *)
theory Once
  imports Futex
begin

text \<open>
  \<^verbatim>\<open>psync_once.h\<close>: one-time initialization. What the callable does, succeed or throw, is
  the environment's choice. Shown: it succeeds at most once and runs in one thread at a time, a
  call returns only after it has succeeded, and nobody sleeps past a success or a failure.
\<close>

section \<open>The flag and \<open>call_once\<close>\<close>

definition ONCE_NEW :: u32 where "ONCE_NEW = 0"
definition ONCE_BUSY :: u32 where "ONCE_BUSY = 1"
definition ONCE_DONE :: u32 where "ONCE_DONE = 2"

lemmas once_consts = ONCE_NEW_def ONCE_BUSY_def ONCE_DONE_def

text \<open>\<open>g_done\<close> and \<open>g_thrown\<close> record how often the callable has succeeded and thrown.\<close>

record once_mem =
  once_state :: u32
  g_done :: nat
  g_thrown :: nat

datatype once_result = NotCalled | Returned | Threw

datatype once_pc =
    OnOut once_result
  | OnFast
  | OnCas
  | OnRun
  | OnStoreDone
  | OnStoreNew
  | OnWake once_result
  | OnWait
  | OnAsleep

text \<open>\<open>FnSucceeds\<close> and \<open>FnThrows\<close> are the end of the callable in the thread that runs it.\<close>

datatype once_op = CallOnce | FnSucceeds | FnThrows

definition once_outside :: "once_pc \<Rightarrow> bool" where
  "once_outside l \<longleftrightarrow> (case l of OnOut _ \<Rightarrow> True | _ \<Rightarrow> False)"

fun once_start :: "once_op \<Rightarrow> once_pc \<Rightarrow> once_pc option" where
  "once_start CallOnce l = (if once_outside l then Some OnFast else None)"
| "once_start FnSucceeds l = (if l = OnRun then Some OnStoreDone else None)"
| "once_start FnThrows l = (if l = OnRun then Some OnStoreNew else None)"

fun once_exec :: "once_mem \<Rightarrow> once_pc \<Rightarrow> (once_mem \<times> once_pc \<times> keff) option" where
  "once_exec m (OnOut r) = None"
| "once_exec m OnRun = None"
| "once_exec m OnFast =
     (if atomic_load (once_state m) MO_acquire = ONCE_DONE then Some (m, OnOut Returned, KNone)
      else Some (m, OnCas, KNone))"
| "once_exec m OnCas =
     (case atomic_compare_exchange (once_state m) ONCE_NEW ONCE_BUSY MO_acquire MO_relaxed of
        (True, c, _) \<Rightarrow> Some (m\<lparr>once_state := c\<rparr>, OnRun, KNone)
      | (False, c, expected) \<Rightarrow>
          if expected = ONCE_DONE then Some (m\<lparr>once_state := c\<rparr>, OnOut Returned, KNone)
          else Some (m\<lparr>once_state := c\<rparr>, OnWait, KNone))"
| "once_exec m OnStoreDone =
     Some (m\<lparr>once_state := atomic_store (once_state m) ONCE_DONE MO_release, g_done := g_done m + 1\<rparr>,
       OnWake Returned, KNone)"
| "once_exec m OnStoreNew =
     Some (m\<lparr>once_state := atomic_store (once_state m) ONCE_NEW MO_release, g_thrown := g_thrown m + 1\<rparr>,
       OnWake Threw, KNone)"
| "once_exec m (OnWake r) = Some (m, OnOut r, KWakeAll)"
| "once_exec m OnWait =
     (if once_state m = 1 then Some (m, OnAsleep, KSleep) else Some (m, OnCas, KNone))"
| "once_exec m OnAsleep = Some (m, OnCas, KNone)"

fun once_asleep :: "once_pc \<Rightarrow> bool" where
  "once_asleep OnAsleep = True"
| "once_asleep _ = False"

definition once_step :: "once_op act \<Rightarrow> (once_mem, once_pc) fsys \<Rightarrow> (once_mem, once_pc) fsys option" where
  "once_step = sys_step once_exec once_start"

definition once_mem0 :: once_mem where
  "once_mem0 = \<lparr>once_state = ONCE_NEW, g_done = 0, g_thrown = 0\<rparr>"

definition once_init :: "nat \<Rightarrow> (once_mem, once_pc) fsys" where
  "once_init n = sys_init once_mem0 (OnOut NotCalled) n"

abbreviation once_reachable :: "nat \<Rightarrow> (once_mem, once_pc) fsys \<Rightarrow> bool" where
  "once_reachable n \<equiv> reachable once_step (once_init n)"

text \<open>Who runs the callable (up to the store that ends it); who waits for its outcome.\<close>

fun once_runner :: "once_pc \<Rightarrow> bool" where
  "once_runner OnRun = True"
| "once_runner OnStoreDone = True"
| "once_runner OnStoreNew = True"
| "once_runner _ = False"

fun once_waiting :: "once_pc \<Rightarrow> bool" where
  "once_waiting OnFast = True"
| "once_waiting OnCas = True"
| "once_waiting OnWait = True"
| "once_waiting OnAsleep = True"
| "once_waiting _ = False"

definition once_blocked :: "once_mem \<Rightarrow> once_pc \<Rightarrow> bool" where
  "once_blocked m l \<longleftrightarrow> (once_asleep l \<longrightarrow> once_state m = ONCE_BUSY)"

fun once_waker :: "once_pc \<Rightarrow> bool" where
  "once_waker (OnWake _) = True"
| "once_waker _ = False"

lemma once_start_cases:
  assumes "once_start op l = Some l'"
  shows "\<not> once_asleep l'" and "\<not> once_waker l" and "once_runner l' = once_runner l"
    and "\<forall>r. l' \<noteq> OnOut r"
  using assms by (cases op; cases l; auto simp: once_outside_def split: if_splits)+

interpretation once: wake_all_client once_exec once_start once_asleep "OnOut NotCalled" once_blocked once_waker
proof unfold_locales
  fix m l m' l' k assume "once_exec m l = Some (m', l', k)"
  then show "once_asleep l' \<longleftrightarrow> k = KSleep" by (cases l) (auto simp: KWakeAll_eq split: if_splits)
next
  fix m l assume "once_waker l"
  then show "\<exists>l'. once_exec m l = Some (m, l', KWakeAll)" by (cases l) auto
next
  fix m l m' l' j assume "once_exec m l = Some (m', l', KWake j)"
  then show "KWake j = KWakeAll" by (cases l) (auto split: if_splits)
qed (auto dest: once_start_cases elim: once_waker.elims)

section \<open>The invariant\<close>

text \<open>
  The flag is 1 exactly while one thread runs the callable, and 2 exactly after its only success;
  a call that has returned found it 2.
\<close>

definition once_flag :: "once_mem \<Rightarrow> once_pc list \<Rightarrow> bool" where
  "once_flag m ls \<longleftrightarrow>
     (once_state m = ONCE_NEW \<and> cnt once_runner ls = 0 \<and> g_done m = 0 \<or>
      once_state m = ONCE_BUSY \<and> cnt once_runner ls = 1 \<and> g_done m = 0 \<or>
      once_state m = ONCE_DONE \<and> cnt once_runner ls = 0 \<and> g_done m = 1)"

definition once_inv :: "once_mem \<Rightarrow> tid list \<Rightarrow> once_pc list \<Rightarrow> bool" where
  "once_inv m q ls \<longleftrightarrow> once_flag m ls \<and> once.attended m q ls \<and>
     (\<forall>t < length ls. ls ! t = OnOut Returned \<or> ls ! t = OnWake Returned \<longrightarrow> once_state m = ONCE_DONE)"

lemma once_flag_exec:
  assumes "once_flag m ls" and t: "t < length ls" and ex: "once_exec m (ls ! t) = Some (m', l, k)"
  shows "once_flag m' (ls[t := l])"
proof -
  note c = cnt_update [OF t, of once_runner l]
  have one: "once_runner (ls ! t) \<Longrightarrow> 1 \<le> cnt once_runner ls" using cnt_ge1 [OF t] by blast
  show ?thesis
    using assms(1) ex c one
    by (cases "ls ! t") (auto simp: once_flag_def once_consts split: if_splits)
qed

text \<open>A flag once 2 stays 2; only the stores move it, and they are followed by a wake.\<close>

lemma once_exec_state:
  assumes "once_flag m ls" and t: "t < length ls" and ex: "once_exec m (ls ! t) = Some (m', l, k)"
  shows "once_state m = ONCE_DONE \<Longrightarrow> once_state m' = ONCE_DONE"
    and "l = OnOut Returned \<or> l = OnWake Returned \<Longrightarrow> ls ! t = OnWake Returned \<or> once_state m' = ONCE_DONE"
    and "once_state m = ONCE_BUSY \<Longrightarrow> once_state m' \<noteq> ONCE_BUSY \<Longrightarrow> once_waker l"
proof -
  have one: "once_runner (ls ! t) \<Longrightarrow> 1 \<le> cnt once_runner ls" using cnt_ge1 [OF t] by blast
  show "once_state m = ONCE_DONE \<Longrightarrow> once_state m' = ONCE_DONE"
    using assms(1) ex one by (cases "ls ! t") (auto simp: once_flag_def once_consts split: if_splits)
  show "l = OnOut Returned \<or> l = OnWake Returned \<Longrightarrow> ls ! t = OnWake Returned \<or> once_state m' = ONCE_DONE"
    using ex by (cases "ls ! t") (auto simp: once_consts split: if_splits)
  show "once_state m = ONCE_BUSY \<Longrightarrow> once_state m' \<noteq> ONCE_BUSY \<Longrightarrow> once_waker l"
    using ex by (cases "ls ! t") (auto simp: once_consts split: if_splits)
qed

lemma once_invariant:
  assumes reach: "once_reachable n s" and n: "n < 2 ^ 31"
  shows "once_inv (shm s) (waitq s) (pcs s)"
proof (rule once.system_invariant [where I = once_inv, OF reach [unfolded once_step_def once_init_def]])
  show "once_inv once_mem0 [] (replicate n (OnOut NotCalled))"
    by (simp add: once_inv_def once_flag_def once_mem0_def once_consts cnt_simps)
next
  fix m q ls t op l
  assume I: "once_inv m q ls" and t: "length ls = n" "t < n" "t \<notin> set q"
    and op: "once_start op (ls ! t) = Some l"
  note st = once_start_cases [OF op]
  have "l \<noteq> OnWake r" for r using op by (cases op) (auto split: if_splits)
  with I t st op show "once_inv m q (ls[t := l])"
    by (auto simp: once_inv_def once_flag_def cnt_simps nth_list_update intro: once.attended_invoke)
next
  fix m q ls t ws m' l k q'
  assume I: "once_inv m q ls" and wf: "once.queue_wf \<lparr>shm = m, waitq = q, pcs = ls\<rparr>"
    and len: "length ls = n" and t: "t < n" "t \<notin> set q"
    and ex: "once_exec m (ls ! t) = Some (m', l, k)" and kr: "kernel k t ws q = Some q'"
  have flag: "once_flag m ls" using I by (simp add: once_inv_def)
  note st = once_exec_state [OF flag _ ex]
  have move: "once_waker l \<or> (\<forall>u \<in> set q. once_blocked m (ls ! u) \<longrightarrow> once_blocked m' (ls ! u))"
    using st(3) len t unfolding once_blocked_def by blast
  have sleep: "m' = m \<and> once_blocked m l" if "k = KSleep"
    using ex that by (cases "ls ! t") (auto simp: once_blocked_def once_consts KWakeAll_eq split: if_splits)
  show "once_inv m' q' (ls[t := l])"
    unfolding once_inv_def
  proof (intro conjI allI impI)
    show "once_flag m' (ls[t := l])" using once_flag_exec [OF flag _ ex] len t by simp
    show "once.attended m' q' (ls[t := l])"
      using once.attended_exec [OF _ wf _ _ _ ex kr move sleep] I len t n by (simp add: once_inv_def)
    fix u assume "u < length (ls[t := l])" "ls[t := l] ! u = OnOut Returned \<or> ls[t := l] ! u = OnWake Returned"
    then show "once_state m' = ONCE_DONE"
      using I st(1,2) len t by (cases "u = t") (auto simp: once_inv_def)
  qed
qed (auto simp: once_inv_def intro: once.attended_spurious)

lemma once_reachable_facts:
  assumes "once_reachable n s"
  shows "length (pcs s) = n" and "once.queue_wf s"
  using assms once.reachable_length once.reachable_queue_wf
  unfolding once_step_def once_init_def by blast+

text \<open>While nobody runs the callable, a caller either returns or becomes the one that runs it.\<close>

lemma once_waiter_runs:
  assumes l: "once_waiting l" and st: "once_state m = ONCE_NEW \<or> once_state m = ONCE_DONE"
  shows "\<exists>k m' l'. plain_run once_exec k m l = Some (m', l') \<and> (l' = OnOut Returned \<or> l' = OnRun)"
proof -
  have "\<exists>m' l'. plain_run once_exec 1 m OnCas = Some (m', l') \<and> (l' = OnOut Returned \<or> l' = OnRun)"
    using st by (auto simp: once_consts)
  then obtain m' l' where cas: "plain_run once_exec 1 m OnCas = Some (m', l')"
    and l': "l' = OnOut Returned \<or> l' = OnRun" by blast
  have go: ?thesis if "once_exec m l = Some (m, OnCas, KNone)"
    using plain_run_step [OF that cas] l' by blast
  show ?thesis
  proof (cases l)
    case OnFast
    show ?thesis
    proof (cases "once_state m = ONCE_DONE")
      case True
      with OnFast have "plain_run once_exec 1 m l = Some (m, OnOut Returned)" by simp
      then show ?thesis by blast
    next
      case False
      with OnFast go show ?thesis by simp
    qed
  next
    case OnCas
    with cas l' show ?thesis by blast
  next
    case OnWait
    with go st show ?thesis by (auto simp: once_consts)
  next
    case OnAsleep
    with go show ?thesis by simp
  qed (use l in auto)
qed

section \<open>Properties\<close>

text \<open>Thread 0 runs the callable; thread 1 sleeps; the callable throws, up to the wake.\<close>

definition once_demo :: "once_op act list" where
  "once_demo = [Invoke 0 CallOnce, Step 0 [], Step 0 [], Invoke 1 CallOnce, Step 1 [], Step 1 [],
     Step 1 [], Invoke 0 FnThrows, Step 0 []]"

definition once_demo_state :: "(once_mem, once_pc) fsys" where
  "once_demo_state = \<lparr>shm = \<lparr>once_state = 0, g_done = 0, g_thrown = 1\<rparr>, waitq = [1],
     pcs = [OnWake Threw, OnAsleep]\<rparr>"

definition once_demo_done :: "(once_mem, once_pc) fsys" where
  "once_demo_done = \<lparr>shm = \<lparr>once_state = 2, g_done = 1, g_thrown = 1\<rparr>, waitq = [],
     pcs = [OnWake Threw, OnWake Returned]\<rparr>"

lemma once_demo_reachable: "once_reachable 2 once_demo_state"
  by (rule run_reachable [of _ once_demo]) code_simp

lemma once_demo_done_reachable: "once_reachable 2 once_demo_done"
  by (rule run_reachable [of _ "once_demo @ [Spurious 1, Step 1 [], Step 1 [], Invoke 1 FnSucceeds, Step 1 []]"])
    code_simp

text \<open>
  C21. Once: in every reachable state the callable has succeeded at most once, at most one thread
  is running it, nobody runs it after the success, and every call that has returned normally did
  so after the success.
\<close>
theorem once_at_most_once:
  assumes "once_reachable n s" and "n < 2 ^ 31"
  shows "g_done (shm s) + cnt once_runner (pcs s) \<le> 1 \<and>
    (\<forall>t < n. pcs s ! t = OnOut Returned \<longrightarrow> g_done (shm s) = 1)"
proof -
  have inv: "once_inv (shm s) (waitq s) (pcs s)" using once_invariant [OF assms] .
  then have flag: "once_flag (shm s) (pcs s)" by (simp add: once_inv_def)
  then have "g_done (shm s) + cnt once_runner (pcs s) \<le> 1" by (auto simp: once_flag_def)
  moreover have "g_done (shm s) = 1" if "once_state (shm s) = ONCE_DONE"
    using flag that by (auto simp: once_flag_def once_consts)
  ultimately show ?thesis
    using inv once_reachable_facts(1) [OF assms(1)] unfolding once_inv_def by blast
qed

theorem once_at_most_once_witness:
  "g_done (shm once_demo_done) + cnt once_runner (pcs once_demo_done) \<le> 1"
  using once_at_most_once [OF once_demo_done_reachable] by simp

text \<open>
  No lost wake-up: whenever nobody runs the callable, because it has succeeded or because it
  has thrown, every thread inside \<open>call_once\<close>, asleep or not, can go on to return or to run the
  callable itself.
\<close>
theorem once_no_lost_wakeup:
  assumes reach: "once_reachable n s" and n: "n < 2 ^ 31" and t: "t < n"
    and waits: "once_waiting (pcs s ! t)" and idle: "cnt once_runner (pcs s) = 0"
  shows "\<exists>sched s'. run once_step (steps sched) s = Some s' \<and> (pcs s' ! t = OnOut Returned \<or> pcs s' ! t = OnRun)"
proof -
  obtain m q ls where s: "s = \<lparr>shm = m, waitq = q, pcs = ls\<rparr>" by (cases s) auto
  have len: "length ls = n" and wf: "once.queue_wf s" using once_reachable_facts [OF reach] s by simp_all
  have inv: "once_inv m q ls" using once_invariant [OF reach n] s by simp
  then have st: "once_state m = ONCE_NEW \<or> once_state m = ONCE_DONE"
    using idle s by (auto simp: once_inv_def once_flag_def)
  obtain k m' l' where run: "plain_run once_exec k m (ls ! t) = Some (m', l')"
    and l': "l' = OnOut Returned \<or> l' = OnRun"
    using once_waiter_runs [OF _ st, of "ls ! t"] waits s by auto
  have "t \<in> set q \<longrightarrow> \<not> once_blocked m (ls ! t)"
    using wf st s by (auto simp: once_blocked_def once.queue_wf_def once_consts)
  then have "\<exists>sched s'. run once_step (steps sched) s = Some s' \<and> shm s' = m' \<and> pcs s' ! t = l'"
    using once.attended_progress [OF _ _ _ _ _ run] inv wf len t n s
    unfolding once_step_def once_inv_def by auto
  with l' show ?thesis by blast
qed

theorem once_no_lost_wakeup_witness:
  "\<exists>sched s'. run once_step (steps sched) once_demo_state = Some s' \<and> (pcs s' ! 1 = OnOut Returned \<or> pcs s' ! 1 = OnRun)"
  by (rule once_no_lost_wakeup [OF once_demo_reachable]) (simp_all add: once_demo_state_def cnt_def)

end
