(* ===== verification/Baton.thy ===== *)
theory Baton
  imports Futex
begin

text \<open>
  \<^verbatim>\<open>psync_baton.h\<close>: the 4-byte event. Shown: nobody returns from a wait before a post; as long
  as the baton is not reset no waiter sleeps past a post; and a reset while somebody sleeps strands
  the sleeper, whatever is posted afterwards, until somebody begins a new wait.
\<close>

section \<open>The baton\<close>

definition kEmpty :: u32 where "kEmpty = 0"
definition kWaiting :: u32 where "kWaiting = 1"
definition kReady :: u32 where "kReady = 2"

lemmas baton_consts = kEmpty_def kWaiting_def kReady_def

text \<open>\<open>g_posts\<close> and \<open>g_resets\<close> record how often the baton has been posted and reset.\<close>

record baton_mem =
  baton_state :: u32
  g_posts :: nat
  g_resets :: nat

text \<open>
  \<open>BtOut\<close> is a thread outside, with the result of its last call. The flag of the waiting points
  distinguishes \<open>wait_for\<close> (16 spins, a deadline) from \<open>wait\<close> (32 spins).
\<close>

datatype baton_pc =
    BtOut "bool option"
  | BtPost
  | BtWake
  | BtTry
  | BtFast bool
  | BtSpin bool nat
  | BtMark bool
  | BtLoad bool
  | BtNow
  | BtLast
  | BtWait bool
  | BtAsleep bool
  | BtReset

datatype baton_op = BatonPost | BatonWait | BatonTryWait | BatonWaitFor | BatonReset | BatonIsReady |
  BatonDeadline

definition baton_outside :: "baton_pc \<Rightarrow> bool" where
  "baton_outside l \<longleftrightarrow> (case l of BtOut _ \<Rightarrow> True | _ \<Rightarrow> False)"

fun baton_start :: "baton_op \<Rightarrow> baton_pc \<Rightarrow> baton_pc option" where
  "baton_start BatonPost l = (if baton_outside l then Some BtPost else None)"
| "baton_start BatonWait l = (if baton_outside l then Some (BtFast False) else None)"
| "baton_start BatonTryWait l = (if baton_outside l then Some BtTry else None)"
| "baton_start BatonWaitFor l = (if baton_outside l then Some (BtFast True) else None)"
| "baton_start BatonReset l = (if baton_outside l then Some BtReset else None)"
| "baton_start BatonIsReady l = (if baton_outside l then Some BtTry else None)"
| "baton_start BatonDeadline l = (if l = BtNow then Some BtLast else None)"

definition baton_return :: "bool \<Rightarrow> baton_pc" where
  "baton_return timed = BtOut (if timed then Some True else None)"

definition baton_spins :: "bool \<Rightarrow> nat" where
  "baton_spins timed = (if timed then 16 else 32)"

fun baton_exec :: "baton_mem \<Rightarrow> baton_pc \<Rightarrow> (baton_mem \<times> baton_pc \<times> keff) option" where
  "baton_exec m (BtOut r) = None"
| "baton_exec m BtPost =
     (let (prev, c) = atomic_exchange (baton_state m) kReady MO_release;
          m' = m\<lparr>baton_state := c, g_posts := g_posts m + 1\<rparr>
      in if prev = kWaiting then Some (m', BtWake, KNone) else Some (m', BtOut None, KNone))"
| "baton_exec m BtWake = Some (m, BtOut None, KWakeAll)"
| "baton_exec m BtTry =
     Some (m, BtOut (Some (atomic_load (baton_state m) MO_acquire = kReady)), KNone)"
| "baton_exec m (BtFast timed) =
     (if atomic_load (baton_state m) MO_acquire = kReady then Some (m, baton_return timed, KNone)
      else Some (m, BtSpin timed 0, KNone))"
| "baton_exec m (BtSpin timed i) =
     (if atomic_load (baton_state m) MO_acquire = kReady then Some (m, baton_return timed, KNone)
      else if i + 1 < baton_spins timed then Some (m, BtSpin timed (i + 1), KNone)
      else Some (m, BtMark timed, KNone))"
| "baton_exec m (BtMark timed) =
     (case atomic_compare_exchange (baton_state m) kEmpty kWaiting MO_relaxed MO_relaxed of
        (_, c, _) \<Rightarrow> Some (m\<lparr>baton_state := c\<rparr>, BtLoad timed, KNone))"
| "baton_exec m (BtLoad timed) =
     (if atomic_load (baton_state m) MO_acquire \<noteq> kReady
      then Some (m, if timed then BtNow else BtWait False, KNone)
      else Some (m, baton_return timed, KNone))"
| "baton_exec m BtNow = Some (m, BtWait True, KNone)"
| "baton_exec m BtLast =
     Some (m, BtOut (Some (atomic_load (baton_state m) MO_acquire = kReady)), KNone)"
| "baton_exec m (BtWait timed) =
     (if baton_state m = kWaiting then Some (m, BtAsleep timed, KSleep)
      else Some (m, BtLoad timed, KNone))"
| "baton_exec m (BtAsleep timed) = Some (m, BtLoad timed, KNone)"
| "baton_exec m BtReset =
     Some (m\<lparr>baton_state := atomic_store (baton_state m) kEmpty MO_relaxed, g_resets := g_resets m + 1\<rparr>,
       BtOut None, KNone)"

fun baton_asleep :: "baton_pc \<Rightarrow> bool" where
  "baton_asleep (BtAsleep _) = True"
| "baton_asleep _ = False"

definition baton_step :: "baton_op act \<Rightarrow> (baton_mem, baton_pc) fsys \<Rightarrow> (baton_mem, baton_pc) fsys option" where
  "baton_step = sys_step baton_exec baton_start"

definition baton_mem0 :: baton_mem where
  "baton_mem0 = \<lparr>baton_state = kEmpty, g_posts = 0, g_resets = 0\<rparr>"

definition baton_init :: "nat \<Rightarrow> (baton_mem, baton_pc) fsys" where
  "baton_init n = sys_init baton_mem0 (BtOut None) n"

abbreviation baton_reachable :: "nat \<Rightarrow> (baton_mem, baton_pc) fsys \<Rightarrow> bool" where
  "baton_reachable n \<equiv> reachable baton_step (baton_init n)"

fun baton_waits :: "baton_pc \<Rightarrow> bool" where
  "baton_waits (BtFast _) = True"
| "baton_waits (BtSpin _ _) = True"
| "baton_waits (BtMark _) = True"
| "baton_waits (BtLoad _) = True"
| "baton_waits BtNow = True"
| "baton_waits BtLast = True"
| "baton_waits (BtWait _) = True"
| "baton_waits (BtAsleep _) = True"
| "baton_waits _ = False"

text \<open>A sleep is justified while the word says "waiting" (or the baton has been reset, see below).\<close>

definition baton_blocked :: "baton_mem \<Rightarrow> baton_pc \<Rightarrow> bool" where
  "baton_blocked m l \<longleftrightarrow> (baton_asleep l \<longrightarrow> baton_state m = kWaiting \<or> 0 < g_resets m)"

fun baton_waker :: "baton_pc \<Rightarrow> bool" where
  "baton_waker BtWake = True"
| "baton_waker _ = False"

lemma baton_start_cases:
  assumes "baton_start op l = Some l'"
  shows "\<not> baton_asleep l'" and "\<not> baton_waker l"
  using assms by (cases op; cases l; auto simp: baton_outside_def split: if_splits)+

lemma baton_return_simps [simp]: "\<not> baton_asleep (baton_return b)"
  by (simp add: baton_return_def)

interpretation bt: wake_all_client baton_exec baton_start baton_asleep "BtOut None" baton_blocked baton_waker
proof unfold_locales
  fix m l m' l' k assume "baton_exec m l = Some (m', l', k)"
  then show "baton_asleep l' \<longleftrightarrow> k = KSleep"
    by (cases l) (auto simp: Let_def KWakeAll_eq split: if_splits)
next
  fix m l assume "baton_waker l"
  then show "\<exists>l'. baton_exec m l = Some (m, l', KWakeAll)" by (cases l) auto
next
  fix m l m' l' j assume "baton_exec m l = Some (m', l', KWake j)"
  then show "KWake j = KWakeAll" by (cases l) (auto simp: Let_def split: if_splits)
qed (auto dest: baton_start_cases elim: baton_waker.elims)

section \<open>The invariant\<close>

definition baton_word :: "baton_mem \<Rightarrow> bool" where
  "baton_word m \<longleftrightarrow> baton_state m \<in> {kEmpty, kWaiting, kReady} \<and>
     (baton_state m = kReady \<longrightarrow> 0 < g_posts m) \<and>
     (0 < g_posts m \<longrightarrow> baton_state m = kReady \<or> 0 < g_resets m)"

definition baton_inv :: "baton_mem \<Rightarrow> tid list \<Rightarrow> baton_pc list \<Rightarrow> bool" where
  "baton_inv m q ls \<longleftrightarrow> baton_word m \<and> bt.attended m q ls"

lemma baton_word_exec: "baton_word m \<Longrightarrow> baton_exec m l = Some (m', l', k) \<Longrightarrow> baton_word m'"
  by (cases l) (auto simp: baton_word_def baton_consts Let_def split: if_splits)

text \<open>The word leaves "waiting" by a post, which then wakes, or by a reset.\<close>

lemma baton_leaves_waiting: "baton_exec m l = Some (m', l', k) \<Longrightarrow>
    baton_state m = kWaiting \<or> 0 < g_resets m \<Longrightarrow>
    baton_waker l' \<or> baton_state m' = kWaiting \<or> 0 < g_resets m'"
  by (cases l) (auto simp: baton_consts Let_def split: if_splits)

lemma baton_invariant:
  assumes reach: "baton_reachable n s" and n: "n < 2 ^ 31"
  shows "baton_inv (shm s) (waitq s) (pcs s)"
proof (rule bt.system_invariant [where I = baton_inv, OF reach [unfolded baton_step_def baton_init_def]])
  show "baton_inv baton_mem0 [] (replicate n (BtOut None))"
    by (simp add: baton_inv_def baton_word_def baton_mem0_def baton_consts)
next
  fix m q ls t op l
  assume "baton_inv m q ls" "length ls = n" "t < n" "t \<notin> set q" "baton_start op (ls ! t) = Some l"
  then show "baton_inv m q (ls[t := l])"
    by (auto simp: baton_inv_def intro: bt.attended_invoke)
next
  fix m q ls t ws m' l k q'
  assume I: "baton_inv m q ls" and wf: "bt.queue_wf \<lparr>shm = m, waitq = q, pcs = ls\<rparr>"
    and len: "length ls = n" and t: "t < n" "t \<notin> set q"
    and ex: "baton_exec m (ls ! t) = Some (m', l, k)" and kr: "kernel k t ws q = Some q'"
  have move: "baton_waker l \<or> (\<forall>u \<in> set q. baton_blocked m (ls ! u) \<longrightarrow> baton_blocked m' (ls ! u))"
    using baton_leaves_waiting [OF ex] by (auto simp: baton_blocked_def)
  have sleep: "m' = m \<and> baton_blocked m l" if "k = KSleep"
    using ex that by (cases "ls ! t") (auto simp: baton_blocked_def Let_def KWakeAll_eq split: if_splits)
  show "baton_inv m' q' (ls[t := l])"
    unfolding baton_inv_def
  proof (intro conjI)
    show "baton_word m'" using I baton_word_exec [OF _ ex] by (simp add: baton_inv_def)
    show "bt.attended m' q' (ls[t := l])"
      using bt.attended_exec [OF _ wf _ _ _ ex kr move sleep] I len t n by (simp add: baton_inv_def)
  qed
qed (auto simp: baton_inv_def intro: bt.attended_spurious)

lemma baton_reachable_facts:
  assumes "baton_reachable n s"
  shows "length (pcs s) = n" and "bt.queue_wf s"
  using assms bt.reachable_length bt.reachable_queue_wf
  unfolding baton_step_def baton_init_def by blast+

lemma baton_returns: "baton_exec m l = Some (m', BtOut r, k) \<Longrightarrow> baton_waits l \<Longrightarrow> r \<noteq> Some False \<Longrightarrow>
    baton_state m = kReady"
  by (cases l) (auto simp: Let_def split: if_splits)

lemma baton_waiter_runs:
  assumes l: "baton_waits l" and st: "baton_state m = kReady"
  shows "\<exists>k r. plain_run baton_exec k m l = Some (m, BtOut r) \<and> r \<noteq> Some False"
proof -
  have load: "plain_run baton_exec 1 m (BtLoad b) = Some (m, baton_return b)" for b using st by simp
  have ret: "baton_return b = BtOut (if b then Some True else None)" for b
    by (simp add: baton_return_def)
  have fin: ?thesis if "plain_run baton_exec k m l = Some (m, baton_return b)" for k b
    using that ret [of b] by (intro exI [of _ k] exI [of _ "if b then Some True else None"]) simp
  have keep: "m\<lparr>baton_state := kReady\<rparr> = m" using st by simp
  show ?thesis
  proof (cases l)
    case (BtFast b)
    with st show ?thesis by (intro fin [of 1 b]) simp
  next
    case (BtSpin b i)
    with st show ?thesis by (intro fin [of 1 b]) simp
  next
    case (BtMark b)
    then have "baton_exec m l = Some (m, BtLoad b, KNone)"
      using st keep by (simp add: baton_consts)
    from plain_run_step [OF this load] show ?thesis by (rule fin)
  next
    case (BtLoad b)
    with load show ?thesis by (intro fin [of 1 b]) simp
  next
    case BtNow
    have "baton_exec m (BtWait True) = Some (m, BtLoad True, KNone)"
      using st by (simp add: baton_consts)
    note wait = plain_run_step [OF this load]
    from BtNow have "baton_exec m l = Some (m, BtWait True, KNone)" by simp
    from plain_run_step [OF this wait] show ?thesis by (rule fin)
  next
    case BtLast
    with st show ?thesis by (intro exI [of _ 1] exI [of _ "Some True"]) simp
  next
    case (BtWait b)
    then have "baton_exec m l = Some (m, BtLoad b, KNone)" using st by (simp add: baton_consts)
    from plain_run_step [OF this load] show ?thesis by (rule fin)
  next
    case (BtAsleep b)
    then have "baton_exec m l = Some (m, BtLoad b, KNone)" by simp
    from plain_run_step [OF this load] show ?thesis by (rule fin)
  qed (use l in auto)
qed

section \<open>Properties\<close>

text \<open>Thread 1 spins 32 times and sleeps; thread 0 posts.\<close>

definition baton_demo_sleep :: "baton_op act list" where
  "baton_demo_sleep = [Invoke 1 BatonWait, Step 1 []] @ replicate 32 (Step 1 []) @
     [Step 1 [], Step 1 [], Step 1 []]"

definition baton_demo_state :: "(baton_mem, baton_pc) fsys" where
  "baton_demo_state = \<lparr>shm = \<lparr>baton_state = 2, g_posts = 1, g_resets = 0\<rparr>, waitq = [1],
     pcs = [BtWake, BtAsleep False]\<rparr>"

definition baton_demo_woken :: "(baton_mem, baton_pc) fsys" where
  "baton_demo_woken = \<lparr>shm = \<lparr>baton_state = 2, g_posts = 1, g_resets = 0\<rparr>, waitq = [],
     pcs = [BtWake, BtLoad False]\<rparr>"

lemma baton_demo_reachable: "baton_reachable 2 baton_demo_state"
  by (rule run_reachable [of _ "baton_demo_sleep @ [Invoke 0 BatonPost, Step 0 []]"]) code_simp

lemma baton_demo_woken_reachable: "baton_reachable 2 baton_demo_woken"
  by (rule run_reachable [of _ "baton_demo_sleep @
    [Invoke 0 BatonPost, Step 0 [], Spurious 1, Step 1 []]"]) code_simp

text \<open>
  No early return: a thread that returns from \<open>wait\<close>, or with true from \<open>wait_for\<close>, does
  so on a word that reads "ready", and only after a post.
\<close>
theorem baton_returns_after_post:
  assumes reach: "baton_reachable n s" and n: "n < 2 ^ 31" and t: "t < n"
    and stp: "baton_step (Step t ws) s = Some s'" and waits: "baton_waits (pcs s ! t)"
    and out: "pcs s' ! t = BtOut r" "r \<noteq> Some False"
  shows "baton_state (shm s) = kReady \<and> 0 < g_posts (shm s)"
proof -
  have len: "length (pcs s) = n" by (rule baton_reachable_facts [OF reach])
  obtain m' l k where "baton_exec (shm s) (pcs s ! t) = Some (m', l, k)" "pcs s' ! t = l"
    using stp len t unfolding baton_step_def by (auto elim!: sys_stepE)
  with baton_returns [of "shm s" "pcs s ! t" m' r k] waits out
  have "baton_state (shm s) = kReady" by simp
  with baton_invariant [OF reach n] show ?thesis by (simp add: baton_inv_def baton_word_def)
qed

theorem baton_returns_after_post_witness:
  "\<exists>s'. baton_step (Step 1 []) baton_demo_woken = Some s' \<and> pcs s' ! 1 = BtOut None \<and>
     0 < g_posts (shm baton_demo_woken)"
proof -
  let ?s = "\<lparr>shm = \<lparr>baton_state = 2, g_posts = 1, g_resets = 0\<rparr>, waitq = [],
     pcs = [BtWake, BtOut None]\<rparr>"
  have stp: "baton_step (Step 1 []) baton_demo_woken = Some ?s" by code_simp
  have "baton_state (shm baton_demo_woken) = kReady \<and> 0 < g_posts (shm baton_demo_woken)"
    by (rule baton_returns_after_post [OF baton_demo_woken_reachable _ _ stp, of None])
      (simp_all add: baton_demo_woken_def)
  with stp show ?thesis by simp
qed

text \<open>
  No lost wake-up before the first reset: once the baton is posted, every thread inside a
  wait, asleep or not, can go on to return.
\<close>
theorem baton_no_lost_wakeup:
  assumes reach: "baton_reachable n s" and n: "n < 2 ^ 31" and t: "t < n"
    and waits: "baton_waits (pcs s ! t)" and posted: "0 < g_posts (shm s)"
    and no_reset: "g_resets (shm s) = 0"
  shows "\<exists>sched s' r. run baton_step (steps sched) s = Some s' \<and> pcs s' ! t = BtOut r \<and> r \<noteq> Some False"
proof -
  obtain m q ls where s: "s = \<lparr>shm = m, waitq = q, pcs = ls\<rparr>" by (cases s) auto
  have len: "length ls = n" and wf: "bt.queue_wf s" using baton_reachable_facts [OF reach] s by simp_all
  have inv: "baton_inv m q ls" using baton_invariant [OF reach n] s by simp
  then have st: "baton_state m = kReady"
    using posted no_reset s by (auto simp: baton_inv_def baton_word_def)
  obtain k r where run: "plain_run baton_exec k m (ls ! t) = Some (m, BtOut r)" and r: "r \<noteq> Some False"
    using baton_waiter_runs [OF _ st, of "ls ! t"] waits s by auto
  have "t \<in> set q \<longrightarrow> \<not> baton_blocked m (ls ! t)"
    using wf st s no_reset by (auto simp: baton_blocked_def bt.queue_wf_def baton_consts)
  then have "\<exists>sched s'. run baton_step (steps sched) s = Some s' \<and> shm s' = m \<and> pcs s' ! t = BtOut r"
    using bt.attended_progress [OF _ _ _ _ _ run] inv wf len t n s
    unfolding baton_step_def baton_inv_def by auto
  with r show ?thesis by blast
qed

theorem baton_no_lost_wakeup_witness:
  "\<exists>sched s' r. run baton_step (steps sched) baton_demo_state = Some s' \<and> pcs s' ! 1 = BtOut r \<and> r \<noteq> Some False"
  by (rule baton_no_lost_wakeup [OF baton_demo_reachable]) (simp_all add: baton_demo_state_def)

section \<open>A reset under a sleeper\<close>

text \<open>
  A schedule in which nobody begins a wait and nobody is woken for no reason: posts, resets, tests,
  and the steps of whatever is under way.
\<close>

fun baton_no_wait :: "baton_op act \<Rightarrow> bool" where
  "baton_no_wait (Invoke t op) = (op \<noteq> BatonWait \<and> op \<noteq> BatonWaitFor)"
| "baton_no_wait (Step t ws) = True"
| "baton_no_wait (Spurious t) = False"

text \<open>The points from which a thread can still mark the word as "waiting", or wake.\<close>

fun baton_marks :: "baton_pc \<Rightarrow> bool" where
  "baton_marks (BtFast _) = True"
| "baton_marks (BtSpin _ _) = True"
| "baton_marks (BtMark _) = True"
| "baton_marks BtWake = True"
| "baton_marks _ = False"

definition baton_forgotten :: "(baton_mem, baton_pc) fsys \<Rightarrow> bool" where
  "baton_forgotten s \<longleftrightarrow> baton_state (shm s) \<noteq> kWaiting \<and>
     (\<forall>v < length (pcs s). \<not> baton_marks (pcs s ! v))"

lemma baton_forgotten_exec: "baton_exec m l = Some (m', l', k) \<Longrightarrow> \<not> baton_marks l \<Longrightarrow>
    baton_state m \<noteq> kWaiting \<Longrightarrow> baton_state m' \<noteq> kWaiting \<and> \<not> baton_marks l' \<and> k = KNone"
  by (cases l) (auto simp: baton_consts baton_return_def Let_def split: if_splits)

lemma baton_forgotten_step:
  assumes f: "baton_forgotten s" and stp: "baton_step a s = Some s'" and a: "baton_no_wait a"
  shows "baton_forgotten s' \<and> waitq s' = waitq s"
  using stp [unfolded baton_step_def]
proof (cases rule: sys_stepE)
  case (invoke t op l)
  then have "\<not> baton_marks l" using a by (cases op) (auto split: if_splits)
  with f invoke show ?thesis by (auto simp: baton_forgotten_def nth_list_update)
next
  case (exec t ws m l k q)
  with f baton_forgotten_exec [of "shm s" "pcs s ! t" m l k] show ?thesis
    by (auto simp: baton_forgotten_def nth_list_update)
qed (use a in auto)

lemma baton_forgotten_run: "baton_forgotten s \<Longrightarrow> run baton_step as s = Some s' \<Longrightarrow> list_all baton_no_wait as \<Longrightarrow>
    waitq s' = waitq s"
proof (induction as arbitrary: s)
  case (Cons a as)
  then obtain s1 where "baton_step a s = Some s1" "run baton_step as s1 = Some s'"
    by (auto split: option.splits)
  with Cons.IH [of s1] Cons.prems baton_forgotten_step [of s a s1] show ?case by auto
qed simp

lemma baton_reset_forgets:
  assumes others: "\<forall>v < length (pcs s). v \<in> set (waitq s) \<or> baton_outside (pcs s ! v)" and wf: "bt.queue_wf s"
    and r: "run baton_step [Invoke u BatonReset, Step u []] s = Some s'"
  shows "baton_forgotten s' \<and> waitq s' = waitq s \<and> pcs s' = (pcs s)[u := BtOut None]"
proof -
  have quiet: "\<not> baton_marks (pcs s ! v)" if "v < length (pcs s)" for v
    using others [rule_format, OF that] wf by (cases "pcs s ! v") (force simp: bt.queue_wf_def baton_outside_def)+
  from r obtain s1 where r1: "baton_step (Invoke u BatonReset) s = Some s1" and r2: "baton_step (Step u []) s1 = Some s'"
    by (auto split: option.splits)
  from r1 have u: "u < length (pcs s)" "u \<notin> set (waitq s)" and s1: "s1 = s\<lparr>pcs := (pcs s)[u := BtReset]\<rparr>"
    by (auto simp: baton_step_def sys_step_def awake_def split: if_splits)
  from r2 u have "s' = \<lparr>shm = (shm s)\<lparr>baton_state := kEmpty, g_resets := g_resets (shm s) + 1\<rparr>, waitq = waitq s,
      pcs = (pcs s)[u := BtOut None]\<rparr>"
    by (simp add: s1 baton_step_def sys_step_def awake_def)
  with quiet u show ?thesis by (auto simp: baton_forgotten_def baton_consts nth_list_update split: if_splits)
qed

text \<open>
  C33. A reset under sleepers strands them: let some threads sleep in the baton and all others be outside
  its calls. After a \<open>reset()\<close> no run in which nobody begins a new wait, however often and by whomever
  the baton is posted, wakes any of them: each is still asleep at the point where it was.
\<close>
theorem baton_reset_strands_sleeper:
  assumes reach: "baton_reachable n s" and t: "t \<in> set (waitq s)"
    and others: "\<And>v. v < n \<Longrightarrow> v \<notin> set (waitq s) \<Longrightarrow> baton_outside (pcs s ! v)"
    and r: "run baton_step ([Invoke u BatonReset, Step u []] @ as) s = Some s'" and as: "list_all baton_no_wait as"
  shows "t \<in> set (waitq s') \<and> baton_asleep (pcs s' ! t)"
proof -
  have len: "length (pcs s) = n" and wf: "bt.queue_wf s" by (rule baton_reachable_facts [OF reach])+
  obtain s1 where r1: "run baton_step [Invoke u BatonReset, Step u []] s = Some s1" and r2: "run baton_step as s1 = Some s'"
    using r unfolding run_append by (auto split: option.splits)
  have "baton_forgotten s1 \<and> waitq s1 = waitq s \<and> pcs s1 = (pcs s)[u := BtOut None]"
    by (rule baton_reset_forgets [OF _ wf r1]) (use others len in blast)
  with baton_forgotten_run [OF _ r2 as] t have q: "t \<in> set (waitq s')" by simp
  have "baton_reachable n s'" using reach r by (rule reachable_run)
  then have "bt.queue_wf s'" by (rule baton_reachable_facts)
  with q show ?thesis by (simp add: bt.queue_wf_def)
qed

text \<open>Thread 1 sleeps; thread 0 resets the baton and posts it twice.\<close>

definition baton_asleep_state :: "(baton_mem, baton_pc) fsys" where
  "baton_asleep_state = \<lparr>shm = \<lparr>baton_state = 1, g_posts = 0, g_resets = 0\<rparr>, waitq = [1],
     pcs = [BtOut None, BtAsleep False]\<rparr>"

lemma baton_asleep_reachable: "baton_reachable 2 baton_asleep_state"
  by (rule run_reachable [of _ baton_demo_sleep]) code_simp

theorem baton_reset_strands_sleeper_witness:
  "\<exists>s'. run baton_step ([Invoke 0 BatonReset, Step 0 []] @ [Invoke 0 BatonPost, Step 0 [], Invoke 0 BatonPost, Step 0 []])
      baton_asleep_state = Some s' \<and> baton_state (shm s') = kReady \<and> 1 \<in> set (waitq s') \<and> baton_asleep (pcs s' ! 1)"
proof -
  let ?as = "[Invoke 0 BatonPost, Step 0 [], Invoke 0 BatonPost, Step 0 []]"
  let ?s = "\<lparr>shm = \<lparr>baton_state = 2, g_posts = 2, g_resets = 1\<rparr>, waitq = [1], pcs = [BtOut None, BtAsleep False]\<rparr>"
  have r: "run baton_step ([Invoke 0 BatonReset, Step 0 []] @ ?as) baton_asleep_state = Some ?s" by code_simp
  have "1 \<in> set (waitq ?s) \<and> baton_asleep (pcs ?s ! 1)"
    by (rule baton_reset_strands_sleeper [OF baton_asleep_reachable _ _ r])
      (simp_all add: baton_asleep_state_def baton_outside_def less_Suc_eq numeral_2_eq_2)
  with r show ?thesis by (simp add: baton_consts)
qed

end
