(* ===== verification/Barrier.thy ===== *)
theory Barrier
  imports Futex
begin

text \<open>
  \<^verbatim>\<open>psync_barrier.h\<close>: the phased barrier, used by as many threads as it expects, each of
  which waits for a phase before it arrives at the next. Shown: no thread leaves a phase before all
  have arrived at it, a phase at which all have arrived completes, and nobody sleeps past it.
\<close>

section \<open>The barrier\<close>

text \<open>\<open>g_phase\<close> is the number of phases completed, of which \<open>phase_\<close> is the value modulo \<open>2 ^ 32\<close>.\<close>

record barrier_mem =
  expected :: u32
  arrived :: u32
  phase :: u32
  g_phase :: nat

text \<open>
  The flag \<open>tok\<close> is true in \<open>arrive\<close>, which returns the phase as a token, and false in
  \<open>arrive_and_wait\<close>. \<open>BaToken\<close> is a thread outside that holds the token of an \<open>arrive\<close>. Paired
  with the program point is the number of times the thread has arrived.
\<close>

datatype barrier_pc =
    BaOut
  | BaToken u32
  | BaLoad bool
  | BaSub bool u32
  | BaReset bool u32
  | BaAdvance bool u32
  | BaWake bool u32
  | BaCheck u32
  | BaWait u32
  | BaAsleep u32

type_synonym barrier_thread = "barrier_pc \<times> nat"

datatype barrier_op = ArriveAndWait | Arrive | WaitToken

fun barrier_start :: "barrier_op \<Rightarrow> barrier_thread \<Rightarrow> barrier_thread option" where
  "barrier_start ArriveAndWait (l, a) = (if l = BaOut then Some (BaLoad False, a) else None)"
| "barrier_start Arrive (l, a) = (if l = BaOut then Some (BaLoad True, a) else None)"
| "barrier_start WaitToken (l, a) = (case l of BaToken p \<Rightarrow> Some (BaCheck p, a) | _ \<Rightarrow> None)"

fun barrier_exec :: "barrier_mem \<Rightarrow> barrier_thread \<Rightarrow> (barrier_mem \<times> barrier_thread \<times> keff) option" where
  "barrier_exec m (BaOut, a) = None"
| "barrier_exec m (BaToken p, a) = None"
| "barrier_exec m (BaLoad tok, a) = Some (m, (BaSub tok (atomic_load (phase m) MO_acquire), a), KNone)"
| "barrier_exec m (BaSub tok current_phase, a) =
     (let (old, c) = atomic_fetch_sub (arrived m) 1 MO_acq_rel; m' = m\<lparr>arrived := c\<rparr>
      in if old = 1 then Some (m', (BaReset tok current_phase, a + 1), KNone)
         else if tok then Some (m', (BaToken current_phase, a + 1), KNone)
         else Some (m', (BaCheck current_phase, a + 1), KNone))"
| "barrier_exec m (BaReset tok current_phase, a) =
     Some (m\<lparr>arrived := atomic_store (arrived m) (expected m) MO_relaxed\<rparr>,
       (BaAdvance tok current_phase, a), KNone)"
| "barrier_exec m (BaAdvance tok current_phase, a) =
     (let (_, c) = atomic_fetch_add (phase m) 1 MO_release
      in Some (m\<lparr>phase := c, g_phase := g_phase m + 1\<rparr>, (BaWake tok current_phase, a), KNone))"
| "barrier_exec m (BaWake tok current_phase, a) =
     Some (m, (if tok then BaToken current_phase else BaOut, a), KWakeAll)"
| "barrier_exec m (BaCheck arrival_phase, a) =
     (if atomic_load (phase m) MO_acquire = arrival_phase then Some (m, (BaWait arrival_phase, a), KNone)
      else Some (m, (BaOut, a), KNone))"
| "barrier_exec m (BaWait arrival_phase, a) =
     (if phase m = arrival_phase then Some (m, (BaAsleep arrival_phase, a), KSleep)
      else Some (m, (BaCheck arrival_phase, a), KNone))"
| "barrier_exec m (BaAsleep arrival_phase, a) = Some (m, (BaCheck arrival_phase, a), KNone)"

fun barrier_asleep :: "barrier_thread \<Rightarrow> bool" where
  "barrier_asleep (BaAsleep _, _) = True"
| "barrier_asleep _ = False"

definition barrier_step :: "barrier_op act \<Rightarrow> (barrier_mem, barrier_thread) fsys \<Rightarrow>
    (barrier_mem, barrier_thread) fsys option" where
  "barrier_step = sys_step barrier_exec barrier_start"

definition barrier_mem0 :: "u32 \<Rightarrow> barrier_mem" where
  "barrier_mem0 expected_count =
     \<lparr>expected = expected_count, arrived = expected_count, phase = 0, g_phase = 0\<rparr>"

text \<open>A barrier for \<open>n\<close> threads.\<close>

definition barrier_init :: "nat \<Rightarrow> (barrier_mem, barrier_thread) fsys" where
  "barrier_init n = sys_init (barrier_mem0 (word_of_nat n)) (BaOut, 0) n"

abbreviation barrier_reachable :: "nat \<Rightarrow> (barrier_mem, barrier_thread) fsys \<Rightarrow> bool" where
  "barrier_reachable n \<equiv> reachable barrier_step (barrier_init n)"

definition arrivals :: "barrier_thread \<Rightarrow> nat" where
  "arrivals l = snd l"

text \<open>Between phases: outside with no token, or in the next arrival before it is counted.\<close>

fun barrier_between :: "barrier_thread \<Rightarrow> bool" where
  "barrier_between (BaOut, _) = True"
| "barrier_between (BaLoad _, _) = True"
| "barrier_between (BaSub _ _, _) = True"
| "barrier_between _ = False"

fun barrier_blocked :: "barrier_mem \<Rightarrow> barrier_thread \<Rightarrow> bool" where
  "barrier_blocked m (BaAsleep p, _) = (phase m = p)"
| "barrier_blocked m _ = True"

fun barrier_waker :: "barrier_thread \<Rightarrow> bool" where
  "barrier_waker (BaWake _ _, _) = True"
| "barrier_waker _ = False"

lemma barrier_start_cases:
  assumes "barrier_start op l = Some l'"
  shows "\<not> barrier_asleep l'" and "\<not> barrier_waker l"
  using assms by (cases l; cases op; cases "fst l"; auto split: if_splits)+

interpretation ba: wake_all_client barrier_exec barrier_start barrier_asleep "(BaOut, 0)"
  barrier_blocked barrier_waker
proof unfold_locales
  fix m l m' l' k assume "barrier_exec m l = Some (m', l', k)"
  then show "barrier_asleep l' \<longleftrightarrow> k = KSleep"
    by (cases l; cases "fst l") (auto simp: Let_def KWakeAll_eq split: if_splits)
next
  fix m l assume "barrier_waker l"
  then show "\<exists>l'. barrier_exec m l = Some (m, l', KWakeAll)" by (cases l; cases "fst l") auto
next
  fix m l m' l' j assume "barrier_exec m l = Some (m', l', KWake j)"
  then show "KWake j = KWakeAll" by (cases l; cases "fst l") (auto simp: Let_def split: if_splits)
next
  fix l assume "barrier_waker l"
  then show "\<not> barrier_asleep l" by (cases l; cases "fst l") auto
qed (auto dest: barrier_start_cases)

section \<open>The invariant\<close>

text \<open>
  With \<open>P\<close> phases completed, a thread has arrived \<open>P\<close> times, or \<open>P + 1\<close> times if it has arrived
  at the current phase; the token it waits on is the phase of its last arrival.
\<close>

fun barrier_local :: "nat \<Rightarrow> barrier_thread \<Rightarrow> bool" where
  "barrier_local P (BaOut, a) = (a = P)"
| "barrier_local P (BaLoad _, a) = (a = P)"
| "barrier_local P (BaSub _ p, a) = (a = P \<and> p = word_of_nat P)"
| "barrier_local P (BaReset _ p, a) = (a = Suc P \<and> p = word_of_nat P)"
| "barrier_local P (BaAdvance _ p, a) = (a = Suc P \<and> p = word_of_nat P)"
| "barrier_local P (BaWake _ p, a) = (a = P \<and> p = word_of_nat P - 1)"
| "barrier_local P (BaToken p, a) = ((a = P \<and> p = word_of_nat P - 1) \<or> (a = Suc P \<and> p = word_of_nat P))"
| "barrier_local P (BaCheck p, a) = ((a = P \<and> p = word_of_nat P - 1) \<or> (a = Suc P \<and> p = word_of_nat P))"
| "barrier_local P (BaWait p, a) = ((a = P \<and> p = word_of_nat P - 1) \<or> (a = Suc P \<and> p = word_of_nat P))"
| "barrier_local P (BaAsleep p, a) = ((a = P \<and> p = word_of_nat P - 1) \<or> (a = Suc P \<and> p = word_of_nat P))"

fun barrier_resets :: "barrier_thread \<Rightarrow> bool" where
  "barrier_resets (BaReset _ _, _) = True"
| "barrier_resets _ = False"

fun barrier_advances :: "barrier_thread \<Rightarrow> bool" where
  "barrier_advances (BaAdvance _ _, _) = True"
| "barrier_advances _ = False"

definition arrived_at :: "nat \<Rightarrow> barrier_thread \<Rightarrow> bool" where
  "arrived_at P l \<longleftrightarrow> arrivals l = Suc P"

text \<open>
  The counter is the number of threads still missing, until the last one has arrived; that one
  first refills the counter and then advances the phase.
\<close>

definition barrier_count :: "barrier_mem \<Rightarrow> barrier_thread list \<Rightarrow> bool" where
  "barrier_count m ls \<longleftrightarrow>
     phase m = word_of_nat (g_phase m) \<and> unat (expected m) = length ls \<and>
     (let A = cnt (arrived_at (g_phase m)) ls; R = cnt barrier_resets ls; V = cnt barrier_advances ls
      in (R = 0 \<and> V = 0 \<and> A < length ls \<and> unat (arrived m) + A = length ls) \<or>
         (R = 1 \<and> V = 0 \<and> A = length ls) \<or>
         (R = 0 \<and> V = 1 \<and> A = length ls \<and> arrived m = expected m))"

definition barrier_inv :: "barrier_mem \<Rightarrow> tid list \<Rightarrow> barrier_thread list \<Rightarrow> bool" where
  "barrier_inv m q ls \<longleftrightarrow> ls = [] \<or>
     (barrier_count m ls \<and> (\<forall>t < length ls. barrier_local (g_phase m) (ls ! t)) \<and> ba.attended m q ls)"

lemma barrier_count_exec:
  assumes cnt: "barrier_count m ls" and t: "t < length ls"
    and loc: "\<forall>u < length ls. barrier_local (g_phase m) (ls ! u)"
    and ex: "barrier_exec m (ls ! t) = Some (m', l, k)"
  shows "barrier_count m' (ls[t := l])"
proof -
  obtain pc a where l: "ls ! t = (pc, a)" by (cases "ls ! t") auto
  note cs = cnt_update [OF t, of barrier_resets l] cnt_update [OF t, of barrier_advances l]
    cnt_update [OF t, of "arrived_at (g_phase m)" l]
  have one: "P (ls ! t) \<Longrightarrow> 1 \<le> cnt P ls" for P using cnt_ge1 [OF t] by blast
  show ?thesis
  proof (cases pc)
    case (BaSub tok p)
    then have "a = g_phase m" using loc l t by fastforce
    moreover from this have "cnt (arrived_at (g_phase m)) ls \<noteq> length ls"
      using cnt_full [of "arrived_at (g_phase m)" ls t] t l by (auto simp: arrived_at_def arrivals_def)
    moreover have "arrived m = 1 \<or> unat (arrived m) \<noteq> 1"
      by (metis unat_1 word_unat_eq_iff)
    ultimately show ?thesis
      using cnt ex l BaSub cs
      by (auto simp: barrier_count_def arrived_at_def arrivals_def Let_def unat_sub_small split: if_splits)
  next
    case (BaAdvance tok p)
    then have full: "cnt (arrived_at (g_phase m)) ls = length ls"
      using cnt l one [of barrier_advances] by (auto simp: barrier_count_def Let_def)
    have "\<not> arrived_at (Suc (g_phase m)) (ls[t := l] ! u)" if "u < length ls" for u
      using cnt_full [OF full that] ex l BaAdvance t that
      by (cases "u = t") (auto simp: arrived_at_def arrivals_def Let_def)
    then have "cnt (arrived_at (Suc (g_phase m))) (ls[t := l]) = 0" by (simp add: cnt_0_iff)
    with cnt ex l BaAdvance cs one [of barrier_advances] t show ?thesis
      by (auto simp: barrier_count_def Let_def)
  qed (use cnt ex l cs one [of barrier_resets] in
      \<open>auto simp: barrier_count_def arrived_at_def arrivals_def Let_def split: if_splits\<close>)
qed

lemma barrier_local_exec:
  assumes cnt: "barrier_count m ls" and t: "t < length ls"
    and loc: "\<forall>u < length ls. barrier_local (g_phase m) (ls ! u)"
    and ex: "barrier_exec m (ls ! t) = Some (m', l, k)"
  shows "\<forall>u < length (ls[t := l]). barrier_local (g_phase m') (ls[t := l] ! u)"
proof -
  obtain pc a where l: "ls ! t = (pc, a)" by (cases "ls ! t") auto
  have lt: "barrier_local (g_phase m) (pc, a)" using loc l t by fastforce
  have ph: "phase m = word_of_nat (g_phase m)" using cnt by (simp add: barrier_count_def)
  show ?thesis
  proof (cases "\<exists>tok p. pc = BaAdvance tok p")
    case True
    then obtain tok p where pc: "pc = BaAdvance tok p" by blast
    then have full: "cnt (arrived_at (g_phase m)) ls = length ls"
      using cnt l cnt_ge1 [OF t, of barrier_advances] by (auto simp: barrier_count_def Let_def)
    have others: "barrier_local (Suc (g_phase m)) (ls ! u)" if "u < length ls" "u \<noteq> t" for u
    proof -
      have "cnt barrier_resets ls = 0" "cnt barrier_advances ls \<le> 1"
        using cnt l pc cnt_ge1 [OF t, of barrier_advances] by (auto simp: barrier_count_def Let_def)
      then have "\<not> barrier_resets (ls ! u)" "\<not> barrier_advances (ls ! u)"
        using cnt_le1_unique [of barrier_advances ls u t] that l pc t by (auto simp: cnt_0_iff)
      moreover have "arrived_at (g_phase m) (ls ! u)" using cnt_full [OF full that(1)] .
      moreover have "barrier_local (g_phase m) (ls ! u)" using loc that by blast
      ultimately show ?thesis
        by (cases "ls ! u"; cases "fst (ls ! u)") (auto simp: arrived_at_def arrivals_def)
    qed
    have "g_phase m' = Suc (g_phase m)" "barrier_local (Suc (g_phase m)) l"
      using ex l pc lt by (auto simp: Let_def)
    then show ?thesis using others t by (metis length_list_update nth_list_update)
  next
    case False
    then have "g_phase m' = g_phase m" using ex l by (cases pc) (auto simp: Let_def split: if_splits)
    moreover have "barrier_local (g_phase m) l"
      using ex l lt False ph by (cases pc) (auto simp: Let_def split: if_splits)
    ultimately show ?thesis using all_nth_update [of ls "barrier_local (g_phase m)" l t] loc by simp
  qed
qed

text \<open>The phase moves only by the step before the wake.\<close>

lemma barrier_exec_phase: "barrier_exec m l = Some (m', l', k) \<Longrightarrow> barrier_waker l' \<or> phase m' = phase m"
  by (cases l; cases "fst l") (auto simp: Let_def split: if_splits)

lemma barrier_invariant:
  assumes reach: "barrier_reachable n s" and n: "n < 2 ^ 31"
  shows "barrier_inv (shm s) (waitq s) (pcs s)"
proof (rule ba.system_invariant [where I = barrier_inv,
      OF reach [unfolded barrier_step_def barrier_init_def]])
  have "unat (word_of_nat n :: u32) = n" using n by (simp add: unat_of_nat take_bit_nat_eq_self_iff)
  then show "barrier_inv (barrier_mem0 (word_of_nat n)) [] (replicate n (BaOut, 0))"
    by (simp add: barrier_inv_def barrier_count_def barrier_mem0_def arrived_at_def arrivals_def cnt_simps) blast
next
  fix m q ls t op l
  assume I: "barrier_inv m q ls" and t: "length ls = n" "t < n" "t \<notin> set q"
    and op: "barrier_start op (ls ! t) = Some l"
  have "barrier_resets l = barrier_resets (ls ! t)" "barrier_advances l = barrier_advances (ls ! t)"
    "arrived_at P l = arrived_at P (ls ! t)" "barrier_local P (ls ! t) \<Longrightarrow> barrier_local P l" for P
    using op by (cases "ls ! t"; cases op; cases "fst (ls ! t)";
        auto simp: arrived_at_def arrivals_def split: if_splits)+
  with I t op show "barrier_inv m q (ls[t := l])"
    by (auto simp: barrier_inv_def barrier_count_def cnt_simps nth_list_update intro: ba.attended_invoke)
next
  fix m q ls t ws m' l k q'
  assume I: "barrier_inv m q ls" and wf: "ba.queue_wf \<lparr>shm = m, waitq = q, pcs = ls\<rparr>"
    and len: "length ls = n" and t: "t < n" "t \<notin> set q"
    and ex: "barrier_exec m (ls ! t) = Some (m', l, k)" and kr: "kernel k t ws q = Some q'"
  have t': "t < length ls" using len t by simp
  have cnt: "barrier_count m ls" and loc: "\<forall>u < length ls. barrier_local (g_phase m) (ls ! u)"
    and att: "ba.attended m q ls" using I t' by (auto simp: barrier_inv_def)
  have keep: "barrier_blocked m' l" if "barrier_blocked m l" "phase m' = phase m" for l
    using that by (cases l; cases "fst l") auto
  have move: "barrier_waker l \<or> (\<forall>u \<in> set q. barrier_blocked m (ls ! u) \<longrightarrow> barrier_blocked m' (ls ! u))"
    using barrier_exec_phase [OF ex] keep by blast
  have sleep: "m' = m \<and> barrier_blocked m l" if "k = KSleep"
    using ex that by (cases "ls ! t"; cases "fst (ls ! t)")
      (auto simp: Let_def KWakeAll_eq split: if_splits)
  have "ba.attended m' q' (ls[t := l])"
    using ba.attended_exec [OF att wf t' t(2) _ ex kr move sleep] len n by simp
  with barrier_count_exec [OF cnt t' loc ex] barrier_local_exec [OF cnt t' loc ex]
  show "barrier_inv m' q' (ls[t := l])" by (simp add: barrier_inv_def)
qed (auto simp: barrier_inv_def intro: ba.attended_spurious)

lemma barrier_reachable_facts:
  assumes "barrier_reachable n s"
  shows "length (pcs s) = n" and "ba.queue_wf s"
  using assms ba.reachable_length ba.reachable_queue_wf
  unfolding barrier_step_def barrier_init_def by blast+

lemma barrier_facts:
  assumes "barrier_reachable n s" and "n < 2 ^ 31" and "t < n"
  shows "barrier_local (g_phase (shm s)) (pcs s ! t)" and "barrier_count (shm s) (pcs s)"
    and "ba.attended (shm s) (waitq s) (pcs s)"
  using barrier_invariant [OF assms(1,2)] barrier_reachable_facts [OF assms(1)] assms(3)
  by (auto simp: barrier_inv_def)

lemma barrier_arrivals: "barrier_local P l \<Longrightarrow> arrivals l = P \<or> arrivals l = Suc P"
  by (cases l; cases "fst l") (auto simp: arrivals_def)

section \<open>Progress\<close>

fun barrier_waits :: "barrier_thread \<Rightarrow> bool" where
  "barrier_waits (BaCheck _, _) = True"
| "barrier_waits (BaWait _, _) = True"
| "barrier_waits (BaAsleep _, _) = True"
| "barrier_waits _ = False"

lemma barrier_waiter_runs:
  assumes l: "barrier_waits l" and loc: "barrier_local P l" and P: "arrivals l = P"
    and ph: "phase m = word_of_nat P"
  shows "\<exists>k. plain_run barrier_exec k m l = Some (m, (BaOut, P))"
proof -
  obtain p where p: "l = (BaCheck p, P) \<or> l = (BaWait p, P) \<or> l = (BaAsleep p, P)"
    using l P by (cases l; cases "fst l") (auto simp: arrivals_def)
  have ne: "phase m \<noteq> p" using p loc ph by auto
  have chk: "plain_run barrier_exec 1 m (BaCheck p, P) = Some (m, (BaOut, P))" using ne by simp
  have "barrier_exec m (BaWait p, P) = Some (m, (BaCheck p, P), KNone)"
    "barrier_exec m (BaAsleep p, P) = Some (m, (BaCheck p, P), KNone)" using ne by simp_all
  with p chk show ?thesis by (metis plain_run_step)
qed

text \<open>The last thread to arrive completes the phase on its own.\<close>

lemma barrier_last_advances:
  assumes "barrier_resets l \<or> barrier_advances l"
  shows "\<exists>k m' l'. plain_run barrier_exec k m l = Some (m', l') \<and> g_phase m' = Suc (g_phase m)"
proof -
  obtain tok p a where l: "l = (BaReset tok p, a) \<or> l = (BaAdvance tok p, a)"
    using assms by (cases l; cases "fst l") auto
  let ?adv = "\<lambda>m. (m\<lparr>phase := phase m + 1, g_phase := Suc (g_phase m)\<rparr>, (BaWake tok p, a))"
  have adv: "plain_run barrier_exec 1 m (BaAdvance tok p, a) = Some (?adv m)" for m by (simp add: Let_def)
  from l show ?thesis
  proof
    assume "l = (BaAdvance tok p, a)"
    with adv [of m] show ?thesis by fastforce
  next
    assume "l = (BaReset tok p, a)"
    then have "plain_run barrier_exec (Suc 1) m l = Some (?adv (m\<lparr>arrived := expected m\<rparr>))"
      using plain_run_step [OF _ adv [of "m\<lparr>arrived := expected m\<rparr>"], of m l] by simp
    then show ?thesis by fastforce
  qed
qed

section \<open>Properties\<close>

text \<open>Two threads: thread 1 arrives and sleeps, thread 0 arrives as the last, up to the wake.\<close>

definition barrier_demo :: "barrier_op act list" where
  "barrier_demo = [Invoke 1 ArriveAndWait, Step 1 [], Step 1 [], Step 1 [], Step 1 [],
     Invoke 0 Arrive, Step 0 [], Step 0 []]"

definition barrier_demo_state :: "(barrier_mem, barrier_thread) fsys" where
  "barrier_demo_state = \<lparr>shm = \<lparr>expected = 2, arrived = 0, phase = 0, g_phase = 0\<rparr>, waitq = [1],
     pcs = [(BaReset True 0, 1), (BaAsleep 0, 1)]\<rparr>"

definition barrier_demo_woken :: "(barrier_mem, barrier_thread) fsys" where
  "barrier_demo_woken = \<lparr>shm = \<lparr>expected = 2, arrived = 2, phase = 1, g_phase = 1\<rparr>, waitq = [1],
     pcs = [(BaWake True 0, 1), (BaAsleep 0, 1)]\<rparr>"

definition barrier_demo_passed :: "(barrier_mem, barrier_thread) fsys" where
  "barrier_demo_passed = \<lparr>shm = \<lparr>expected = 2, arrived = 2, phase = 1, g_phase = 1\<rparr>, waitq = [],
     pcs = [(BaWake True 0, 1), (BaOut, 1)]\<rparr>"

lemma barrier_demo_reachable: "barrier_reachable 2 barrier_demo_state"
  by (rule run_reachable [of _ barrier_demo]) code_simp

lemma barrier_demo_woken_reachable: "barrier_reachable 2 barrier_demo_woken"
  by (rule run_reachable [of _ "barrier_demo @ [Step 0 [], Step 0 []]"]) code_simp

lemma barrier_demo_passed_reachable: "barrier_reachable 2 barrier_demo_passed"
  by (rule run_reachable [of _ "barrier_demo @ [Step 0 [], Step 0 [], Spurious 1, Step 1 [], Step 1 []]"])
    code_simp

text \<open>
  C20. Nobody leaves a phase early: when a thread is between phases, having left its \<open>k\<close>-th one,
  every thread of the barrier has arrived at least \<open>k\<close> times; and at any time the numbers of
  arrivals of two threads differ by at most one.
\<close>
theorem barrier_separates_phases:
  assumes reach: "barrier_reachable n s" and n: "n < 2 ^ 31" and t: "t < n" and u: "u < n"
  shows "arrivals (pcs s ! t) \<le> Suc (arrivals (pcs s ! u)) \<and>
    (barrier_between (pcs s ! t) \<longrightarrow> arrivals (pcs s ! t) \<le> arrivals (pcs s ! u))"
proof -
  let ?P = "g_phase (shm s)"
  have "barrier_local ?P (pcs s ! t)" "barrier_local ?P (pcs s ! u)"
    using barrier_facts(1) [OF reach n] t u by simp_all
  note loc = this barrier_arrivals [OF this(1)] barrier_arrivals [OF this(2)]
  have "barrier_between (pcs s ! t) \<Longrightarrow> arrivals (pcs s ! t) = ?P"
    using loc(1) by (cases "pcs s ! t"; cases "fst (pcs s ! t)") (auto simp: arrivals_def)
  with loc(3,4) show ?thesis by auto
qed

theorem barrier_separates_phases_witness:
  "barrier_between (pcs barrier_demo_passed ! 1) \<and>
   arrivals (pcs barrier_demo_passed ! 1) \<le> arrivals (pcs barrier_demo_passed ! 0)"
  using barrier_separates_phases [OF barrier_demo_passed_reachable, of 1 0]
  by (simp add: barrier_demo_passed_def)

text \<open>
  Every phase completes and lets all out: when all threads have arrived at the current phase
  the system can go on to complete it; and a thread that waits for a phase that is complete, asleep
  or not, can go on to leave.
\<close>
theorem barrier_completes:
  assumes reach: "barrier_reachable n s" and n: "n < 2 ^ 31" and t: "t < n"
  shows "(cnt (arrived_at (g_phase (shm s))) (pcs s) = n \<longrightarrow>
      (\<exists>sched s'. run barrier_step (steps sched) s = Some s' \<and> g_phase (shm s') = Suc (g_phase (shm s)))) \<and>
    (barrier_waits (pcs s ! t) \<and> arrivals (pcs s ! t) = g_phase (shm s) \<longrightarrow>
      (\<exists>sched s'. run barrier_step (steps sched) s = Some s' \<and> fst (pcs s' ! t) = BaOut))"
proof -
  obtain m q ls where s: "s = \<lparr>shm = m, waitq = q, pcs = ls\<rparr>" by (cases s) auto
  have len: "length ls = n" and wf: "ba.queue_wf s" using barrier_reachable_facts [OF reach] s by simp_all
  have cnt: "barrier_count m ls" and loc: "barrier_local (g_phase m) (ls ! t)"
    and att: "ba.attended m q ls" using barrier_facts [OF reach n t] s by simp_all
  have "\<exists>sched s'. run barrier_step (steps sched) s = Some s' \<and> g_phase (shm s') = Suc (g_phase m)"
    if full: "cnt (arrived_at (g_phase m)) ls = n"
  proof -
    from cnt full len have "cnt barrier_resets ls \<noteq> 0 \<or> cnt barrier_advances ls \<noteq> 0"
      by (auto simp: barrier_count_def Let_def)
    then obtain v where v: "v < n" "barrier_resets (ls ! v) \<or> barrier_advances (ls ! v)"
      using len by (auto simp: cnt_0_iff)
    moreover from v(2) have "\<not> barrier_asleep (ls ! v)" by (cases "ls ! v"; cases "fst (ls ! v)") auto
    then have "v \<notin> set q" using wf s by (auto simp: ba.queue_wf_def)
    moreover obtain k m' l' where "plain_run barrier_exec k m (ls ! v) = Some (m', l')"
      and g: "g_phase m' = Suc (g_phase m)" using barrier_last_advances [OF v(2)] by blast
    ultimately have "run barrier_step (steps (replicate k (v, []))) s =
        Some \<lparr>shm = m', waitq = q, pcs = ls[v := l']\<rparr>"
      unfolding barrier_step_def s steps_simps using len by (intro plain_run_system) auto
    with g show ?thesis by fastforce
  qed
  moreover have "\<exists>sched s'. run barrier_step (steps sched) s = Some s' \<and> fst (pcs s' ! t) = BaOut"
    if w: "barrier_waits (ls ! t)" "arrivals (ls ! t) = g_phase m"
  proof -
    have ph: "phase m = word_of_nat (g_phase m)" using cnt by (simp add: barrier_count_def)
    obtain k where run: "plain_run barrier_exec k m (ls ! t) = Some (m, (BaOut, g_phase m))"
      using barrier_waiter_runs [OF w(1) loc w(2) ph] by blast
    have "\<not> barrier_blocked m (ls ! t)" if "t \<in> set q"
      using that wf loc w ph s by (cases "ls ! t"; cases "fst (ls ! t)")
        (auto simp: ba.queue_wf_def arrivals_def)
    then have "\<exists>sched s'. run barrier_step (steps sched) s = Some s' \<and> shm s' = m \<and> pcs s' ! t = (BaOut, g_phase m)"
      using ba.attended_progress [OF att wf [unfolded s] _ _ _ run] len t n
      unfolding barrier_step_def s by simp
    then show ?thesis by (metis fst_conv)
  qed
  ultimately show ?thesis using s by simp
qed

theorem barrier_completes_witness:
  "(\<exists>sched s'. run barrier_step (steps sched) barrier_demo_state = Some s' \<and> g_phase (shm s') = 1) \<and>
   (\<exists>sched s'. run barrier_step (steps sched) barrier_demo_woken = Some s' \<and> fst (pcs s' ! 1) = BaOut)"
  using barrier_completes [OF barrier_demo_reachable, of 1]
    barrier_completes [OF barrier_demo_woken_reachable, of 1]
  by (simp add: barrier_demo_state_def barrier_demo_woken_def cnt_def arrived_at_def arrivals_def)

end
