(* ===== verification/SeqLock.thy ===== *)
theory SeqLock
  imports Futex
begin

text \<open>
  \<^verbatim>\<open>psync_seqlock.h\<close>: the sequence lock. One writer (the header asks for external
  serialization) stores the cells of the protected data one by one; readers load them one by one
  inside \<open>read_transaction\<close>. Shown: a snapshot that is returned is the data of one completed
  write, the current one, and a reader left alone returns. No futex is used, so the wait queue of
  the system stays empty.
\<close>

section \<open>The lock and its data\<close>

text \<open>
  \<open>cells\<close> is the client's data. \<open>g_seq\<close> is the number of increments of the sequence so far and
  \<open>g_versions\<close> the data after each completed write, the initial data first.
\<close>

record seq_mem =
  sequence :: u32
  cells :: "nat list"
  g_seq :: nat
  g_versions :: "nat list list"

text \<open>
  The writer's points, and the reader's: \<open>SqRead\<close> carries \<open>seq\<close>, the cells read so far and the
  number of increments at \<open>read_begin\<close> (for the specification only).
\<close>

datatype seq_pc =
    SqWOut
  | SqWBegin
  | SqWriting
  | SqStore nat nat
  | SqWEnd
  | SqROut "nat list option"
  | SqRBegin
  | SqRead u32 "nat list" nat
  | SqRetry u32 "nat list" nat

datatype seq_op = WriteBegin | WriteCell nat nat | WriteEnd | ReadTransaction

fun seq_start :: "seq_op \<Rightarrow> seq_pc \<Rightarrow> seq_pc option" where
  "seq_start WriteBegin l = (if l = SqWOut then Some SqWBegin else None)"
| "seq_start (WriteCell i v) l = (if l = SqWriting then Some (SqStore i v) else None)"
| "seq_start WriteEnd l = (if l = SqWriting then Some SqWEnd else None)"
| "seq_start ReadTransaction l = (case l of SqROut _ \<Rightarrow> Some SqRBegin | _ \<Rightarrow> None)"

text \<open>
  \<open>SqRead\<close> is the function given to \<open>read_transaction\<close>: it loads every cell, in order.
\<close>

fun seq_exec :: "seq_mem \<Rightarrow> seq_pc \<Rightarrow> (seq_mem \<times> seq_pc \<times> keff) option" where
  "seq_exec m SqWOut = None"
| "seq_exec m SqWriting = None"
| "seq_exec m (SqROut r) = None"
| "seq_exec m SqWBegin =
     (let (seq, c) = atomic_fetch_add (sequence m) 1 MO_acquire
      in Some (m\<lparr>sequence := c, g_seq := g_seq m + 1\<rparr>, SqWriting, KNone))"
| "seq_exec m (SqStore i v) = Some (m\<lparr>cells := (cells m)[i := v]\<rparr>, SqWriting, KNone)"
| "seq_exec m SqWEnd =
     (let (_, c) = atomic_fetch_add (sequence m) 1 MO_release
      in Some (m\<lparr>sequence := c, g_seq := g_seq m + 1, g_versions := g_versions m @ [cells m]\<rparr>,
           SqWOut, KNone))"
| "seq_exec m SqRBegin =
     (let seq = atomic_load (sequence m) MO_acquire
      in if seq AND 1 = 0 then Some (m, SqRead seq [] (g_seq m), KNone)
         else Some (m, SqRBegin, KNone))"
| "seq_exec m (SqRead seq snap g) =
     (if length snap < length (cells m)
      then Some (m, SqRead seq (snap @ [cells m ! length snap]) g, KNone)
      else Some (m, SqRetry seq snap g, KNone))"
| "seq_exec m (SqRetry seq snap g) =
     (let current = atomic_load (sequence m) MO_acquire
      in if current \<noteq> seq then Some (m, SqRBegin, KNone) else Some (m, SqROut (Some snap), KNone))"

definition seq_step :: "seq_op act \<Rightarrow> (seq_mem, seq_pc) fsys \<Rightarrow> (seq_mem, seq_pc) fsys option" where
  "seq_step = sys_step seq_exec seq_start"

text \<open>Thread 0 is the writer, the others are readers.\<close>

definition seq_init :: "nat list \<Rightarrow> nat \<Rightarrow> (seq_mem, seq_pc) fsys" where
  "seq_init data readers =
     \<lparr>shm = \<lparr>sequence = 0, cells = data, g_seq = 0, g_versions = [data]\<rparr>, waitq = [],
      pcs = SqWOut # replicate readers (SqROut None)\<rparr>"

abbreviation seq_reachable :: "nat list \<Rightarrow> nat \<Rightarrow> (seq_mem, seq_pc) fsys \<Rightarrow> bool" where
  "seq_reachable data readers \<equiv> reachable seq_step (seq_init data readers)"

section \<open>The invariant\<close>

text \<open>Writing is the part of the writer between the two increments.\<close>

fun seq_writing :: "seq_pc \<Rightarrow> bool" where
  "seq_writing SqWriting = True"
| "seq_writing (SqStore _ _) = True"
| "seq_writing SqWEnd = True"
| "seq_writing _ = False"

fun seq_writer :: "seq_pc \<Rightarrow> bool" where
  "seq_writer SqWOut = True"
| "seq_writer SqWBegin = True"
| "seq_writer l = seq_writing l"

definition seq_data :: "seq_mem \<Rightarrow> bool" where
  "seq_data m \<longleftrightarrow> sequence m = word_of_nat (g_seq m) \<and>
     length (g_versions m) = Suc (g_seq m div 2) \<and>
     (even (g_seq m) \<longrightarrow> cells m = last (g_versions m))"

text \<open>
  A reader started at an even sequence; as long as the sequence has not moved, what it has read is
  a prefix of the current data.
\<close>

fun seq_reader :: "seq_mem \<Rightarrow> seq_pc \<Rightarrow> bool" where
  "seq_reader m (SqRead seq snap g) = (even g \<and> seq = word_of_nat g \<and> g \<le> g_seq m \<and>
     (g_seq m = g \<longrightarrow> snap = take (length snap) (cells m)))"
| "seq_reader m (SqRetry seq snap g) = (even g \<and> seq = word_of_nat g \<and> g \<le> g_seq m \<and>
     (g_seq m = g \<longrightarrow> snap = cells m))"
| "seq_reader m _ = True"

definition seq_inv :: "(seq_mem, seq_pc) fsys \<Rightarrow> bool" where
  "seq_inv s \<longleftrightarrow> waitq s = [] \<and> pcs s \<noteq> [] \<and> seq_writer (pcs s ! 0) \<and>
     (odd (g_seq (shm s)) \<longleftrightarrow> seq_writing (pcs s ! 0)) \<and>
     (\<forall>t < length (pcs s). 0 < t \<longrightarrow> \<not> seq_writer (pcs s ! t)) \<and>
     (\<forall>t < length (pcs s). seq_reader (shm s) (pcs s ! t)) \<and> seq_data (shm s)"

lemma seq_writing_writer: "seq_writing l \<Longrightarrow> seq_writer l"
  by (cases l) auto

lemma seq_start_writer: "seq_start op l = Some l' \<Longrightarrow>
    seq_writer l' = seq_writer l \<and> seq_writing l' = seq_writing l \<and> seq_reader m l'"
  by (cases op; cases l) (auto split: if_splits)

lemma seq_exec_plain: "seq_exec m l = Some (m', l', k) \<Longrightarrow> k = KNone \<and> seq_writer l' = seq_writer l"
  by (cases l) (auto simp: Let_def split: if_splits)

lemma word_of_nat_even: "(word_of_nat g :: u32) AND 1 = 0 \<Longrightarrow> even g"
proof -
  assume "(word_of_nat g :: u32) AND 1 = 0"
  then have "even (unat (word_of_nat g :: u32))" by (simp add: word_and_1_eq_0)
  moreover have "unat (word_of_nat g :: u32) mod 2 = g mod 2"
    by (simp add: unat_of_nat mod_mod_cancel)
  ultimately show "even g" by (simp add: even_iff_mod_2_eq_zero)
qed

text \<open>A step of the thread itself keeps what it knows; a step of the writer what the readers know.\<close>

lemma seq_reader_self:
  assumes "seq_exec m l = Some (m', l', k)" and "seq_data m" and "seq_reader m l"
  shows "seq_reader m' l'"
  using assms
  by (cases l) (auto simp: seq_data_def Let_def take_Suc_conv_app_nth dest: word_of_nat_even split: if_splits)

lemma seq_reader_other:
  assumes "seq_exec m l = Some (m', l', k)" and "seq_reader m r" and "odd (g_seq m) \<longleftrightarrow> seq_writing l \<or> \<not> seq_writer l \<and> odd (g_seq m)"
  shows "seq_reader m' r"
proof (cases "seq_writer l")
  case False
  then have "m' = m" using assms(1) by (cases l) (auto simp: Let_def split: if_splits)
  with assms(2) show ?thesis by simp
next
  case True
  with assms show ?thesis
    by (cases l; cases r) (auto simp: Let_def split: if_splits)
qed

lemma seq_data_exec:
  assumes "seq_exec m l = Some (m', l', k)" and "seq_data m"
    and "seq_writer l \<Longrightarrow> odd (g_seq m) \<longleftrightarrow> seq_writing l"
  shows "seq_data m'" and "seq_writer l \<Longrightarrow> odd (g_seq m') \<longleftrightarrow> seq_writing l'"
    and "\<not> seq_writer l \<Longrightarrow> m' = m"
  using assms by (cases l; auto simp: seq_data_def Let_def split: if_splits)+

lemma seq_inv_step:
  assumes I: "seq_inv s" and stp: "seq_step a s = Some s'"
  shows "seq_inv s'"
  using stp unfolding seq_step_def
proof (cases rule: sys_stepE)
  case (invoke t op l)
  note st = seq_start_writer [OF invoke(4)]
  show ?thesis
    using I invoke st by (cases "t = 0") (auto simp: seq_inv_def nth_list_update)
next
  case (spurious t)
  with I show ?thesis by (simp add: seq_inv_def)
next
  case (exec t ws m' l k q)
  have k: "k = KNone" and wr: "seq_writer l = seq_writer (pcs s ! t)"
    using seq_exec_plain [OF exec(4)] by simp_all
  have w: "seq_writer (pcs s ! t) \<longleftrightarrow> t = 0" using I exec(2) by (auto simp: seq_inv_def)
  have odd: "seq_writer (pcs s ! t) \<Longrightarrow> odd (g_seq (shm s)) \<longleftrightarrow> seq_writing (pcs s ! t)"
    using I w by (simp add: seq_inv_def)
  have data: "seq_data (shm s)" and rd: "\<forall>u < length (pcs s). seq_reader (shm s) (pcs s ! u)"
    using I by (simp_all add: seq_inv_def)
  note upd = seq_data_exec [OF exec(4) data odd]
  have "seq_reader m' (pcs s ! u)" if "u < length (pcs s)" for u
    using seq_reader_other [OF exec(4), of "pcs s ! u"] rd that odd seq_writing_writer by blast
  moreover have "seq_reader m' l" using seq_reader_self [OF exec(4) data] rd exec(2) by blast
  ultimately have "\<forall>u < length ((pcs s)[t := l]). seq_reader m' ((pcs s)[t := l] ! u)"
    by (intro all_nth_update) auto
  moreover have "odd (g_seq m') \<longleftrightarrow> seq_writing ((pcs s)[t := l] ! 0)"
    using upd w I exec(2) by (cases "t = 0") (auto simp: seq_inv_def)
  moreover have "waitq s' = []" using exec k I by (simp add: seq_inv_def)
  ultimately show ?thesis
    using I exec upd(1) wr w by (auto simp: seq_inv_def nth_list_update)
qed

lemma seq_invariant:
  assumes "seq_reachable data readers s"
  shows "seq_inv s"
proof (rule reachable_invariant [OF assms, where I = seq_inv])
  show "seq_inv (seq_init data readers)"
    by (auto simp: seq_init_def seq_inv_def seq_data_def nth_Cons')
qed (rule seq_inv_step)

section \<open>A reader left alone\<close>

lemma seq_read_runs: "\<exists>k snap'. plain_run seq_exec k m (SqRead seq snap g) = Some (m, SqRetry seq snap' g)"
proof (induction "length (cells m) - length snap" arbitrary: snap)
  case 0
  then have "plain_run seq_exec 1 m (SqRead seq snap g) = Some (m, SqRetry seq snap g)" by simp
  then show ?case by blast
next
  case (Suc x)
  let ?snap = "snap @ [cells m ! length snap]"
  have ex: "seq_exec m (SqRead seq snap g) = Some (m, SqRead seq ?snap g, KNone)" using Suc(2) by simp
  have "x = length (cells m) - length ?snap" using Suc(2) by simp
  from Suc(1) [OF this] obtain k snap' where
    "plain_run seq_exec k m (SqRead seq ?snap g) = Some (m, SqRetry seq snap' g)" by blast
  with plain_run_step [of seq_exec, OF ex] show ?case by blast
qed

lemma seq_reader_runs:
  assumes l: "l = SqRBegin \<or> (\<exists>seq snap g. l = SqRead seq snap g \<or> l = SqRetry seq snap g)"
    and even: "sequence m AND 1 = 0"
  shows "\<exists>k r. plain_run seq_exec k m l = Some (m, SqROut (Some r))"
proof -
  let ?R = "\<lambda>l. \<exists>k r. plain_run seq_exec k m l = Some (m, SqROut (Some r))"
  have chain: "?R l" if "plain_run seq_exec i m l = Some (m, l')" and "?R l'" for i l l'
    using that plain_run_append [of seq_exec i m l m l'] by metis
  have fresh: "?R (SqRetry (sequence m) snap g)" for snap g
    by (rule exI [of _ 1], rule exI [of _ snap]) simp
  have fresh_start: "?R SqRBegin"
  proof -
    have "plain_run seq_exec 1 m SqRBegin = Some (m, SqRead (sequence m) [] (g_seq m))"
      using even by (simp add: Let_def)
    moreover obtain k snap where
      "plain_run seq_exec k m (SqRead (sequence m) [] (g_seq m)) = Some (m, SqRetry (sequence m) snap (g_seq m))"
      using seq_read_runs by blast
    ultimately show ?thesis using chain fresh by meson
  qed
  have retry: "?R (SqRetry seq snap g)" for seq snap g
  proof (cases "sequence m = seq")
    case True
    with fresh show ?thesis by blast
  next
    case False
    then have "plain_run seq_exec 1 m (SqRetry seq snap g) = Some (m, SqRBegin)" by (simp add: Let_def)
    with fresh_start show ?thesis by (rule chain [rotated])
  qed
  from l show ?thesis
  proof (elim disjE exE)
    fix seq snap g assume "l = SqRead seq snap g"
    with seq_read_runs [of m seq snap g] retry chain show ?thesis by metis
  qed (use fresh_start retry in auto)
qed

section \<open>Properties\<close>

text \<open>One reader and two cells: a write of both, and a read up to its last check.\<close>

definition seq_demo :: "seq_op act list" where
  "seq_demo = [Invoke 0 WriteBegin, Step 0 [], Invoke 0 (WriteCell 0 7), Step 0 [],
     Invoke 0 (WriteCell 1 8), Step 0 [], Invoke 0 WriteEnd, Step 0 [],
     Invoke 1 ReadTransaction, Step 1 [], Step 1 [], Step 1 [], Step 1 []]"

definition seq_demo_state :: "(seq_mem, seq_pc) fsys" where
  "seq_demo_state = \<lparr>shm = \<lparr>sequence = 2, cells = [7, 8], g_seq = 2, g_versions = [[0, 0], [7, 8]]\<rparr>,
     waitq = [], pcs = [SqWOut, SqRetry 2 [7, 8] 2]\<rparr>"

lemma seq_demo_reachable: "seq_reachable [0, 0] 1 seq_demo_state"
  by (rule run_reachable [of _ seq_demo]) code_simp

text \<open>
  C11. Consistent snapshots: if fewer than \<open>2 ^ 32\<close> increments (\<open>2 ^ 31\<close> writes) happened since
  the reader's \<open>read_begin\<close>, then what \<open>read_transaction\<close> returns is the data of one completed
  write, the last one, whatever the writer did in between: never a mixture of two writes.
\<close>
theorem seqlock_consistent_snapshot:
  assumes reach: "seq_reachable data readers s" and t: "t < length (pcs s)"
    and at: "pcs s ! t = SqRetry seq snap g" and nowrap: "g_seq (shm s) < g + 2 ^ 32"
    and stp: "seq_step (Step t ws) s = Some s'" and out: "pcs s' ! t = SqROut (Some r)"
  shows "r = last (g_versions (shm s)) \<and> r = cells (shm s)"
proof -
  have inv: "seq_inv s" by (rule seq_invariant [OF reach])
  then have rd: "seq_reader (shm s) (SqRetry seq snap g)" and data: "seq_data (shm s)"
    using t at by (auto simp: seq_inv_def elim!: allE [of _ t])
  have "sequence (shm s) = seq" and r: "r = snap"
    using stp out t at unfolding seq_step_def by (auto elim!: sys_stepE simp: Let_def split: if_splits)
  then have "(word_of_nat (g_seq (shm s)) :: u32) = word_of_nat g"
    using rd data by (simp add: seq_data_def)
  then have "g_seq (shm s) = g" using rd nowrap by (intro word_of_nat_close) auto
  with rd data r show ?thesis by (simp add: seq_data_def)
qed

theorem seqlock_consistent_snapshot_witness:
  "\<exists>s'. seq_step (Step 1 []) seq_demo_state = Some s' \<and> pcs s' ! 1 = SqROut (Some [7, 8]) \<and>
     [7, 8] = last (g_versions (shm seq_demo_state))"
proof -
  let ?s = "\<lparr>shm = \<lparr>sequence = 2, cells = [7, 8], g_seq = 2, g_versions = [[0, 0], [7, 8]]\<rparr>,
     waitq = [], pcs = [SqWOut, SqROut (Some [7, 8])]\<rparr>"
  have stp: "seq_step (Step 1 []) seq_demo_state = Some ?s" by code_simp
  have "[7, 8] = last (g_versions (shm seq_demo_state)) \<and> [7, 8] = cells (shm seq_demo_state)"
    by (rule seqlock_consistent_snapshot [OF seq_demo_reachable _ _ _ stp, of 2 "[7, 8]" 2])
      (simp_all add: seq_demo_state_def)
  with stp show ?thesis by simp
qed

text \<open>
  Readers finish: whenever no write is in progress, a reader inside \<open>read_transaction\<close>, at
  whatever point and with whatever stale sequence, returns a snapshot after finitely many steps of
  its own.
\<close>
theorem seqlock_reader_returns:
  assumes reach: "seq_reachable data readers s" and t: "t < length (pcs s)" "0 < t"
    and reading: "\<forall>r. pcs s ! t \<noteq> SqROut r" and idle: "\<not> seq_writing (pcs s ! 0)"
  shows "\<exists>k s' r. run seq_step (replicate k (Step t [])) s = Some s' \<and> pcs s' ! t = SqROut (Some r)"
proof -
  have inv: "seq_inv s" by (rule seq_invariant [OF reach])
  then have "even (g_seq (shm s))" and data: "seq_data (shm s)" using idle by (auto simp: seq_inv_def)
  then have "unat (sequence (shm s)) mod 2 = 0"
    by (auto simp: seq_data_def unat_of_nat mod_mod_cancel)
  then have even: "sequence (shm s) AND 1 = 0" by (auto simp: word_and_1_eq_0)
  have "\<not> seq_writer (pcs s ! t)" using inv t by (auto simp: seq_inv_def)
  with reading have "pcs s ! t = SqRBegin \<or>
      (\<exists>seq snap g. pcs s ! t = SqRead seq snap g \<or> pcs s ! t = SqRetry seq snap g)"
    by (cases "pcs s ! t") auto
  from seq_reader_runs [OF this even] obtain k r where
    "plain_run seq_exec k (shm s) (pcs s ! t) = Some (shm s, SqROut (Some r))" by blast
  moreover have "s = \<lparr>shm = shm s, waitq = [], pcs = pcs s\<rparr>" using inv by (simp add: seq_inv_def)
  ultimately have "run seq_step (replicate k (Step t [])) s =
      Some \<lparr>shm = shm s, waitq = [], pcs = (pcs s)[t := SqROut (Some r)]\<rparr>"
    unfolding seq_step_def using plain_run_system [of seq_exec k "shm s" "pcs s" t "shm s" _ "[]" seq_start] t
    by (metis list.set(1) empty_iff)
  with t show ?thesis by fastforce
qed

theorem seqlock_reader_returns_witness:
  "\<exists>k s' r. run seq_step (replicate k (Step 1 [])) seq_demo_state = Some s' \<and> pcs s' ! 1 = SqROut (Some r)"
  by (rule seqlock_reader_returns [OF seq_demo_reachable]) (simp_all add: seq_demo_state_def)

end
