(* ===== verification/SpscQueue.thy ===== *)
theory SpscQueue
  imports Futex
begin

text \<open>
  \<^verbatim>\<open>psync_spsc_queue.h\<close>: the single-producer single-consumer ring buffer. Shown: the
  capacity computed is the least power of two; the items come out in the order in which they went
  in, each once; a slot is constructed only when free and destroyed only when live; a call
  fails only on a queue that is full, or empty, at the moment it looks; and the destructor leaves no
  live object behind.
\<close>

section \<open>The capacity\<close>

definition round_up_pow2 :: "usize \<Rightarrow> usize" where
  "round_up_pow2 v =
     (let v = v - 1;
          v = v OR drop_bit 1 v;
          v = v OR drop_bit 2 v;
          v = v OR drop_bit 4 v;
          v = v OR drop_bit 8 v;
          v = v OR drop_bit 16 v;
          v = v OR drop_bit 32 v
      in v + 1)"

text \<open>Each line doubles the reach of the bits of \<open>x\<close> downwards.\<close>

definition smeared :: "usize \<Rightarrow> nat \<Rightarrow> usize \<Rightarrow> bool" where
  "smeared x L y \<longleftrightarrow> (\<forall>i. bit y i \<longleftrightarrow> (\<exists>j. i \<le> j \<and> j < i + L \<and> bit x j))"

lemma smeared_start: "smeared x 1 x"
  by (auto simp: smeared_def less_Suc_eq_le dest: le_antisym)

lemma smeared_double: "smeared x L y \<Longrightarrow> M = L + L \<Longrightarrow> smeared x M (y OR drop_bit L y)"
proof -
  assume y: "smeared x L y" and M: "M = L + L"
  have "bit (y OR drop_bit L y) i \<longleftrightarrow> (\<exists>j. i \<le> j \<and> j < i + (L + L) \<and> bit x j)" for i
  proof -
    have "bit (y OR drop_bit L y) i \<longleftrightarrow> bit y i \<or> bit y (L + i)"
      by (simp add: bit_or_iff bit_drop_bit_eq)
    also have "\<dots> \<longleftrightarrow> (\<exists>j. (i \<le> j \<and> j < i + L \<or> L + i \<le> j \<and> j < L + i + L) \<and> bit x j)"
      using y unfolding smeared_def by blast
    also have "\<dots> \<longleftrightarrow> (\<exists>j. i \<le> j \<and> j < i + (L + L) \<and> bit x j)"
    proof -
      have "(i \<le> j \<and> j < i + L \<or> L + i \<le> j \<and> j < L + i + L) = (i \<le> j \<and> j < i + (L + L))" for j
        by linarith
      then show ?thesis by simp
    qed
    finally show ?thesis .
  qed
  then show ?thesis by (simp add: smeared_def M)
qed

lemma smeared_mask:
  assumes y: "smeared x 64 y" and n: "2 ^ n \<le> unat x" "unat x < 2 ^ Suc n"
  shows "y = mask (Suc n)"
proof (rule bit_word_eqI)
  fix i assume i: "i < LENGTH(64)"
  have bx: "bit x j \<longleftrightarrow> odd (unat x div 2 ^ j)" for j
    by (simp add: bit_unsigned_iff flip: bit_iff_odd)
  have high: "\<not> bit x j" if "n < j" for j
  proof -
    have "(2::nat) ^ Suc n \<le> 2 ^ j" using that by (intro power_increasing) auto
    with n(2) show ?thesis by (simp add: bx)
  qed
  have "unat x div 2 ^ n = 1" using n by (intro div_nat_eqI) auto
  then have top: "bit x n" by (simp add: bx)
  have n64: "n < 64" using top bit_imp_le_length by fastforce
  have "bit y i \<longleftrightarrow> i \<le> n"
  proof
    assume "bit y i"
    with y obtain j where "i \<le> j" "bit x j" unfolding smeared_def by blast
    with high show "i \<le> n" by (meson le_trans not_le_imp_less order_less_imp_le)
  next
    assume "i \<le> n"
    with y top n64 show "bit y i" unfolding smeared_def by fastforce
  qed
  then show "bit y i \<longleftrightarrow> bit (mask (Suc n) :: usize) i" using i by (simp add: bit_mask_iff less_Suc_eq_le)
qed

lemma round_up_pow2_smeared: "\<exists>y. smeared (v - 1) 64 y \<and> round_up_pow2 v = y + 1"
  unfolding round_up_pow2_def Let_def
  by (rule exI, rule conjI, rule smeared_double [of _ 32], rule smeared_double [of _ 16],
      rule smeared_double [of _ 8], rule smeared_double [of _ 4], rule smeared_double [of _ 2],
      rule smeared_double [of _ 1], rule smeared_start, simp, simp, simp, simp, simp, simp, rule refl)

lemma round_up_pow2_least_power:
  assumes v: "1 \<le> unat v" "unat v \<le> 2 ^ 63"
  shows "\<exists>k \<le> 63. unat (round_up_pow2 v) = 2 ^ k \<and> unat v \<le> 2 ^ k \<and> (\<forall>j. unat v \<le> 2 ^ j \<longrightarrow> k \<le> j)"
proof -
  obtain y where y: "smeared (v - 1) 64 y" and r: "round_up_pow2 v = y + 1"
    using round_up_pow2_smeared by blast
  have x: "unat (v - 1) = unat v - 1" using v by (simp add: unat_sub_small)
  show ?thesis
  proof (cases "unat v = 1")
    case True
    then have "v - 1 = 0" using x by (simp add: unat_eq_zero)
    with y have "\<And>i. \<not> bit y i" by (simp add: smeared_def)
    then have "y = 0" by (intro bit_eqI) auto
    with r True show ?thesis by (intro exI [of _ 0]) simp
  next
    case False
    with x v have "1 \<le> unat (v - 1)" by linarith
    then obtain n where n: "2 ^ n \<le> unat (v - 1)" "unat (v - 1) < 2 ^ Suc n"
      using ex_power_ivl1 [of 2 "unat (v - 1)"] by auto
    have "(2::nat) ^ n < 2 ^ 63" using n(1) x v by linarith
    then have n63: "n < 63" by (rule power_less_imp_less_exp [rotated]) simp
    have "round_up_pow2 v = (2 :: usize) ^ Suc n"
      using smeared_mask [OF y n] r by (simp add: mask_eq_exp_minus_1)
    then have "round_up_pow2 v = word_of_nat (2 ^ Suc n)" by simp
    then have "unat (round_up_pow2 v) = 2 ^ Suc n mod 2 ^ 64" by (simp only: unat_of_nat) simp
    moreover have "(2::nat) ^ Suc n < 2 ^ 64" using n63 by (intro power_strict_increasing) auto
    ultimately have "unat (round_up_pow2 v) = 2 ^ Suc n" by (simp only: mod_less)
    moreover have "Suc n \<le> j" if "unat v \<le> 2 ^ j" for j
    proof -
      have "(2::nat) ^ n < 2 ^ j" using that n(1) x v by linarith
      then show ?thesis by (simp add: power_less_imp_less_exp Suc_le_eq)
    qed
    moreover have "unat v \<le> 2 ^ Suc n" using n(2) x by linarith
    ultimately show ?thesis using n63 by (intro exI [of _ "Suc n"]) auto
  qed
qed

section \<open>The ring\<close>

text \<open>
  A slot of the buffer holds a live object or raw memory. The \<open>g_\<close> fields are for the
  specification: everything pushed and popped so far, and the unwrapped values of the two cached
  indices.
\<close>

record spsc_mem =
  sq_mask :: usize
  sq_buffer :: "nat option list"
  sq_head :: usize
  sq_tail_cached :: usize
  sq_tail :: usize
  sq_head_cached :: usize
  g_pushed :: "nat list"
  g_popped :: "nat list"
  g_tail_cached :: nat
  g_head_cached :: nat

definition spsc_capacity :: "spsc_mem \<Rightarrow> usize" where
  "spsc_capacity m = sq_mask m + 1"

definition spsc_create :: "usize \<Rightarrow> spsc_mem" where
  "spsc_create capacity =
     (let mask = round_up_pow2 (if capacity < 2 then 2 else capacity) - 1
      in \<lparr>sq_mask = mask, sq_buffer = replicate (unat (mask + 1)) None, sq_head = 0,
          sq_tail_cached = 0, sq_tail = 0, sq_head_cached = 0, g_pushed = [], g_popped = [],
          g_tail_cached = 0, g_head_cached = 0\<rparr>)"

text \<open>The points of \<open>try_push\<close> (the producer) and \<open>try_pop\<close> (the consumer).\<close>

datatype spsc_pc =
    PrOut "bool option"
  | PrHead nat
  | PrTail nat usize
  | PrConstruct nat usize
  | PrPublish nat usize
  | CoOut "nat option option"
  | CoTail
  | CoHead usize
  | CoTake usize
  | CoPublish usize nat

datatype spsc_op = TryPush nat | TryPop

fun spsc_start :: "spsc_op \<Rightarrow> spsc_pc \<Rightarrow> spsc_pc option" where
  "spsc_start (TryPush v) l = (case l of PrOut _ \<Rightarrow> Some (PrHead v) | _ \<Rightarrow> None)"
| "spsc_start TryPop l = (case l of CoOut _ \<Rightarrow> Some CoTail | _ \<Rightarrow> None)"

fun spsc_exec :: "spsc_mem \<Rightarrow> spsc_pc \<Rightarrow> (spsc_mem \<times> spsc_pc \<times> keff) option" where
  "spsc_exec m (PrOut r) = None"
| "spsc_exec m (CoOut r) = None"
| "spsc_exec m (PrHead v) =
     (let head = sq_head m
      in if sq_mask m < head - sq_tail_cached m then Some (m, PrTail v head, KNone)
         else Some (m, PrConstruct v head, KNone))"
| "spsc_exec m (PrTail v head) =
     (let m' = m\<lparr>sq_tail_cached := sq_tail m, g_tail_cached := length (g_popped m)\<rparr>
      in if sq_mask m < head - sq_tail_cached m' then Some (m', PrOut (Some False), KNone)
         else Some (m', PrConstruct v head, KNone))"
| "spsc_exec m (PrConstruct v head) =
     Some (m\<lparr>sq_buffer := (sq_buffer m)[unat (head AND sq_mask m) := Some v]\<rparr>,
       PrPublish v head, KNone)"
| "spsc_exec m (PrPublish v head) =
     Some (m\<lparr>sq_head := head + 1, g_pushed := g_pushed m @ [v]\<rparr>, PrOut (Some True), KNone)"
| "spsc_exec m CoTail =
     (let tail = sq_tail m
      in if tail = sq_head_cached m then Some (m, CoHead tail, KNone)
         else Some (m, CoTake tail, KNone))"
| "spsc_exec m (CoHead tail) =
     (let m' = m\<lparr>sq_head_cached := sq_head m, g_head_cached := length (g_pushed m)\<rparr>
      in if tail = sq_head_cached m' then Some (m', CoOut (Some None), KNone)
         else Some (m', CoTake tail, KNone))"
| "spsc_exec m (CoTake tail) =
     (let i = unat (tail AND sq_mask m)
      in case sq_buffer m ! i of
           None \<Rightarrow> None
         | Some v \<Rightarrow> Some (m\<lparr>sq_buffer := (sq_buffer m)[i := None]\<rparr>, CoPublish tail v, KNone))"
| "spsc_exec m (CoPublish tail v) =
     Some (m\<lparr>sq_tail := tail + 1, g_popped := g_popped m @ [v]\<rparr>, CoOut (Some (Some v)), KNone)"

definition spsc_step :: "spsc_op act \<Rightarrow> (spsc_mem, spsc_pc) fsys \<Rightarrow> (spsc_mem, spsc_pc) fsys option" where
  "spsc_step = sys_step spsc_exec spsc_start"

text \<open>Thread 0 is the producer, thread 1 the consumer.\<close>

definition spsc_init :: "usize \<Rightarrow> (spsc_mem, spsc_pc) fsys" where
  "spsc_init capacity = \<lparr>shm = spsc_create capacity, waitq = [], pcs = [PrOut None, CoOut None]\<rparr>"

abbreviation spsc_reachable :: "usize \<Rightarrow> (spsc_mem, spsc_pc) fsys \<Rightarrow> bool" where
  "spsc_reachable capacity \<equiv> reachable spsc_step (spsc_init capacity)"

section \<open>The invariant\<close>

fun spsc_producer :: "spsc_pc \<Rightarrow> bool" where
  "spsc_producer (PrOut _) = True"
| "spsc_producer (PrHead _) = True"
| "spsc_producer (PrTail _ _) = True"
| "spsc_producer (PrConstruct _ _) = True"
| "spsc_producer (PrPublish _ _) = True"
| "spsc_producer _ = False"

text \<open>
  With \<open>h\<close> items pushed and \<open>t\<close> popped, the window of positions \<open>t..<t + cap\<close> covers every
  slot once; this is what the slot of position \<open>j\<close> holds. The producer's constructed but
  unpublished item, and the item the consumer has taken but not released, are the two corrections.
\<close>

definition spsc_content :: "spsc_mem \<Rightarrow> spsc_pc \<Rightarrow> spsc_pc \<Rightarrow> nat \<Rightarrow> nat option" where
  "spsc_content m p c j =
     (if j < length (g_pushed m) then
        (if j = length (g_popped m) \<and> (\<exists>tail v. c = CoPublish tail v) then None
         else Some (g_pushed m ! j))
      else if j = length (g_pushed m) then (case p of PrPublish v _ \<Rightarrow> Some v | _ \<Rightarrow> None)
      else None)"

fun spsc_local_p :: "nat \<Rightarrow> spsc_mem \<Rightarrow> spsc_pc \<Rightarrow> bool" where
  "spsc_local_p cap m (PrTail v head) = (head = sq_head m)"
| "spsc_local_p cap m (PrConstruct v head) =
     (head = sq_head m \<and> length (g_pushed m) < g_tail_cached m + cap)"
| "spsc_local_p cap m (PrPublish v head) =
     (head = sq_head m \<and> length (g_pushed m) < g_tail_cached m + cap)"
| "spsc_local_p cap m l = spsc_producer l"

fun spsc_local_c :: "spsc_mem \<Rightarrow> spsc_pc \<Rightarrow> bool" where
  "spsc_local_c m (CoHead tail) = (tail = sq_tail m)"
| "spsc_local_c m (CoTake tail) = (tail = sq_tail m \<and> length (g_popped m) < g_head_cached m)"
| "spsc_local_c m (CoPublish tail v) =
     (tail = sq_tail m \<and> length (g_popped m) < g_head_cached m \<and> v = g_pushed m ! length (g_popped m))"
| "spsc_local_c m l = (\<not> spsc_producer l)"

definition spsc_shape :: "nat \<Rightarrow> spsc_mem \<Rightarrow> bool" where
  "spsc_shape cap m \<longleftrightarrow>
     (\<exists>k \<le> 63. cap = 2 ^ k) \<and> unat (sq_mask m) = cap - 1 \<and> length (sq_buffer m) = cap \<and>
     sq_head m = word_of_nat (length (g_pushed m)) \<and>
     sq_tail m = word_of_nat (length (g_popped m)) \<and>
     sq_tail_cached m = word_of_nat (g_tail_cached m) \<and>
     sq_head_cached m = word_of_nat (g_head_cached m) \<and>
     g_tail_cached m \<le> length (g_popped m) \<and> length (g_pushed m) \<le> g_tail_cached m + cap \<and>
     length (g_popped m) \<le> g_head_cached m \<and> g_head_cached m \<le> length (g_pushed m) \<and>
     g_popped m = take (length (g_popped m)) (g_pushed m)"

definition spsc_slots :: "nat \<Rightarrow> spsc_mem \<Rightarrow> spsc_pc \<Rightarrow> spsc_pc \<Rightarrow> bool" where
  "spsc_slots cap m p c \<longleftrightarrow> (\<forall>j. length (g_popped m) \<le> j \<and> j < length (g_popped m) + cap \<longrightarrow>
     sq_buffer m ! (j mod cap) = spsc_content m p c j)"

definition spsc_inv :: "nat \<Rightarrow> spsc_mem \<Rightarrow> spsc_pc \<Rightarrow> spsc_pc \<Rightarrow> bool" where
  "spsc_inv cap m p c \<longleftrightarrow> spsc_shape cap m \<and> spsc_local_p cap m p \<and> spsc_local_c m c \<and>
     spsc_slots cap m p c"

text \<open>The arithmetic of the wrapped indices.\<close>

lemma ring_index:
  assumes k: "k \<le> 63" and mask: "unat (msk :: usize) = 2 ^ k - 1"
  shows "unat (word_of_nat j AND msk) = j mod 2 ^ k"
proof -
  have "msk = word_of_nat (unat msk)" by simp
  also have "\<dots> = word_of_nat (2 ^ k - 1)" using mask by simp
  also have "\<dots> = mask k" by (simp add: mask_eq_exp_minus_1 of_nat_diff)
  finally have "unat (word_of_nat j AND msk) = unat (word_of_nat j :: usize) mod 2 ^ k"
    by (simp add: unat_and_mask)
  also have "unat (word_of_nat j :: usize) = j mod 2 ^ 64" by (simp add: unat_of_nat)
  also have "j mod 2 ^ 64 mod 2 ^ k = j mod 2 ^ k"
    by (rule mod_mod_cancel, rule le_imp_power_dvd) (use k in simp)
  finally show ?thesis .
qed

lemma spsc_index:
  assumes "spsc_shape cap m"
  shows "unat (word_of_nat j AND sq_mask m) = j mod cap"
  using assms ring_index [of _ "sq_mask m" j] by (auto simp: spsc_shape_def)

lemma spsc_difference:
  assumes "b \<le> a" and "a \<le> b + cap" and "cap \<le> 2 ^ 63"
  shows "unat (word_of_nat a - word_of_nat b :: usize) = a - b"
proof -
  have "(word_of_nat a - word_of_nat b :: usize) = word_of_nat (a - b)" using assms(1) by (simp add: of_nat_diff)
  moreover have "a - b < 2 ^ 64" using assms by simp
  ultimately show ?thesis by (simp add: unat_of_nat)
qed

lemma mod_window: "(j::nat) mod c = i mod c \<Longrightarrow> t \<le> i \<Longrightarrow> i < t + c \<Longrightarrow> t \<le> j \<Longrightarrow> j < t + c \<Longrightarrow> i = j"
proof (induction i j rule: linorder_wlog)
  case (le a b)
  then have "c dvd b - a" by (simp add: mod_eq_dvd_iff_nat)
  moreover have "b - a < c" using le by linarith
  ultimately have "b - a = 0" by (auto dest: nat_dvd_not_less)
  with le show ?case by simp
next
  case (sym a b)
  then show ?case by simp
qed

lemma window_hits:
  assumes "i < c"
  shows "\<exists>j::nat. n \<le> j \<and> j < n + c \<and> j mod c = i"
proof (intro exI conjI)
  let ?j = "n + (i + (c - n mod c)) mod c"
  show "n \<le> ?j" "?j < n + c" using assms by auto
  have "?j mod c = (n mod c + (i + (c - n mod c))) mod c"
    by (metis mod_add_left_eq mod_add_right_eq)
  also have "n mod c + (i + (c - n mod c)) = i + c"
    using assms mod_less_divisor [of c n] by linarith
  finally show "?j mod c = i" using assms by simp
qed

text \<open>What the two tests of \<open>try_push\<close> and \<open>try_pop\<close> decide.\<close>

lemma spsc_cap:
  assumes "spsc_shape cap m"
  shows "0 < cap \<and> cap \<le> 2 ^ 63"
proof -
  obtain k where k: "k \<le> 63" "cap = 2 ^ k" using assms by (auto simp: spsc_shape_def)
  have "(2 :: nat) ^ k \<le> 2 ^ 63" using k(1) by (rule power_increasing) simp
  with k(2) show ?thesis by simp
qed

lemma spsc_bounds:
  assumes "spsc_shape cap m"
  shows "length (g_popped m) \<le> length (g_pushed m)"
    and "length (g_pushed m) \<le> length (g_popped m) + cap"
  using assms by (auto simp: spsc_shape_def)

lemma spsc_full_test:
  assumes "spsc_shape cap m" and "b \<le> length (g_pushed m)" and "length (g_pushed m) \<le> b + cap"
  shows "sq_mask m < sq_head m - word_of_nat b \<longleftrightarrow> length (g_pushed m) = b + cap"
proof -
  have "unat (sq_head m - word_of_nat b) = length (g_pushed m) - b"
    using assms spsc_cap [OF assms(1)] spsc_difference [of b "length (g_pushed m)" cap]
    by (simp add: spsc_shape_def)
  with assms spsc_cap [OF assms(1)] show ?thesis
    by (auto simp: word_less_nat_alt spsc_shape_def)
qed

lemma spsc_empty_test:
  assumes "spsc_shape cap m" and "length (g_popped m) \<le> a" and "a \<le> length (g_pushed m)"
  shows "sq_tail m = word_of_nat a \<longleftrightarrow> a = length (g_popped m)"
proof
  assume "sq_tail m = word_of_nat a"
  then have "(word_of_nat a :: usize) = word_of_nat (length (g_popped m))"
    using assms(1) by (simp add: spsc_shape_def)
  moreover have "a < length (g_popped m) + 2 ^ LENGTH(64)"
    using assms spsc_bounds [OF assms(1)] spsc_cap [OF assms(1)] by simp
  ultimately show "a = length (g_popped m)" using assms(2) by (intro word_of_nat_close) auto
qed (use assms in \<open>simp add: spsc_shape_def\<close>)

text \<open>Writing the slot of one position of the window leaves the others alone.\<close>

lemma spsc_slot_update:
  assumes "spsc_slots cap m p c" and "length (sq_buffer m) = cap"
    and i: "length (g_popped m) \<le> i" "i < length (g_popped m) + cap"
    and m': "m' = m\<lparr>sq_buffer := (sq_buffer m)[i mod cap := x]\<rparr>"
    and content: "\<And>j. j \<noteq> i \<Longrightarrow> spsc_content m' p' c' j = spsc_content m p c j"
      "spsc_content m' p' c' i = x"
  shows "spsc_slots cap m' p' c'"
  unfolding spsc_slots_def
proof (intro allI impI)
  fix j assume "length (g_popped m') \<le> j \<and> j < length (g_popped m') + cap"
  then have j: "length (g_popped m) \<le> j" "j < length (g_popped m) + cap" using m' by simp_all
  have "0 < cap" using i by (cases cap) auto
  show "sq_buffer m' ! (j mod cap) = spsc_content m' p' c' j"
  proof (cases "j = i")
    case True
    with content(2) m' assms(2) \<open>0 < cap\<close> show ?thesis by simp
  next
    case False
    then have "j mod cap \<noteq> i mod cap" using mod_window [of j cap i "length (g_popped m)"] i j by blast
    with content(1) [OF False] m' assms(1) j show ?thesis by (simp add: spsc_slots_def)
  qed
qed

lemma spsc_slots_same:
  assumes "spsc_slots cap m p c" and "sq_buffer m' = sq_buffer m" and "g_popped m' = g_popped m"
    and "\<And>j. spsc_content m' p' c' j = spsc_content m p c j"
  shows "spsc_slots cap m' p' c'"
  using assms by (simp add: spsc_slots_def)

lemma spsc_producer_step:
  assumes I: "spsc_inv cap m p c" and pr: "spsc_producer p" and ex: "spsc_exec m p = Some (m', p', k)"
  shows "spsc_inv cap m' p' c \<and> k = KNone \<and> spsc_producer p'"
proof -
  have sh: "spsc_shape cap m" and lp: "spsc_local_p cap m p" and lc: "spsc_local_c m c"
    and sl: "spsc_slots cap m p c" using I by (simp_all add: spsc_inv_def)
  have tc: "g_tail_cached m \<le> length (g_popped m)" "length (g_pushed m) \<le> g_tail_cached m + cap"
    "sq_tail_cached m = word_of_nat (g_tail_cached m)" "sq_tail m = word_of_nat (length (g_popped m))"
    and len: "length (sq_buffer m) = cap" using sh by (simp_all add: spsc_shape_def)
  note b = spsc_bounds [OF sh]
  show ?thesis
  proof (cases p)
    case (PrHead v)
    have "sq_mask m < sq_head m - sq_tail_cached m \<longleftrightarrow> length (g_pushed m) = g_tail_cached m + cap"
      using spsc_full_test [OF sh, of "g_tail_cached m"] tc b by simp
    with ex PrHead sh lc sl tc show ?thesis
      by (auto simp: spsc_inv_def Let_def spsc_content_def intro: spsc_slots_same split: if_splits)
  next
    case (PrTail v head)
    have full: "sq_mask m < sq_head m - sq_tail m \<longleftrightarrow> length (g_pushed m) = length (g_popped m) + cap"
      using spsc_full_test [OF sh, of "length (g_popped m)"] tc b by simp
    let ?m = "m\<lparr>sq_tail_cached := sq_tail m, g_tail_cached := length (g_popped m)\<rparr>"
    have "spsc_shape cap ?m" using sh b tc by (simp add: spsc_shape_def)
    moreover have "spsc_local_c ?m c" using lc by (cases c) auto
    moreover have "spsc_slots cap ?m p' c" if "p' = PrOut (Some False) \<or> p' = PrConstruct v head" for p'
      by (rule spsc_slots_same [OF sl]) (use that PrTail in \<open>auto simp: spsc_content_def\<close>)
    ultimately show ?thesis
      using ex PrTail lp full b by (auto simp: spsc_inv_def Let_def split: if_splits)
  next
    case (PrConstruct v head)
    let ?i = "length (g_pushed m)"
    have head: "head = sq_head m" "?i < g_tail_cached m + cap" using lp PrConstruct by simp_all
    then have idx: "unat (head AND sq_mask m) = ?i mod cap"
      using spsc_index [OF sh, of ?i] sh by (simp add: spsc_shape_def)
    let ?m = "m\<lparr>sq_buffer := (sq_buffer m)[?i mod cap := Some v]\<rparr>"
    have "spsc_slots cap ?m (PrPublish v head) c"
      by (rule spsc_slot_update [OF sl len _ _ refl]) (use b tc head PrConstruct in \<open>auto simp: spsc_content_def\<close>)
    moreover have "spsc_shape cap ?m" using sh by (simp add: spsc_shape_def)
    moreover have "spsc_local_c ?m c" using lc by (cases c) auto
    ultimately show ?thesis using ex PrConstruct idx head by (auto simp: spsc_inv_def)
  next
    case (PrPublish v head)
    let ?m = "m\<lparr>sq_head := head + 1, g_pushed := g_pushed m @ [v]\<rparr>"
    have "head = sq_head m" "length (g_pushed m) < g_tail_cached m + cap" using lp PrPublish by simp_all
    then have "spsc_shape cap ?m" using sh by (auto simp: spsc_shape_def add.commute)
    moreover have "spsc_local_c ?m c" using lc sh by (cases c) (auto simp: nth_append spsc_shape_def)
    moreover have "length (g_popped m) < length (g_pushed m)" if "c = CoPublish tail w" for tail w
      using that lc sh by (simp add: spsc_shape_def)
    then have "spsc_content ?m (PrOut (Some True)) c j = spsc_content m p c j" for j
      using PrPublish by (auto simp: spsc_content_def nth_append less_Suc_eq)
    then have "spsc_slots cap ?m (PrOut (Some True)) c"
      by (intro spsc_slots_same [OF sl]) simp_all
    ultimately show ?thesis using ex PrPublish by (auto simp: spsc_inv_def)
  qed (use pr ex in auto)
qed

text \<open>The slot the consumer takes from is live, and holds the next item.\<close>

lemma spsc_take_slot:
  assumes I: "spsc_inv cap m p (CoTake tail)"
  shows "sq_buffer m ! unat (tail AND sq_mask m) = Some (g_pushed m ! length (g_popped m))"
    and "unat (tail AND sq_mask m) = length (g_popped m) mod cap"
proof -
  have sh: "spsc_shape cap m" and lc: "spsc_local_c m (CoTake tail)"
    and sl: "spsc_slots cap m p (CoTake tail)" using I unfolding spsc_inv_def by blast+
  then show idx: "unat (tail AND sq_mask m) = length (g_popped m) mod cap"
    using spsc_index [OF sh, of "length (g_popped m)"] by (simp add: spsc_shape_def)
  have "length (g_popped m) < length (g_pushed m)" using lc sh by (simp add: spsc_shape_def)
  with sl idx spsc_cap [OF sh] show
    "sq_buffer m ! unat (tail AND sq_mask m) = Some (g_pushed m ! length (g_popped m))"
    by (simp add: spsc_slots_def spsc_content_def)
qed

lemma spsc_consumer_step:
  assumes I: "spsc_inv cap m p c" and co: "\<not> spsc_producer c" and pr: "spsc_producer p"
    and ex: "spsc_exec m c = Some (m', c', k)"
  shows "spsc_inv cap m' p c' \<and> k = KNone \<and> \<not> spsc_producer c'"
proof -
  have sh: "spsc_shape cap m" and lp: "spsc_local_p cap m p" and lc: "spsc_local_c m c"
    and sl: "spsc_slots cap m p c" using I by (simp_all add: spsc_inv_def)
  note b = spsc_bounds [OF sh] and cap = spsc_cap [OF sh]
  have len: "length (sq_buffer m) = cap" using sh by (simp add: spsc_shape_def)
  show ?thesis
  proof (cases c)
    case CoTail
    have "sq_tail m = sq_head_cached m \<longleftrightarrow> g_head_cached m = length (g_popped m)"
      using spsc_empty_test [OF sh, of "g_head_cached m"] sh by (simp add: spsc_shape_def)
    with ex CoTail sh lp sl show ?thesis
      by (auto simp: spsc_inv_def Let_def spsc_content_def spsc_shape_def intro: spsc_slots_same split: if_splits)
  next
    case (CoHead tail)
    have e: "sq_tail m = sq_head m \<longleftrightarrow> length (g_pushed m) = length (g_popped m)"
      using spsc_empty_test [OF sh, of "length (g_pushed m)"] b sh by (simp add: spsc_shape_def)
    let ?m = "m\<lparr>sq_head_cached := sq_head m, g_head_cached := length (g_pushed m)\<rparr>"
    have "spsc_shape cap ?m" using sh b by (simp add: spsc_shape_def)
    moreover have "spsc_local_p cap ?m p" using lp by (cases p) auto
    moreover have "spsc_slots cap ?m p c'" if "c' = CoOut (Some None) \<or> c' = CoTake tail" for c'
      by (rule spsc_slots_same [OF sl]) (use that CoHead in \<open>auto simp: spsc_content_def\<close>)
    ultimately show ?thesis
      using ex CoHead lc e b by (auto simp: spsc_inv_def Let_def split: if_splits)
  next
    case (CoTake tail)
    let ?t = "length (g_popped m)" let ?v = "g_pushed m ! ?t"
    note slot = spsc_take_slot [of cap m p tail]
    have lt: "tail = sq_tail m" "?t < g_head_cached m" "?t < length (g_pushed m)"
      using lc sh CoTake by (simp_all add: spsc_shape_def)
    let ?m = "m\<lparr>sq_buffer := (sq_buffer m)[?t mod cap := None]\<rparr>"
    have "spsc_slots cap ?m p (CoPublish tail ?v)"
      by (rule spsc_slot_update [OF sl len _ _ refl]) (use lt CoTake cap in \<open>auto simp: spsc_content_def\<close>)
    moreover have "spsc_shape cap ?m" using sh by (simp add: spsc_shape_def)
    moreover have "spsc_local_p cap ?m p" using lp by (cases p) auto
    ultimately show ?thesis using ex CoTake I slot lt by (auto simp: spsc_inv_def Let_def)
  next
    case (CoPublish tail v)
    let ?t = "length (g_popped m)"
    let ?m = "m\<lparr>sq_tail := tail + 1, g_popped := g_popped m @ [v]\<rparr>"
    have lt: "tail = sq_tail m" "?t < g_head_cached m" "v = g_pushed m ! ?t" "?t < length (g_pushed m)"
      using lc sh CoPublish by (simp_all add: spsc_shape_def)
    then have "g_popped m @ [v] = take (Suc ?t) (g_pushed m)"
      using sh by (simp add: take_Suc_conv_app_nth spsc_shape_def)
    then have "spsc_shape cap ?m" using sh lt by (auto simp: spsc_shape_def add.commute)
    moreover have "spsc_local_p cap ?m p" using lp by (cases p) auto
    moreover have "spsc_slots cap ?m p (CoOut (Some (Some v)))"
      unfolding spsc_slots_def
    proof (intro allI impI)
      fix j assume j: "length (g_popped ?m) \<le> j \<and> j < length (g_popped ?m) + cap"
      let ?c = "spsc_content ?m p (CoOut (Some (Some v))) j"
      show "sq_buffer ?m ! (j mod cap) = ?c"
      proof (cases "j = ?t + cap")
        case True
        have "?c = None"
          using True b lp sh by (cases p) (auto simp: spsc_content_def spsc_shape_def)
        moreover have "sq_buffer m ! (?t mod cap) = None"
          using sl CoPublish lt cap by (simp add: spsc_slots_def spsc_content_def)
        ultimately show ?thesis using True by simp
      next
        case False
        then have "sq_buffer m ! (j mod cap) = spsc_content m p c j" using sl j by (simp add: spsc_slots_def)
        with j show ?thesis by (simp add: spsc_content_def)
      qed
    qed
    ultimately show ?thesis using ex CoPublish by (auto simp: spsc_inv_def)
  qed (use co ex in auto)
qed

section \<open>The running queue\<close>

definition spsc_sys_inv :: "nat \<Rightarrow> (spsc_mem, spsc_pc) fsys \<Rightarrow> bool" where
  "spsc_sys_inv cap s \<longleftrightarrow> waitq s = [] \<and> length (pcs s) = 2 \<and> spsc_producer (pcs s ! 0) \<and>
     \<not> spsc_producer (pcs s ! 1) \<and> spsc_inv cap (shm s) (pcs s ! 0) (pcs s ! 1)"

definition spsc_size :: "usize \<Rightarrow> nat" where
  "spsc_size capacity = unat (round_up_pow2 (if capacity < 2 then 2 else capacity))"

lemma spsc_size_power: "unat capacity \<le> 2 ^ 63 \<Longrightarrow> \<exists>k \<le> 63. spsc_size capacity = 2 ^ k"
  using round_up_pow2_least_power [of "if capacity < 2 then 2 else capacity"]
  by (auto simp: spsc_size_def word_less_nat_alt split: if_splits)

lemma spsc_inv_init:
  assumes "unat capacity \<le> 2 ^ 63"
  shows "spsc_sys_inv (spsc_size capacity) (spsc_init capacity)"
proof -
  obtain k where k: "k \<le> 63" "spsc_size capacity = 2 ^ k" using spsc_size_power [OF assms] by blast
  let ?r = "round_up_pow2 (if capacity < 2 then 2 else capacity)"
  have r: "unat ?r = spsc_size capacity" by (simp add: spsc_size_def)
  then have "unat (1::usize) \<le> unat ?r" using k by simp
  then have "unat (?r - 1) = spsc_size capacity - 1" using r by (simp only: unat_sub_small) simp
  then show ?thesis
    using k r by (auto simp: spsc_sys_inv_def spsc_init_def spsc_create_def spsc_inv_def spsc_shape_def
        spsc_slots_def spsc_content_def Let_def simp del: One_nat_def)
qed

lemma spsc_start_cases:
  assumes "spsc_start op l = Some l'" and "spsc_inv cap m p c"
  shows "spsc_producer l' = spsc_producer l" and "l = p \<Longrightarrow> spsc_inv cap m l' c"
    and "l = c \<Longrightarrow> spsc_inv cap m p l'"
  using assms
  by (cases op; cases l; auto simp: spsc_inv_def spsc_slots_def spsc_content_def)+

lemma spsc_sys_inv_step:
  assumes I: "spsc_sys_inv cap s" and stp: "spsc_step a s = Some s'"
  shows "spsc_sys_inv cap s'"
proof -
  obtain m p c where s: "s = \<lparr>shm = m, waitq = [], pcs = [p, c]\<rparr>"
  proof -
    have "pcs s = [pcs s ! 0, pcs s ! 1]"
      using I by (auto simp: spsc_sys_inv_def numeral_2_eq_2 length_Suc_conv)
    then have "s = \<lparr>shm = shm s, waitq = [], pcs = [pcs s ! 0, pcs s ! 1]\<rparr>"
      using I by (simp add: spsc_sys_inv_def)
    then show ?thesis by (rule that)
  qed
  have pc: "spsc_producer p" "\<not> spsc_producer c" "spsc_inv cap m p c"
    using I s by (simp_all add: spsc_sys_inv_def)
  from stp show ?thesis
    unfolding spsc_step_def
  proof (cases rule: sys_stepE)
    case (invoke t op l)
    with s have "t = 0 \<or> t = 1" by auto
    with invoke s pc spsc_start_cases [OF invoke(4), of cap m p c] show ?thesis
      by (auto simp: spsc_sys_inv_def)
  next
    case (exec t ws w l k q)
    with s have "t = 0 \<or> t = 1" by auto
    with exec s pc spsc_producer_step [OF pc(3,1)] spsc_consumer_step [OF pc(3,2,1)] show ?thesis
      by (fastforce simp: spsc_sys_inv_def)
  next
    case (spurious t)
    with s show ?thesis by simp
  qed
qed

lemma spsc_invariant:
  assumes "spsc_reachable capacity s" and "unat capacity \<le> 2 ^ 63"
  shows "spsc_sys_inv (spsc_size capacity) s"
  by (rule reachable_invariant [OF assms(1), where I = "spsc_sys_inv (spsc_size capacity)"])
    (use assms(2) in \<open>auto intro: spsc_inv_init spsc_sys_inv_step\<close>)

section \<open>The abstract queue\<close>

datatype fifo_event = Enqueue nat | Dequeue nat

fun fifo_spec :: "nat \<Rightarrow> fifo_event \<Rightarrow> nat list \<Rightarrow> nat list option" where
  "fifo_spec cap (Enqueue v) q = (if length q < cap then Some (q @ [v]) else None)"
| "fifo_spec cap (Dequeue v) q = (case q of [] \<Rightarrow> None | x # xs \<Rightarrow> if x = v then Some xs else None)"

definition spsc_items :: "(spsc_mem, spsc_pc) fsys \<Rightarrow> nat list" where
  "spsc_items s = drop (length (g_popped (shm s))) (g_pushed (shm s))"

text \<open>Only the two stores of the indices move the abstract queue.\<close>

lemma spsc_step_items:
  assumes I: "spsc_sys_inv cap s" and stp: "spsc_step a s = Some s'"
  shows "spsc_items s' = spsc_items s \<or> (\<exists>e. fifo_spec cap e (spsc_items s) = Some (spsc_items s'))"
  using stp unfolding spsc_step_def
proof (cases rule: sys_stepE)
  case (exec t ws m' l k q)
  have t: "t = 0 \<or> t = 1" using exec(2) I by (auto simp: spsc_sys_inv_def)
  have sh: "spsc_shape cap (shm s)" and lp: "spsc_local_p cap (shm s) (pcs s ! 0)"
    and lc: "spsc_local_c (shm s) (pcs s ! 1)" and roles: "spsc_producer (pcs s ! 0)" "\<not> spsc_producer (pcs s ! 1)"
    using I by (simp_all add: spsc_sys_inv_def spsc_inv_def)
  note b = spsc_bounds [OF sh]
  show ?thesis
  proof (cases "pcs s ! t")
    case (PrPublish v head)
    with t roles have "t = 0" by auto
    with PrPublish lp sh have "length (g_pushed (shm s)) - length (g_popped (shm s)) < cap"
      by (auto simp: spsc_shape_def)
    with exec PrPublish b have "fifo_spec cap (Enqueue v) (spsc_items s) = Some (spsc_items s')"
      by (auto simp: spsc_items_def)
    then show ?thesis by blast
  next
    case (CoPublish tail v)
    with t roles have "t = 1" by auto
    with CoPublish lc sh have v: "v = g_pushed (shm s) ! length (g_popped (shm s))"
      "length (g_popped (shm s)) < length (g_pushed (shm s))" by (auto simp: spsc_shape_def)
    then have "spsc_items s = v # drop (Suc (length (g_popped (shm s)))) (g_pushed (shm s))"
      by (simp add: spsc_items_def Cons_nth_drop_Suc)
    with exec CoPublish have "fifo_spec cap (Dequeue v) (spsc_items s) = Some (spsc_items s')"
      by (auto simp: spsc_items_def)
    then show ?thesis by blast
  qed (use exec in \<open>auto simp: spsc_items_def Let_def split: if_splits option.splits\<close>)
qed (auto simp: spsc_items_def)

text \<open>The steps a call has left.\<close>

fun spsc_left :: "spsc_pc \<Rightarrow> nat" where
  "spsc_left (PrOut _) = 0"
| "spsc_left (PrHead _) = 4"
| "spsc_left (PrTail _ _) = 3"
| "spsc_left (PrConstruct _ _) = 2"
| "spsc_left (PrPublish _ _) = 1"
| "spsc_left (CoOut _) = 0"
| "spsc_left CoTail = 4"
| "spsc_left (CoHead _) = 3"
| "spsc_left (CoTake _) = 2"
| "spsc_left (CoPublish _ _) = 1"

lemma spsc_exec_left: "spsc_exec m l = Some (m', l', k) \<Longrightarrow> spsc_left l' < spsc_left l"
  by (cases l) (auto simp: Let_def split: if_splits option.splits)

lemma spsc_exec_enabled:
  assumes "spsc_inv cap m p c" and "l = p \<and> spsc_producer p \<or> l = c" and "spsc_left l \<noteq> 0"
  shows "\<exists>m' l'. spsc_exec m l = Some (m', l', KNone)"
proof (cases "\<exists>tail. l = CoTake tail")
  case True
  with assms(2) obtain tail where "c = CoTake tail" "l = CoTake tail" by auto
  with spsc_take_slot(1) [of cap m p tail] assms(1) show ?thesis by (simp add: Let_def)
next
  case False
  with assms(3) show ?thesis by (cases l) (auto simp: Let_def)
qed

section \<open>Properties\<close>

text \<open>Capacity 2: two pushes, a pop, and the next pop up to the release of its slot.\<close>

definition spsc_demo :: "spsc_op act list" where
  "spsc_demo = [Invoke 0 (TryPush 5), Step 0 [], Step 0 [], Step 0 [], Invoke 0 (TryPush 6),
     Step 0 [], Step 0 [], Step 0 [], Invoke 1 TryPop, Step 1 [], Step 1 [], Step 1 []]"

definition spsc_demo_taken :: "(spsc_mem, spsc_pc) fsys" where
  "spsc_demo_taken = \<lparr>shm = \<lparr>sq_mask = 1, sq_buffer = [None, Some 6], sq_head = 2,
       sq_tail_cached = 0, sq_tail = 0, sq_head_cached = 2, g_pushed = [5, 6], g_popped = [],
       g_tail_cached = 0, g_head_cached = 2\<rparr>,
     waitq = [], pcs = [PrOut (Some True), CoPublish 0 5]\<rparr>"

lemma spsc_demo_taken_reachable: "spsc_reachable 1 spsc_demo_taken"
  by (rule run_reachable [of _ spsc_demo]) code_simp

text \<open>
  The capacity of the queue is the least power of two that is at least two and at least the
  capacity asked for, for every request up to \<open>2 ^ 63\<close>.
\<close>
theorem spsc_capacity_least_power:
  assumes "unat capacity \<le> 2 ^ 63"
  shows "\<exists>k. unat (spsc_capacity (spsc_create capacity)) = 2 ^ k \<and> unat capacity \<le> 2 ^ k \<and> 2 \<le> (2::nat) ^ k \<and>
    (\<forall>j. unat capacity \<le> 2 ^ j \<and> 2 \<le> (2::nat) ^ j \<longrightarrow> k \<le> j)"
proof -
  let ?c = "if capacity < 2 then 2 else capacity"
  have c: "1 \<le> unat ?c" "unat ?c \<le> 2 ^ 63" "unat ?c = max 2 (unat capacity)"
    using assms by (auto simp: word_less_nat_alt)
  obtain k where k: "unat (round_up_pow2 ?c) = 2 ^ k" "unat ?c \<le> 2 ^ k" "\<forall>j. unat ?c \<le> 2 ^ j \<longrightarrow> k \<le> j"
    using round_up_pow2_least_power [OF c(1,2)] by blast
  have "spsc_capacity (spsc_create capacity) = round_up_pow2 ?c"
    by (simp add: spsc_capacity_def spsc_create_def Let_def)
  with k c(3) show ?thesis by (intro exI [of _ k]) auto
qed

theorem spsc_capacity_least_power_witness:
  "\<exists>k. unat (spsc_capacity (spsc_create 5)) = 2 ^ k \<and> (5::nat) \<le> 2 ^ k"
  using spsc_capacity_least_power [of 5] by auto

text \<open>
  C5. First in, first out: in every reachable state what has been popped is a prefix of what has
  been pushed, and the items in between move only as in the abstract bounded queue of the same
  capacity: nothing is lost, duplicated or reordered, whatever the interleaving of producer and
  consumer and however often the indices have wrapped around.
\<close>
theorem spsc_refines_fifo:
  assumes reach: "spsc_reachable capacity s" and cap: "unat capacity \<le> 2 ^ 63"
  shows "g_popped (shm s) @ spsc_items s = g_pushed (shm s) \<and>
    reachable (fifo_spec (spsc_size capacity)) [] (spsc_items s)"
proof
  have "spsc_shape (spsc_size capacity) (shm s)"
    using spsc_invariant [OF assms] by (simp add: spsc_sys_inv_def spsc_inv_def)
  then have "g_popped (shm s) = take (length (g_popped (shm s))) (g_pushed (shm s))"
    by (simp add: spsc_shape_def)
  then show "g_popped (shm s) @ spsc_items s = g_pushed (shm s)"
    unfolding spsc_items_def by (metis append_take_drop_id)
  have "reachable (fifo_spec (spsc_size capacity)) (spsc_items (spsc_init capacity)) (spsc_items s)"
    by (rule reachable_simulation [OF reach, where I = "spsc_sys_inv (spsc_size capacity)"])
      (use cap spsc_inv_init spsc_sys_inv_step spsc_step_items in blast)+
  then show "reachable (fifo_spec (spsc_size capacity)) [] (spsc_items s)"
    by (simp add: spsc_items_def spsc_init_def spsc_create_def Let_def)
qed

theorem spsc_refines_fifo_witness:
  "reachable (fifo_spec (spsc_size 1)) [] [5, 6]"
  using spsc_refines_fifo [OF spsc_demo_taken_reachable] by (simp add: spsc_items_def spsc_demo_taken_def)

text \<open>The four tests of the code, on either index of the other side, in terms of the items inside.\<close>

lemma spsc_tests:
  assumes sh: "spsc_shape cap (shm s)"
  shows "\<not> sq_mask (shm s) < sq_head (shm s) - sq_tail_cached (shm s) \<Longrightarrow> length (spsc_items s) < cap"
    and "sq_mask (shm s) < sq_head (shm s) - sq_tail (shm s) \<longleftrightarrow> length (spsc_items s) = cap"
    and "sq_tail (shm s) \<noteq> sq_head_cached (shm s) \<Longrightarrow> spsc_items s \<noteq> []"
    and "sq_tail (shm s) = sq_head (shm s) \<longleftrightarrow> spsc_items s = []"
proof -
  let ?m = "shm s"
  note b = spsc_bounds [OF sh]
  have items: "length (spsc_items s) = length (g_pushed ?m) - length (g_popped ?m)"
    "spsc_items s = [] \<longleftrightarrow> length (g_pushed ?m) = length (g_popped ?m)"
    using b by (auto simp: spsc_items_def)
  have idx: "g_tail_cached ?m \<le> length (g_popped ?m)" "length (g_popped ?m) \<le> g_head_cached ?m"
    "g_head_cached ?m \<le> length (g_pushed ?m)" "length (g_pushed ?m) \<le> g_tail_cached ?m + cap" "0 < cap"
    using sh by (auto simp: spsc_shape_def)
  have full: "sq_mask ?m < sq_head ?m - sq_tail ?m \<longleftrightarrow> length (g_pushed ?m) = length (g_popped ?m) + cap"
    using spsc_full_test [OF sh, of "length (g_popped ?m)"] b sh by (simp add: spsc_shape_def)
  then show "sq_mask ?m < sq_head ?m - sq_tail ?m \<longleftrightarrow> length (spsc_items s) = cap"
    unfolding items using b idx by linarith
  have "sq_mask ?m < sq_head ?m - sq_tail_cached ?m \<longleftrightarrow> length (g_pushed ?m) = g_tail_cached ?m + cap"
    using spsc_full_test [OF sh, of "g_tail_cached ?m"] b sh by (simp add: spsc_shape_def)
  then show "\<not> sq_mask ?m < sq_head ?m - sq_tail_cached ?m \<Longrightarrow> length (spsc_items s) < cap"
    unfolding items using b idx by linarith
  have "sq_tail ?m = sq_head_cached ?m \<longleftrightarrow> g_head_cached ?m = length (g_popped ?m)"
    using spsc_empty_test [OF sh, of "g_head_cached ?m"] b sh by (simp add: spsc_shape_def)
  then show "sq_tail ?m \<noteq> sq_head_cached ?m \<Longrightarrow> spsc_items s \<noteq> []"
    unfolding items using b idx by linarith
  show "sq_tail ?m = sq_head ?m \<longleftrightarrow> spsc_items s = []"
    unfolding items using spsc_empty_test [OF sh, of "length (g_pushed ?m)"] b sh by (simp add: spsc_shape_def)
qed

text \<open>
  C28. What the calls return, exactly. A \<open>try_push\<close> that finds room by the cached index has found it in the
  queue; one that looks at the consumer's index fails if and only if the queue is full at that moment,
  and in no other step; one that succeeds does so below the capacity and has added its item at the end.
  A \<open>try_pop\<close> that finds an item by the cached index has found one in the queue; one that looks at the
  producer's index fails if and only if the queue is empty at that moment, and in no other step; one that
  succeeds returns the oldest item and has removed it. No other step returns or changes the items.
\<close>
theorem spsc_results:
  assumes reach: "spsc_reachable capacity s" and cap: "unat capacity \<le> 2 ^ 63"
    and stp: "spsc_step (Step t ws) s = Some s'"
  shows "(case pcs s ! t of
      PrHead v \<Rightarrow> ((\<exists>head. pcs s' ! t = PrConstruct v head) \<longrightarrow> length (spsc_items s) < spsc_size capacity)
    | PrTail v head \<Rightarrow> pcs s' ! t =
        (if length (spsc_items s) = spsc_size capacity then PrOut (Some False) else PrConstruct v head)
    | PrPublish v head \<Rightarrow> pcs s' ! t = PrOut (Some True) \<and> length (spsc_items s) < spsc_size capacity \<and>
        spsc_items s' = spsc_items s @ [v]
    | CoTail \<Rightarrow> ((\<exists>tail. pcs s' ! t = CoTake tail) \<longrightarrow> spsc_items s \<noteq> [])
    | CoHead tail \<Rightarrow> pcs s' ! t = (if spsc_items s = [] then CoOut (Some None) else CoTake tail)
    | CoPublish tail v \<Rightarrow> pcs s' ! t = CoOut (Some (Some v)) \<and> spsc_items s = v # spsc_items s'
    | _ \<Rightarrow> True) \<and>
    ((\<exists>r. pcs s' ! t = PrOut r) \<longrightarrow> (\<exists>v head. pcs s ! t = PrTail v head \<or> pcs s ! t = PrPublish v head)) \<and>
    ((\<exists>r. pcs s' ! t = CoOut r) \<longrightarrow> (\<exists>v tail. pcs s ! t = CoHead tail \<or> pcs s ! t = CoPublish tail v)) \<and>
    ((\<forall>v i. pcs s ! t \<noteq> PrPublish v i \<and> pcs s ! t \<noteq> CoPublish i v) \<longrightarrow> spsc_items s' = spsc_items s)"
proof -
  let ?m = "shm s" let ?cap = "spsc_size capacity"
  have I: "spsc_sys_inv ?cap s" by (rule spsc_invariant [OF reach cap])
  then have sh: "spsc_shape ?cap ?m" and lp: "spsc_local_p ?cap ?m (pcs s ! 0)" and lc: "spsc_local_c ?m (pcs s ! 1)"
    and roles: "spsc_producer (pcs s ! 0)" "\<not> spsc_producer (pcs s ! 1)"
    by (simp_all add: spsc_sys_inv_def spsc_inv_def)
  obtain m' l k where t: "t < length (pcs s)" and ex: "spsc_exec ?m (pcs s ! t) = Some (m', l, k)"
    and l: "pcs s' ! t = l" and m': "shm s' = m'"
    using stp unfolding spsc_step_def by (auto elim!: sys_stepE)
  have t01: "t = 0 \<or> t = 1" using t I by (auto simp: spsc_sys_inv_def)
  have itm: "spsc_items s = drop (length (g_popped ?m)) (g_pushed ?m)" "spsc_items s' = drop (length (g_popped m')) (g_pushed m')"
    using m' by (simp_all add: spsc_items_def)
  have idx: "length (g_popped ?m) \<le> length (g_pushed ?m)" "g_tail_cached ?m \<le> length (g_popped ?m)" "g_head_cached ?m \<le> length (g_pushed ?m)"
    using sh by (auto simp: spsc_shape_def)
  show ?thesis
  proof (cases "pcs s ! t")
    case (PrHead v)
    with ex l itm spsc_tests(1) [OF sh] show ?thesis by (auto simp: Let_def split: if_splits)
  next
    case (PrTail v head)
    with t01 roles lp have "head = sq_head ?m" by auto
    with PrTail ex l itm spsc_tests(2) [OF sh] show ?thesis by (auto simp: Let_def split: if_splits)
  next
    case (PrPublish v head)
    with t01 roles lp have "length (g_pushed ?m) < g_tail_cached ?m + ?cap" by auto
    then have "length (spsc_items s) < ?cap" using idx by (simp add: spsc_items_def)
    with PrPublish ex l itm idx show ?thesis by auto
  next
    case CoTail
    with ex l itm spsc_tests(3) [OF sh] show ?thesis by (auto simp: Let_def split: if_splits)
  next
    case (CoHead tail)
    with t01 roles lc have "tail = sq_tail ?m" by auto
    with CoHead ex l itm spsc_tests(4) [OF sh] show ?thesis by (auto simp: Let_def split: if_splits)
  next
    case (CoPublish tail v)
    with t01 roles lc have "length (g_popped ?m) < g_head_cached ?m" "v = g_pushed ?m ! length (g_popped ?m)" by auto
    then have "spsc_items s = v # drop (Suc (length (g_popped ?m))) (g_pushed ?m)"
      using idx by (simp add: itm(1) Cons_nth_drop_Suc)
    with CoPublish ex l itm show ?thesis by auto
  qed (use ex l itm in \<open>auto simp: Let_def split: option.splits\<close>)
qed

theorem spsc_results_witness:
  "\<exists>s'. spsc_step (Step 1 []) spsc_demo_taken = Some s' \<and> pcs s' ! 1 = CoOut (Some (Some 5)) \<and>
     spsc_items spsc_demo_taken = 5 # spsc_items s'"
proof -
  have "\<exists>s'. spsc_step (Step 1 []) spsc_demo_taken = Some s'"
    unfolding spsc_demo_taken_def spsc_step_def sys_step_def awake_def by simp
  then obtain s' where stp: "spsc_step (Step 1 []) spsc_demo_taken = Some s'" by blast
  have "pcs s' ! 1 = CoOut (Some (Some 5)) \<and> spsc_items spsc_demo_taken = 5 # spsc_items s'"
    using spsc_results [OF spsc_demo_taken_reachable _ stp] by (simp add: spsc_demo_taken_def)
  with stp show ?thesis by blast
qed

text \<open>
  C34. The slots are treated as the language requires, whatever the interleaving: an index that is used
  lies in the buffer, an item is constructed only in a slot without a live object, and the slot that is
  moved from and destroyed is live.
\<close>
theorem spsc_slots_typed:
  assumes reach: "spsc_reachable capacity s" and cap: "unat capacity \<le> 2 ^ 63" and t: "t < length (pcs s)"
  shows "case pcs s ! t of
      PrConstruct v head \<Rightarrow> unat (head AND sq_mask (shm s)) < length (sq_buffer (shm s)) \<and>
        sq_buffer (shm s) ! unat (head AND sq_mask (shm s)) = None
    | CoTake tail \<Rightarrow> unat (tail AND sq_mask (shm s)) < length (sq_buffer (shm s)) \<and>
        sq_buffer (shm s) ! unat (tail AND sq_mask (shm s)) \<noteq> None
    | _ \<Rightarrow> length (sq_buffer (shm s)) = spsc_size capacity"
proof -
  let ?m = "shm s" let ?cap = "spsc_size capacity"
  have I: "spsc_sys_inv ?cap s" by (rule spsc_invariant [OF reach cap])
  then have inv: "spsc_inv ?cap ?m (pcs s ! 0) (pcs s ! 1)" and sh: "spsc_shape ?cap ?m"
    and sl: "spsc_slots ?cap ?m (pcs s ! 0) (pcs s ! 1)" and lp: "spsc_local_p ?cap ?m (pcs s ! 0)"
    and roles: "spsc_producer (pcs s ! 0)" "\<not> spsc_producer (pcs s ! 1)" and t01: "t = 0 \<or> t = 1"
    using t by (auto simp: spsc_sys_inv_def spsc_inv_def)
  note b = spsc_bounds [OF sh] and pos = spsc_cap [OF sh]
  have len: "length (sq_buffer ?m) = ?cap" using sh by (simp add: spsc_shape_def)
  have "unat (head AND sq_mask ?m) < ?cap \<and> sq_buffer ?m ! unat (head AND sq_mask ?m) = None"
    if "pcs s ! t = PrConstruct v head" for v head
  proof -
    have p: "pcs s ! 0 = PrConstruct v head" using that t01 roles by auto
    with lp have h: "head = sq_head ?m" "length (g_pushed ?m) < g_tail_cached ?m + ?cap" by simp_all
    then have "unat (head AND sq_mask ?m) = length (g_pushed ?m) mod ?cap"
      using spsc_index [OF sh, of "length (g_pushed ?m)"] sh by (simp add: spsc_shape_def)
    with sl p h b sh pos show ?thesis by (simp add: spsc_slots_def spsc_content_def spsc_shape_def)
  qed
  moreover have "unat (tail AND sq_mask ?m) < ?cap \<and> sq_buffer ?m ! unat (tail AND sq_mask ?m) \<noteq> None"
    if "pcs s ! t = CoTake tail" for tail
    using spsc_take_slot [of ?cap ?m "pcs s ! 0" tail] inv that t01 roles pos by auto
  ultimately show ?thesis using len by (cases "pcs s ! t") auto
qed

definition spsc_demo_take :: "(spsc_mem, spsc_pc) fsys" where
  "spsc_demo_take = \<lparr>shm = \<lparr>sq_mask = 1, sq_buffer = [Some 5, Some 6], sq_head = 2,
       sq_tail_cached = 0, sq_tail = 0, sq_head_cached = 2, g_pushed = [5, 6], g_popped = [],
       g_tail_cached = 0, g_head_cached = 2\<rparr>,
     waitq = [], pcs = [PrOut (Some True), CoTake 0]\<rparr>"

lemma spsc_demo_take_reachable: "spsc_reachable 1 spsc_demo_take"
  by (rule run_reachable [of _ "take 11 spsc_demo"]) code_simp

theorem spsc_slots_typed_witness:
  "unat (0 AND sq_mask (shm spsc_demo_take)) < length (sq_buffer (shm spsc_demo_take)) \<and>
     sq_buffer (shm spsc_demo_take) ! 0 \<noteq> None"
  using spsc_slots_typed [OF spsc_demo_take_reachable, of 1] by (simp add: spsc_demo_take_def)

text \<open>
  Wait freedom: a thread inside \<open>try_push\<close> or \<open>try_pop\<close> can always step, and each step
  brings it closer to its return, which is at most four of its own steps after the call, whatever
  the other thread does.
\<close>
theorem spsc_wait_free:
  assumes reach: "spsc_reachable capacity s" and cap: "unat capacity \<le> 2 ^ 63" and t: "t < 2"
    and inside: "spsc_left (pcs s ! t) \<noteq> 0"
  shows "spsc_left (pcs s ! t) \<le> 4 \<and>
    (\<exists>s'. spsc_step (Step t []) s = Some s' \<and> spsc_left (pcs s' ! t) < spsc_left (pcs s ! t))"
proof -
  have I: "spsc_sys_inv (spsc_size capacity) s" by (rule spsc_invariant [OF reach cap])
  then have inv: "spsc_inv (spsc_size capacity) (shm s) (pcs s ! 0) (pcs s ! 1)"
    and roles: "spsc_producer (pcs s ! 0)" and len: "length (pcs s) = 2" and q: "waitq s = []"
    by (simp_all add: spsc_sys_inv_def)
  have "pcs s ! t = pcs s ! 0 \<and> spsc_producer (pcs s ! 0) \<or> pcs s ! t = pcs s ! 1"
    using t roles by (auto simp: less_2_cases_iff)
  from spsc_exec_enabled [OF inv this inside] obtain m' l where
    ex: "spsc_exec (shm s) (pcs s ! t) = Some (m', l, KNone)" by blast
  then have "spsc_step (Step t []) s = Some \<lparr>shm = m', waitq = [], pcs = (pcs s)[t := l]\<rparr>"
    using t len q by (simp add: spsc_step_def sys_step_def awake_def)
  moreover have "spsc_left (pcs s ! t) \<le> 4" by (cases "pcs s ! t") auto
  ultimately show ?thesis using spsc_exec_left [OF ex] t len by simp
qed

theorem spsc_wait_free_witness:
  "\<exists>s'. spsc_step (Step 1 []) spsc_demo_taken = Some s' \<and>
     spsc_left (pcs s' ! 1) < spsc_left (pcs spsc_demo_taken ! 1)"
  using spsc_wait_free [OF spsc_demo_taken_reachable, of 1] by (simp add: spsc_demo_taken_def)

section \<open>The destructor\<close>

text \<open>
  The destructor runs alone. It calls \<open>try_pop\<close>, at most four steps here, until that returns false,
  and then gives the buffer back; a live object that was left in it would never be destroyed.
\<close>

fun spsc_call :: "nat \<Rightarrow> spsc_mem \<Rightarrow> spsc_pc \<Rightarrow> (spsc_mem \<times> nat option) option" where
  "spsc_call n m (CoOut (Some r)) = Some (m, r)"
| "spsc_call 0 m l = None"
| "spsc_call (Suc n) m l = (case spsc_exec m l of None \<Rightarrow> None | Some (m', l', k) \<Rightarrow> spsc_call n m' l')"

partial_function (option) spsc_destroy :: "spsc_mem \<Rightarrow> spsc_mem option" where
  "spsc_destroy m = (case spsc_call 4 m CoTail of
     None \<Rightarrow> None
   | Some (m', r) \<Rightarrow> if r = None then Some m' else spsc_destroy m')"

lemma spsc_consumer_counts:
  assumes I: "spsc_inv cap m p c" and co: "\<not> spsc_producer c" and ex: "spsc_exec m c = Some (m', c', k)"
  shows "g_pushed m' = g_pushed m \<and> (c' = CoOut (Some None) \<longrightarrow> length (g_popped m) = length (g_pushed m)) \<and>
    length (g_popped m') = length (g_popped m) + of_bool (\<exists>v. c' = CoOut (Some (Some v))) \<and> c' \<noteq> CoOut None"
proof -
  have sh: "spsc_shape cap m" and lc: "spsc_local_c m c" using I by (simp_all add: spsc_inv_def)
  have "sq_tail m = sq_head m \<longleftrightarrow> length (g_pushed m) = length (g_popped m)"
    using spsc_empty_test [OF sh, of "length (g_pushed m)"] spsc_bounds [OF sh] sh by (simp add: spsc_shape_def)
  with lc ex co show ?thesis
    by (cases c) (auto simp: Let_def split: if_splits option.splits)
qed

lemma spsc_call_returns:
  assumes "spsc_inv cap m p c" "\<not> spsc_producer c" "spsc_producer p" "spsc_left c \<le> n" "0 < spsc_left c"
  shows "\<exists>m' r. spsc_call n m c = Some (m', r) \<and> spsc_inv cap m' p (CoOut (Some r)) \<and> g_pushed m' = g_pushed m \<and>
    length (g_popped m') = length (g_popped m) + of_bool (r \<noteq> None) \<and>
    (r = None \<longrightarrow> length (g_popped m) = length (g_pushed m))"
  using assms
proof (induction n arbitrary: m c)
  case (Suc n)
  obtain m1 c1 where ex: "spsc_exec m c = Some (m1, c1, KNone)"
    using spsc_exec_enabled [OF Suc.prems(1), of c] Suc.prems by auto
  have call: "spsc_call (Suc n) m c = spsc_call n m1 c1"
    using ex Suc.prems(5) by (cases c) auto
  have I1: "spsc_inv cap m1 p c1" "\<not> spsc_producer c1"
    using spsc_consumer_step [OF Suc.prems(1,2,3) ex] by blast+
  note counts = spsc_consumer_counts [OF Suc.prems(1,2) ex]
  have le: "spsc_left c1 \<le> n"
    using spsc_exec_left [OF ex] Suc.prems(4) by simp
  show ?case
  proof (cases "spsc_left c1 = 0")
    case True
    with I1(2) counts obtain r where "c1 = CoOut (Some r)"
      by (cases c1) auto
    with call I1 counts show ?thesis
      by (cases n) auto
  next
    case False
    then have "0 < spsc_left c1" by simp
    from Suc.IH [OF I1 Suc.prems(3) le this] obtain m' r where ih: "spsc_call n m1 c1 = Some (m', r)"
      "spsc_inv cap m' p (CoOut (Some r))" "g_pushed m' = g_pushed m1"
      "length (g_popped m') = length (g_popped m1) + of_bool (r \<noteq> None)"
      "r = None \<longrightarrow> length (g_popped m1) = length (g_pushed m1)" by blast
    have "\<nexists>v. c1 = CoOut (Some (Some v))" using False by auto
    with counts ih call show ?thesis by simp
  qed
qed simp

lemma spsc_destroy_drains:
  assumes "spsc_inv cap m (PrOut r) (CoOut r')"
  shows "\<exists>m'. spsc_destroy m = Some m' \<and> g_popped m' = g_pushed m \<and> g_pushed m' = g_pushed m \<and>
    (\<exists>r'. spsc_inv cap m' (PrOut r) (CoOut r'))"
  using assms
proof (induction "length (g_pushed m) - length (g_popped m)" arbitrary: m r' rule: less_induct)
  case less
  have start: "spsc_inv cap m (PrOut r) CoTail"
    using less.prems by (auto simp: spsc_inv_def spsc_slots_def spsc_content_def)
  obtain m1 x where call: "spsc_call 4 m CoTail = Some (m1, x)" and I1: "spsc_inv cap m1 (PrOut r) (CoOut (Some x))"
    and push: "g_pushed m1 = g_pushed m" and pop: "length (g_popped m1) = length (g_popped m) + of_bool (x \<noteq> None)"
    and none: "x = None \<longrightarrow> length (g_popped m) = length (g_pushed m)"
    using spsc_call_returns [OF start, of 4] by auto
  have sh1: "spsc_shape cap m1" using I1 by (simp add: spsc_inv_def)
  show ?case
  proof (cases "x = None")
    case True
    then have "g_popped m1 = g_pushed m1"
      using sh1 none pop push by (auto simp: spsc_shape_def)
    with True call I1 push show ?thesis
      by (subst spsc_destroy.simps) auto
  next
    case False
    then have "length (g_pushed m1) - length (g_popped m1) < length (g_pushed m) - length (g_popped m)"
      using pop push spsc_bounds(1) [OF sh1] by simp
    from less.hyps [OF this I1] False call push show ?thesis
      by (subst spsc_destroy.simps) auto
  qed
qed

text \<open>
  The destructor returns, and every object that was ever pushed has been moved out and destroyed
  when the buffer is given back: no slot is live any more.
\<close>
theorem spsc_destructor_complete:
  assumes reach: "spsc_reachable capacity s" and cap: "unat capacity \<le> 2 ^ 63"
    and out: "pcs s = [PrOut r, CoOut r']"
  shows "\<exists>m. spsc_destroy (shm s) = Some m \<and> g_popped m = g_pushed (shm s) \<and>
    list_all (\<lambda>slot. slot = None) (sq_buffer m)"
proof -
  let ?cap = "spsc_size capacity"
  have "spsc_inv ?cap (shm s) (PrOut r) (CoOut r')"
    using spsc_invariant [OF reach cap] out by (simp add: spsc_sys_inv_def)
  from spsc_destroy_drains [OF this] obtain m x where m: "spsc_destroy (shm s) = Some m" "g_popped m = g_pushed (shm s)"
    "g_pushed m = g_pushed (shm s)" and I: "spsc_inv ?cap m (PrOut r) (CoOut x)" by blast
  have sh: "spsc_shape ?cap m" and sl: "spsc_slots ?cap m (PrOut r) (CoOut x)" using I by (simp_all add: spsc_inv_def)
  have "sq_buffer m ! i = None" if i: "i < length (sq_buffer m)" for i
  proof -
    let ?n = "length (g_popped m)"
    have "0 < ?cap" "i < ?cap" using spsc_cap [OF sh] i sh by (simp_all add: spsc_shape_def)
    then obtain j where j: "?n \<le> j" "j < ?n + ?cap" "j mod ?cap = i"
      using window_hits [of i ?cap ?n] by blast
    then have "sq_buffer m ! i = spsc_content m (PrOut r) (CoOut x) j"
      using sl by (auto simp: spsc_slots_def)
    then show ?thesis using j m by (auto simp: spsc_content_def)
  qed
  with m show ?thesis by (auto simp: list_all_length)
qed

text \<open>The queue after two pushes, its consumer outside the operations.\<close>

definition spsc_demo_full :: "(spsc_mem, spsc_pc) fsys" where
  "spsc_demo_full = \<lparr>shm = \<lparr>sq_mask = 1, sq_buffer = [Some 5, Some 6], sq_head = 2,
       sq_tail_cached = 0, sq_tail = 0, sq_head_cached = 0, g_pushed = [5, 6], g_popped = [],
       g_tail_cached = 0, g_head_cached = 0\<rparr>,
     waitq = [], pcs = [PrOut (Some True), CoOut None]\<rparr>"

lemma spsc_demo_full_reachable: "spsc_reachable 1 spsc_demo_full"
  by (rule run_reachable [of _ "take 8 spsc_demo"]) code_simp

theorem spsc_destructor_complete_witness:
  "\<exists>m. spsc_destroy (shm spsc_demo_full) = Some m \<and> g_popped m = [5, 6]"
  using spsc_destructor_complete [OF spsc_demo_full_reachable, of "Some True" None]
  by (auto simp: spsc_demo_full_def)

end
