(* ===== verification/MpscQueue.thy ===== *)
theory MpscQueue
  imports SpscQueue
begin

text \<open>
  \<^verbatim>\<open>psync_mpsc_queue.h\<close>: the bounded multi-producer single-consumer queue, whose slots carry
  sequence numbers. Shown: items come out in the order in which the producers claimed their
  positions, each once; failures of \<open>try_push\<close> are justified; with nobody inside a call and no
  close, the next item can be popped; and a close that overlaps a push loses items that were
  pushed successfully after the abandoned position. (\<open>round_up_pow2\<close> is the same function as in
  the single-producer queue.)
\<close>

section \<open>The queue\<close>

text \<open>
  The \<open>g_\<close> fields are for the specification: for each position claimed so far the value and what
  has become of it, and everything popped so far.
\<close>

datatype mq_status = Claimed | Published | Abandoned

record mq_mem =
  mq_mask :: usize
  mq_seq :: "usize list"
  mq_data :: "nat list"
  mq_head :: usize
  mq_tail :: usize
  mq_closed :: bool
  mq_size :: usize
  g_items :: "nat list"
  g_status :: "mq_status list"
  g_taken :: "nat list"

definition mq_create :: "usize \<Rightarrow> mq_mem" where
  "mq_create capacity =
     (let mask = round_up_pow2 (if capacity < 2 then 2 else capacity) - 1;
          slots = unat (mask + 1)
      in \<lparr>mq_mask = mask, mq_seq = map word_of_nat [0..<slots], mq_data = replicate slots 0,
          mq_head = 0, mq_tail = 0, mq_closed = False, mq_size = 0,
          g_items = [], g_status = [], g_taken = []\<rparr>)"

text \<open>
  \<open>b\<close> is true inside \<open>push_blocking\<close>. The mode of the consumer's points: \<open>try_pop\<close>, the loop of
  \<open>pop_blocking\<close>, and its last try after the queue was closed.
\<close>

datatype mq_result = NoCall | Pushed bool | Popped "nat option"

datatype mq_mode = PopOnce | PopLoop | PopLast

datatype mq_pc =
    MqOut mq_result
  | MqTest nat
  | MqHead bool nat
  | MqSlot bool nat usize
  | MqCas bool nat usize
  | MqClosed bool nat usize
  | MqRevert bool nat usize
  | MqWrite bool nat usize
  | MqPublish bool nat usize
  | MqCountUp
  | MqPop mq_mode
  | MqTake usize
  | MqRelease usize nat
  | MqCountDown nat
  | MqPopClosed
  | MqClose

text \<open>
  \<open>WeakFail\<close> is a spurious failure of \<open>compare_exchange_weak\<close>, which loads \<open>head_\<close> and goes round.
\<close>

datatype mq_op = MqTryPush nat | MqPushBlocking nat | MqTryPop | MqPopBlocking | MqCloseQueue | WeakFail

definition mq_outside :: "mq_pc \<Rightarrow> bool" where
  "mq_outside l \<longleftrightarrow> (case l of MqOut _ \<Rightarrow> True | _ \<Rightarrow> False)"

fun mq_start :: "mq_op \<Rightarrow> mq_pc \<Rightarrow> mq_pc option" where
  "mq_start (MqTryPush v) l = (if mq_outside l then Some (MqHead False v) else None)"
| "mq_start (MqPushBlocking v) l = (if mq_outside l then Some (MqTest v) else None)"
| "mq_start MqTryPop l = (if mq_outside l then Some (MqPop PopOnce) else None)"
| "mq_start MqPopBlocking l = (if mq_outside l then Some (MqPop PopLoop) else None)"
| "mq_start MqCloseQueue l = (if mq_outside l then Some MqClose else None)"
| "mq_start WeakFail l = (case l of MqCas b v head \<Rightarrow> Some (MqHead b v) | _ \<Rightarrow> None)"

text \<open>A failed push returns, or goes round the loop of \<open>push_blocking\<close>; likewise a failed pop.\<close>

definition mq_push_failed :: "bool \<Rightarrow> nat \<Rightarrow> mq_pc" where
  "mq_push_failed b v = (if b then MqTest v else MqOut (Pushed False))"

fun mq_pop_failed :: "mq_mode \<Rightarrow> mq_pc" where
  "mq_pop_failed PopLoop = MqPopClosed"
| "mq_pop_failed _ = MqOut (Popped None)"

definition mq_index :: "mq_mem \<Rightarrow> usize \<Rightarrow> nat" where
  "mq_index m position = unat (position AND mq_mask m)"

fun mq_exec :: "mq_mem \<Rightarrow> mq_pc \<Rightarrow> (mq_mem \<times> mq_pc \<times> keff) option" where
  "mq_exec m (MqOut r) = None"
| "mq_exec m (MqTest v) =
     (if mq_closed m then Some (m, MqOut (Pushed False), KNone) else Some (m, MqHead True v, KNone))"
| "mq_exec m (MqHead b v) = Some (m, MqSlot b v (mq_head m), KNone)"
| "mq_exec m (MqSlot b v head) =
     (let seq = mq_seq m ! mq_index m head; diff = seq - head
      in if diff = 0 then Some (m, MqCas b v head, KNone)
         else if diff <s 0 then Some (m, mq_push_failed b v, KNone)
         else Some (m, MqHead b v, KNone))"
| "mq_exec m (MqCas b v head) =
     (if mq_head m = head
      then Some (m\<lparr>mq_head := head + 1, g_items := g_items m @ [v], g_status := g_status m @ [Claimed]\<rparr>,
             MqClosed b v head, KNone)
      else Some (m, MqSlot b v (mq_head m), KNone))"
| "mq_exec m (MqClosed b v head) =
     (if mq_closed m then Some (m, MqRevert b v head, KNone) else Some (m, MqWrite b v head, KNone))"
| "mq_exec m (MqRevert b v head) =
     Some (m\<lparr>mq_seq := (mq_seq m)[mq_index m head := head],
             g_status := (g_status m)[unat head := Abandoned]\<rparr>, mq_push_failed b v, KNone)"
| "mq_exec m (MqWrite b v head) =
     Some (m\<lparr>mq_data := (mq_data m)[mq_index m head := v]\<rparr>, MqPublish b v head, KNone)"
| "mq_exec m (MqPublish b v head) =
     Some (m\<lparr>mq_seq := (mq_seq m)[mq_index m head := head + 1],
             g_status := (g_status m)[unat head := Published]\<rparr>, MqCountUp, KNone)"
| "mq_exec m MqCountUp = Some (m\<lparr>mq_size := mq_size m + 1\<rparr>, MqOut (Pushed True), KNone)"
| "mq_exec m (MqPop mode) =
     (let tail = mq_tail m; seq = mq_seq m ! mq_index m tail; diff = seq - (tail + 1)
      in if diff = 0 then Some (m\<lparr>mq_tail := tail + 1\<rparr>, MqTake tail, KNone)
         else Some (m, mq_pop_failed mode, KNone))"
| "mq_exec m (MqTake tail) = Some (m, MqRelease tail (mq_data m ! mq_index m tail), KNone)"
| "mq_exec m (MqRelease tail v) =
     Some (m\<lparr>mq_seq := (mq_seq m)[mq_index m tail := tail + mq_mask m + 1],
             g_taken := g_taken m @ [v]\<rparr>, MqCountDown v, KNone)"
| "mq_exec m (MqCountDown v) = Some (m\<lparr>mq_size := mq_size m - 1\<rparr>, MqOut (Popped (Some v)), KNone)"
| "mq_exec m MqPopClosed =
     (if mq_closed m then Some (m, MqPop PopLast, KNone) else Some (m, MqPop PopLoop, KNone))"
| "mq_exec m MqClose = Some (m\<lparr>mq_closed := True\<rparr>, MqOut NoCall, KNone)"

text \<open>Only thread 0 may pop: the queue has a single consumer.\<close>

fun mq_allowed :: "mq_op act \<Rightarrow> bool" where
  "mq_allowed (Invoke t MqTryPop) = (t = 0)"
| "mq_allowed (Invoke t MqPopBlocking) = (t = 0)"
| "mq_allowed _ = True"

definition mq_step :: "mq_op act \<Rightarrow> (mq_mem, mq_pc) fsys \<Rightarrow> (mq_mem, mq_pc) fsys option" where
  "mq_step a s = (if mq_allowed a then sys_step mq_exec mq_start a s else None)"

definition mq_init :: "usize \<Rightarrow> nat \<Rightarrow> (mq_mem, mq_pc) fsys" where
  "mq_init capacity n = sys_init (mq_create capacity) (MqOut NoCall) n"

abbreviation mq_reachable :: "usize \<Rightarrow> nat \<Rightarrow> (mq_mem, mq_pc) fsys \<Rightarrow> bool" where
  "mq_reachable capacity n \<equiv> reachable mq_step (mq_init capacity n)"

section \<open>The invariant\<close>

text \<open>
  With \<open>h\<close> positions claimed and \<open>t\<close> released, the positions \<open>t..<t + cap\<close> cover every slot
  once. A slot's sequence is its position, plus one if it is published.
\<close>

fun mq_consumer :: "mq_pc \<Rightarrow> bool" where
  "mq_consumer (MqPop _) = True"
| "mq_consumer (MqTake _) = True"
| "mq_consumer (MqRelease _ _) = True"
| "mq_consumer (MqCountDown _) = True"
| "mq_consumer MqPopClosed = True"
| "mq_consumer _ = False"

fun mq_taking :: "mq_pc \<Rightarrow> bool" where
  "mq_taking (MqTake _) = True"
| "mq_taking (MqRelease _ _) = True"
| "mq_taking _ = False"

text \<open>The position a producer has claimed and not finished with.\<close>

fun mq_claim :: "mq_pc \<Rightarrow> nat option" where
  "mq_claim (MqClosed _ _ head) = Some (unat head)"
| "mq_claim (MqRevert _ _ head) = Some (unat head)"
| "mq_claim (MqWrite _ _ head) = Some (unat head)"
| "mq_claim (MqPublish _ _ head) = Some (unat head)"
| "mq_claim _ = None"

definition published :: "mq_mem \<Rightarrow> nat \<Rightarrow> bool" where
  "published m j \<longleftrightarrow> j < length (g_status m) \<and> g_status m ! j = Published"

definition mq_shape :: "nat \<Rightarrow> mq_mem \<Rightarrow> mq_pc \<Rightarrow> bool" where
  "mq_shape cap m c \<longleftrightarrow>
     (\<exists>k \<le> 62. cap = 2 ^ k) \<and> 2 \<le> cap \<and> unat (mq_mask m) = cap - 1 \<and>
     length (mq_seq m) = cap \<and> length (mq_data m) = cap \<and>
     length (g_status m) = length (g_items m) \<and> mq_head m = word_of_nat (length (g_items m)) \<and>
     mq_tail m = word_of_nat (length (g_taken m) + of_bool (mq_taking c)) \<and>
     length (g_taken m) \<le> length (g_items m) \<and> length (g_items m) \<le> length (g_taken m) + cap \<and>
     g_taken m = take (length (g_taken m)) (g_items m) \<and>
     (\<forall>j < length (g_taken m) + of_bool (mq_taking c). published m j) \<and>
     (\<forall>j < length (g_status m). g_status m ! j = Abandoned \<longrightarrow> mq_closed m)"

definition mq_slots :: "nat \<Rightarrow> mq_mem \<Rightarrow> bool" where
  "mq_slots cap m \<longleftrightarrow> (\<forall>j. length (g_taken m) \<le> j \<and> j < length (g_taken m) + cap \<longrightarrow>
     mq_seq m ! (j mod cap) = word_of_nat (if published m j then Suc j else j) \<and>
     (published m j \<longrightarrow> mq_data m ! (j mod cap) = g_items m ! j))"

fun mq_local :: "nat \<Rightarrow> mq_mem \<Rightarrow> mq_pc \<Rightarrow> bool" where
  "mq_local cap m (MqSlot b v head) = (unat head \<le> length (g_items m))"
| "mq_local cap m (MqCas b v head) =
     (unat head \<le> length (g_items m) \<and> unat head < length (g_taken m) + cap)"
| "mq_local cap m (MqClosed b v head) =
     (unat head < length (g_items m) \<and> g_status m ! unat head = Claimed \<and> g_items m ! unat head = v)"
| "mq_local cap m (MqRevert b v head) =
     (unat head < length (g_items m) \<and> g_status m ! unat head = Claimed \<and> g_items m ! unat head = v \<and>
      mq_closed m)"
| "mq_local cap m (MqWrite b v head) =
     (unat head < length (g_items m) \<and> g_status m ! unat head = Claimed \<and> g_items m ! unat head = v)"
| "mq_local cap m (MqPublish b v head) =
     (unat head < length (g_items m) \<and> g_status m ! unat head = Claimed \<and> g_items m ! unat head = v \<and>
      mq_data m ! (unat head mod cap) = v)"
| "mq_local cap m (MqTake tail) = (tail = word_of_nat (length (g_taken m)))"
| "mq_local cap m (MqRelease tail v) =
     (tail = word_of_nat (length (g_taken m)) \<and> v = g_items m ! length (g_taken m))"
| "mq_local cap m l = True"

definition mq_threads :: "nat \<Rightarrow> mq_mem \<Rightarrow> mq_pc list \<Rightarrow> bool" where
  "mq_threads cap m ls \<longleftrightarrow>
     (\<forall>t < length ls. mq_local cap m (ls ! t) \<and> (mq_consumer (ls ! t) \<longrightarrow> t = 0)) \<and>
     (\<forall>t < length ls. \<forall>u < length ls. t \<noteq> u \<longrightarrow> mq_claim (ls ! t) \<noteq> None \<longrightarrow>
        mq_claim (ls ! t) \<noteq> mq_claim (ls ! u))"

definition mq_inv :: "nat \<Rightarrow> mq_mem \<Rightarrow> mq_pc list \<Rightarrow> bool" where
  "mq_inv cap m ls \<longleftrightarrow> mq_shape cap m (ls ! 0) \<and> mq_slots cap m \<and> mq_threads cap m ls"

section \<open>Steps that keep the invariant\<close>

lemma mq_index_mod:
  assumes "mq_shape cap m c"
  shows "mq_index m (word_of_nat j) = j mod cap"
  using assms ring_index [of _ "mq_mask m" j] by (auto simp: mq_index_def mq_shape_def)

lemma mq_index_unat: "mq_shape cap m c \<Longrightarrow> mq_index m w = unat w mod cap"
  using mq_index_mod [of cap m c "unat w"] by simp

text \<open>A claimed position lies in the window, and its slot is not published.\<close>

lemma mq_claim_window:
  assumes "mq_shape cap m c" and "a < length (g_items m)" and "g_status m ! a = Claimed"
  shows "length (g_taken m) \<le> a" and "a < length (g_taken m) + cap" and "\<not> published m a"
proof -
  show np: "\<not> published m a" using assms(3) by (simp add: published_def)
  show "length (g_taken m) \<le> a"
  proof (rule ccontr)
    assume "\<not> length (g_taken m) \<le> a"
    then have "published m a" using assms(1) by (simp add: mq_shape_def)
    with np show False by simp
  qed
  show "a < length (g_taken m) + cap" using assms(1,2) by (simp add: mq_shape_def)
qed

lemma mq_local_claim: "mq_local cap m l \<Longrightarrow> mq_claim l = Some a \<Longrightarrow>
    a < length (g_items m) \<and> g_status m ! a = Claimed"
  by (cases l) auto

text \<open>What the other threads know survives a step that leaves their positions alone.\<close>

lemma mq_local_frame:
  assumes "mq_local cap m r" and "g_items m' = g_items m @ xs" and "length (g_taken m) \<le> length (g_taken m')"
    and "mq_closed m \<Longrightarrow> mq_closed m'"
    and "\<And>a. mq_claim r = Some a \<Longrightarrow> g_status m' ! a = g_status m ! a \<and>
      mq_data m' ! (a mod cap) = mq_data m ! (a mod cap)"
    and "mq_taking r \<Longrightarrow> g_taken m' = g_taken m \<and> length (g_taken m) < length (g_items m)"
  shows "mq_local cap m' r"
  using assms by (cases r) (auto simp: nth_append)

lemma mq_threads_update:
  assumes th: "mq_threads cap m ls" and t: "t < length ls"
    and new: "mq_local cap m' l" "mq_consumer l \<Longrightarrow> t = 0"
    and claim: "mq_claim l = None \<or> mq_claim l = mq_claim (ls ! t) \<or>
      (\<forall>u < length ls. mq_claim (ls ! u) \<noteq> mq_claim l)"
    and frame: "\<And>u. u < length ls \<Longrightarrow> u \<noteq> t \<Longrightarrow> mq_local cap m (ls ! u) \<Longrightarrow> mq_local cap m' (ls ! u)"
  shows "mq_threads cap m' (ls[t := l])"
  unfolding mq_threads_def
proof (intro conjI allI impI)
  fix u assume u: "u < length (ls[t := l])"
  then show "mq_local cap m' (ls[t := l] ! u)" and "mq_consumer (ls[t := l] ! u) \<Longrightarrow> u = 0"
    using th new frame by (cases "u = t"; simp add: mq_threads_def)+
  fix v assume v: "v < length (ls[t := l])" "u \<noteq> v" "mq_claim (ls[t := l] ! u) \<noteq> None"
  have d: "\<And>i j. i < length ls \<Longrightarrow> j < length ls \<Longrightarrow> i \<noteq> j \<Longrightarrow> mq_claim (ls ! i) \<noteq> None \<Longrightarrow>
      mq_claim (ls ! i) \<noteq> mq_claim (ls ! j)" using th by (simp add: mq_threads_def)
  show "mq_claim (ls[t := l] ! u) \<noteq> mq_claim (ls[t := l] ! v)"
    using u v claim d [of u v] d [of v u] by (cases "u = t"; cases "v = t") auto
qed

text \<open>Updating the slot of a claimed position leaves every other position of the window alone.\<close>

lemma mq_slot_other:
  assumes sh: "mq_shape cap m c" and a: "length (g_taken m) \<le> a" "a < length (g_taken m) + cap"
    and j: "length (g_taken m) \<le> j" "j < length (g_taken m) + cap" and "j \<noteq> a"
  shows "j mod cap \<noteq> a mod cap"
  using mod_window [of j cap a "length (g_taken m)"] assms by blast

lemma mq_slots_write:
  assumes sh: "mq_shape cap m c" and sl: "mq_slots cap m" and a: "a < length (g_items m)" "g_status m ! a = Claimed"
  shows "mq_slots cap (m\<lparr>mq_data := (mq_data m)[a mod cap := v]\<rparr>)"
proof -
  note w = mq_claim_window [OF sh a]
  show ?thesis
    unfolding mq_slots_def
  proof (intro allI impI)
    fix j let ?m = "m\<lparr>mq_data := (mq_data m)[a mod cap := v]\<rparr>"
    assume "length (g_taken ?m) \<le> j \<and> j < length (g_taken ?m) + cap"
    then have j: "length (g_taken m) \<le> j" "j < length (g_taken m) + cap" by simp_all
    have "published m j \<Longrightarrow> j mod cap \<noteq> a mod cap" using mq_slot_other [OF sh w(1,2) j] w(3) by auto
    with sl j show "mq_seq ?m ! (j mod cap) = word_of_nat (if published ?m j then Suc j else j) \<and>
        (published ?m j \<longrightarrow> mq_data ?m ! (j mod cap) = g_items ?m ! j)"
      by (auto simp: mq_slots_def published_def)
  qed
qed

lemma mq_slots_publish:
  assumes sh: "mq_shape cap m c" and sl: "mq_slots cap m" and a: "a < length (g_items m)" "g_status m ! a = Claimed"
    and data: "mq_data m ! (a mod cap) = g_items m ! a"
  shows "mq_slots cap (m\<lparr>mq_seq := (mq_seq m)[a mod cap := word_of_nat (Suc a)],
    g_status := (g_status m)[a := Published]\<rparr>)"
proof -
  note w = mq_claim_window [OF sh a]
  have len: "length (mq_seq m) = cap" "0 < cap" "length (g_status m) = length (g_items m)"
    using sh by (auto simp: mq_shape_def)
  let ?m = "m\<lparr>mq_seq := (mq_seq m)[a mod cap := word_of_nat (Suc a)],
    g_status := (g_status m)[a := Published]\<rparr>"
  have pub: "published ?m j = (j = a \<or> published m j)" for j
    using a(1) len by (auto simp: published_def nth_list_update)
  show ?thesis
    unfolding mq_slots_def
  proof (intro allI impI)
    fix j assume "length (g_taken ?m) \<le> j \<and> j < length (g_taken ?m) + cap"
    then have j: "length (g_taken m) \<le> j" "j < length (g_taken m) + cap" by simp_all
    show "mq_seq ?m ! (j mod cap) = word_of_nat (if published ?m j then Suc j else j) \<and>
        (published ?m j \<longrightarrow> mq_data ?m ! (j mod cap) = g_items ?m ! j)"
    proof (cases "j = a")
      case True
      with pub len data show ?thesis by simp
    next
      case False
      then have "mq_seq ?m ! (j mod cap) = mq_seq m ! (j mod cap)"
        using mq_slot_other [OF sh w(1,2) j] by simp
      with sl j False pub show ?thesis by (simp add: mq_slots_def)
    qed
  qed
qed

lemma mq_slots_release:
  assumes sh: "mq_shape cap m c" and sl: "mq_slots cap m" and p: "published m (length (g_taken m))"
  shows "mq_slots cap (m\<lparr>mq_seq := (mq_seq m)[length (g_taken m) mod cap := word_of_nat (length (g_taken m) + cap)],
    g_taken := g_taken m @ [v]\<rparr>)"
proof -
  let ?t = "length (g_taken m)"
  let ?m = "m\<lparr>mq_seq := (mq_seq m)[?t mod cap := word_of_nat (?t + cap)], g_taken := g_taken m @ [v]\<rparr>"
  have len: "length (mq_seq m) = cap" "0 < cap" "length (g_status m) \<le> ?t + cap"
    using sh by (auto simp: mq_shape_def)
  have pub: "published ?m j = published m j" for j by (simp add: published_def)
  show ?thesis
    unfolding mq_slots_def
  proof (intro allI impI)
    fix j assume "length (g_taken ?m) \<le> j \<and> j < length (g_taken ?m) + cap"
    then have j: "Suc ?t \<le> j" "j \<le> ?t + cap" by simp_all
    show "mq_seq ?m ! (j mod cap) = word_of_nat (if published ?m j then Suc j else j) \<and>
        (published ?m j \<longrightarrow> mq_data ?m ! (j mod cap) = g_items ?m ! j)"
    proof (cases "j = ?t + cap")
      case True
      then have "\<not> published m j" using len(3) by (simp add: published_def)
      with True len pub show ?thesis by simp
    next
      case False
      then have "j mod cap \<noteq> ?t mod cap"
        using mq_slot_other [OF sh, of ?t j] j len by simp
      with sl j False pub show ?thesis by (simp add: mq_slots_def)
    qed
  qed
qed

lemma mq_shape_cong: "mq_taking c = mq_taking c' \<Longrightarrow> mq_shape cap m c = mq_shape cap m c'"
  by (simp add: mq_shape_def)

lemma mq_taking_consumer: "mq_taking l \<Longrightarrow> mq_consumer l"
  by (cases l) auto

lemma mq_push_failed_simps [simp]: "mq_claim (mq_push_failed b v) = None"
  "\<not> mq_consumer (mq_push_failed b v)" "mq_local cap m (mq_push_failed b v)"
  by (simp_all add: mq_push_failed_def)

lemma mq_pop_failed_simps [simp]: "mq_claim (mq_pop_failed mode) = None"
  "\<not> mq_taking (mq_pop_failed mode)" "mq_local cap m (mq_pop_failed mode)"
  by (cases mode; simp)+

lemma mq_taking_below:
  assumes sh: "mq_shape cap m (ls ! 0)" and th: "mq_threads cap m ls" and u: "u < length ls"
    and tk: "mq_taking (ls ! u)"
  shows "length (g_taken m) < length (g_items m)"
proof -
  have "u = 0" using th u mq_taking_consumer [OF tk] by (auto simp: mq_threads_def)
  with tk sh have "published m (length (g_taken m))" by (simp add: mq_shape_def)
  with sh show ?thesis by (simp add: published_def mq_shape_def)
qed

text \<open>A step that changes at most the flag, the size and the thread's own point.\<close>

lemma mq_inv_quiet:
  assumes I: "mq_inv cap m ls" and t: "t < length ls"
    and m': "m' = m\<lparr>mq_closed := b, mq_size := z\<rparr>" "mq_closed m \<Longrightarrow> b"
    and l: "mq_local cap m' l" "mq_consumer l \<Longrightarrow> t = 0" "mq_taking l = mq_taking (ls ! t)"
      "mq_claim l = None \<or> mq_claim l = mq_claim (ls ! t)"
  shows "mq_inv cap m' (ls[t := l])"
proof -
  have sh: "mq_shape cap m (ls ! 0)" and sl: "mq_slots cap m" and th: "mq_threads cap m ls"
    using I by (simp_all add: mq_inv_def)
  have "mq_taking (ls[t := l] ! 0) = mq_taking (ls ! 0)" using l(3) t by (cases "t = 0") auto
  moreover have "mq_shape cap m' (ls ! 0)" using sh m' by (auto simp: mq_shape_def published_def)
  ultimately have "mq_shape cap m' (ls[t := l] ! 0)" using mq_shape_cong by blast
  moreover have "mq_slots cap m'" using sl m' by (simp add: mq_slots_def published_def)
  moreover have "mq_threads cap m' (ls[t := l])"
  proof (rule mq_threads_update [OF th t l(1,2)])
    show "mq_claim l = None \<or> mq_claim l = mq_claim (ls ! t) \<or>
        (\<forall>u < length ls. mq_claim (ls ! u) \<noteq> mq_claim l)" using l(4) by blast
    fix u assume "mq_local cap m (ls ! u)"
    then show "mq_local cap m' (ls ! u)" using m' by (cases "ls ! u") auto
  qed
  ultimately show ?thesis by (simp add: mq_inv_def)
qed

lemma mq_inv_cas:
  assumes I: "mq_inv cap m ls" and t: "t < length ls" and n: "length (g_items m) < 2 ^ 62"
    and l: "ls ! t = MqCas b v head" and eq: "mq_head m = head"
  shows "mq_inv cap (m\<lparr>mq_head := head + 1, g_items := g_items m @ [v], g_status := g_status m @ [Claimed]\<rparr>)
    (ls[t := MqClosed b v head])"
proof -
  have sh: "mq_shape cap m (ls ! 0)" and sl: "mq_slots cap m" and th: "mq_threads cap m ls"
    using I by (simp_all add: mq_inv_def)
  have lt: "mq_local cap m (ls ! t)" using th t by (simp add: mq_threads_def)
  have head: "unat head = length (g_items m)"
    using sh eq n by (auto simp: mq_shape_def unat_of_nat)
  have len: "length (g_status m) = length (g_items m)" using sh by (simp add: mq_shape_def)
  let ?m = "m\<lparr>mq_head := head + 1, g_items := g_items m @ [v], g_status := g_status m @ [Claimed]\<rparr>"
  have pub: "published ?m j = published m j" for j by (auto simp: published_def nth_append less_Suc_eq)
  have st: "\<forall>j < length (g_status ?m). g_status ?m ! j = Abandoned \<longrightarrow> mq_closed m"
    using sh by (auto simp: mq_shape_def nth_append less_Suc_eq)
  have "mq_taking (ls[t := MqClosed b v head] ! 0) = mq_taking (ls ! 0)"
    using l t by (cases "t = 0") auto
  moreover have "mq_shape cap ?m (ls ! 0)"
    using sh lt l head eq st pub unfolding mq_shape_def by (auto simp: add.commute)
  ultimately have "mq_shape cap ?m (ls[t := MqClosed b v head] ! 0)" using mq_shape_cong by blast
  moreover have "mq_slots cap ?m"
    using sl len by (auto simp: mq_slots_def pub nth_append) (auto simp: published_def)
  moreover have "mq_threads cap ?m (ls[t := MqClosed b v head])"
  proof (rule mq_threads_update [OF th t])
    show "mq_local cap ?m (MqClosed b v head)" using head len by (simp add: nth_append)
    have "mq_claim (ls ! u) \<noteq> Some (length (g_items m))" if "u < length ls" for u
    proof
      assume "mq_claim (ls ! u) = Some (length (g_items m))"
      moreover have "mq_local cap m (ls ! u)" using th that by (simp add: mq_threads_def)
      ultimately show False using mq_local_claim by blast
    qed
    then show "mq_claim (MqClosed b v head) = None \<or> mq_claim (MqClosed b v head) = mq_claim (ls ! t) \<or>
        (\<forall>u < length ls. mq_claim (ls ! u) \<noteq> mq_claim (MqClosed b v head))" using head by simp
    fix u assume u: "u < length ls" and lu: "mq_local cap m (ls ! u)"
    show "mq_local cap ?m (ls ! u)"
    proof (rule mq_local_frame [OF lu, of _ "[v]"])
      fix a assume "mq_claim (ls ! u) = Some a"
      then show "g_status ?m ! a = g_status m ! a \<and> mq_data ?m ! (a mod cap) = mq_data m ! (a mod cap)"
        using mq_local_claim [OF lu] len by (simp add: nth_append)
    qed (use mq_taking_below [OF sh th u] in simp_all)
  qed simp
  ultimately show ?thesis by (simp add: mq_inv_def)
qed

text \<open>Common to the three steps of a producer on its claimed slot.\<close>

lemma mq_inv_claimed:
  assumes I: "mq_inv cap m ls" and t: "t < length ls" and claim: "mq_claim (ls ! t) = Some a"
    and m': "m' = m\<lparr>mq_seq := sq, mq_data := d, g_status := (g_status m)[a := x]\<rparr>"
    and len: "length sq = cap" "length d = cap" and x: "x = Abandoned \<Longrightarrow> mq_closed m"
    and slots: "mq_slots cap m'" and l: "mq_local cap m' l" "\<not> mq_consumer l"
      "mq_claim l = None \<or> mq_claim l = Some a"
    and data: "\<And>i. i < cap \<Longrightarrow> i \<noteq> a mod cap \<Longrightarrow> d ! i = mq_data m ! i"
  shows "mq_inv cap m' (ls[t := l])"
proof -
  have sh: "mq_shape cap m (ls ! 0)" and sl: "mq_slots cap m" and th: "mq_threads cap m ls"
    using I by (simp_all add: mq_inv_def)
  have lt: "mq_local cap m (ls ! t)" using th t by (simp add: mq_threads_def)
  note a = mq_local_claim [OF lt claim]
  note w = mq_claim_window [OF sh a [THEN conjunct1] a [THEN conjunct2]]
  have pub: "published m j \<Longrightarrow> published m' j" for j
    using m' w(3) by (cases "j = a") (auto simp: published_def)
  have ab: "g_status m' ! j = Abandoned \<Longrightarrow> j < length (g_status m) \<Longrightarrow> mq_closed m" for j
    using m' x sh by (cases "j = a") (auto simp: mq_shape_def)
  have nt: "\<not> mq_taking (ls ! t)" using claim by (cases "ls ! t") auto
  have "mq_taking (ls[t := l] ! 0) = mq_taking (ls ! 0)"
    using nt t l(2) mq_taking_consumer by (cases "t = 0") auto
  moreover have "mq_shape cap m' (ls ! 0)"
    using sh pub ab len m' unfolding mq_shape_def by auto
  ultimately have "mq_shape cap m' (ls[t := l] ! 0)" using mq_shape_cong by blast
  moreover have "mq_threads cap m' (ls[t := l])"
  proof (rule mq_threads_update [OF th t l(1)])
    show "mq_consumer l \<Longrightarrow> t = 0" using l(2) by simp
    show "mq_claim l = None \<or> mq_claim l = mq_claim (ls ! t) \<or>
        (\<forall>u < length ls. mq_claim (ls ! u) \<noteq> mq_claim l)" using l(3) claim by auto
    fix u assume u: "u < length ls" "u \<noteq> t" and lu: "mq_local cap m (ls ! u)"
    show "mq_local cap m' (ls ! u)"
    proof (rule mq_local_frame [OF lu, of _ "[]"])
      fix b assume b: "mq_claim (ls ! u) = Some b"
      have "mq_claim (ls ! t) \<noteq> mq_claim (ls ! u)"
        using th u t claim unfolding mq_threads_def by (metis option.distinct(1))
      with b claim have ne: "b \<noteq> a" by auto
      note bb = mq_local_claim [OF lu b]
      note wb = mq_claim_window [OF sh bb [THEN conjunct1] bb [THEN conjunct2]]
      have "b mod cap \<noteq> a mod cap" using mq_slot_other [OF sh w(1,2) wb(1,2) ne] .
      moreover have "b mod cap < cap" using sh by (simp add: mq_shape_def)
      ultimately show "g_status m' ! b = g_status m ! b \<and>
          mq_data m' ! (b mod cap) = mq_data m ! (b mod cap)" using m' ne data by simp
    next
      assume "mq_taking (ls ! u)"
      then show "g_taken m' = g_taken m \<and> length (g_taken m) < length (g_items m)"
        using mq_taking_below [OF sh th u(1)] m' by simp
    qed (simp_all add: m')
  qed
  ultimately show ?thesis using slots by (simp add: mq_inv_def)
qed

text \<open>The test of \<open>try_pop\<close>: the next position is published.\<close>

lemma mq_pop_test:
  assumes sh: "mq_shape cap m c" and sl: "mq_slots cap m" and n: "length (g_items m) < 2 ^ 62"
    and c: "\<not> mq_taking c"
  shows "mq_seq m ! mq_index m (mq_tail m) - (mq_tail m + 1) = 0 \<longleftrightarrow> published m (length (g_taken m))"
proof -
  let ?t = "length (g_taken m)"
  have tail: "mq_tail m = word_of_nat ?t" and cap: "0 < cap" and lt: "?t < 2 ^ 62"
    using sh c n by (simp_all add: mq_shape_def)
  have "mq_seq m ! mq_index m (mq_tail m) = word_of_nat (if published m ?t then Suc ?t else ?t)"
    using sl cap mq_index_mod [OF sh, of ?t] by (simp add: mq_slots_def tail)
  then show ?thesis by (auto simp: tail)
qed

lemma mq_inv_pop:
  assumes I: "mq_inv cap m ls" and t: "t < length ls" and l: "ls ! t = MqPop mode"
    and p: "published m (length (g_taken m))"
  shows "mq_inv cap (m\<lparr>mq_tail := mq_tail m + 1\<rparr>) (ls[t := MqTake (mq_tail m)])"
proof -
  have sh: "mq_shape cap m (ls ! 0)" and sl: "mq_slots cap m" and th: "mq_threads cap m ls"
    using I by (simp_all add: mq_inv_def)
  have t0: "t = 0" using th t l by (auto simp: mq_threads_def)
  let ?m = "m\<lparr>mq_tail := mq_tail m + 1\<rparr>"
  have "mq_shape cap ?m (MqTake (mq_tail m))"
    using sh p l t0 by (auto simp: mq_shape_def published_def less_Suc_eq)
  moreover have "mq_slots cap ?m" using sl by (simp add: mq_slots_def published_def)
  moreover have "mq_threads cap ?m (ls[t := MqTake (mq_tail m)])"
  proof (rule mq_threads_update [OF th t])
    show "mq_local cap ?m (MqTake (mq_tail m))" using sh l t0 by (simp add: mq_shape_def)
    show "t = 0" by (rule t0)
    fix u assume "mq_local cap m (ls ! u)"
    then show "mq_local cap ?m (ls ! u)" by (cases "ls ! u") auto
  qed simp
  ultimately show ?thesis using t0 t by (simp add: mq_inv_def)
qed

lemma mq_inv_release:
  assumes I: "mq_inv cap m ls" and t: "t < length ls" and l: "ls ! t = MqRelease tail v"
  shows "mq_inv cap (m\<lparr>mq_seq := (mq_seq m)[mq_index m tail := tail + mq_mask m + 1],
    g_taken := g_taken m @ [v]\<rparr>) (ls[t := MqCountDown v])"
proof -
  have sh: "mq_shape cap m (ls ! 0)" and sl: "mq_slots cap m" and th: "mq_threads cap m ls"
    using I by (simp_all add: mq_inv_def)
  have t0: "t = 0" using th t l by (auto simp: mq_threads_def)
  let ?t = "length (g_taken m)"
  have "mq_local cap m (ls ! t)" using th t by (simp add: mq_threads_def)
  then have tail: "tail = word_of_nat ?t" and v: "v = g_items m ! ?t" using l by simp_all
  have p: "published m ?t" using sh l t0 by (simp add: mq_shape_def)
  then have below: "?t < length (g_items m)" using sh by (simp add: published_def mq_shape_def)
  have cap: "0 < cap" "unat (mq_mask m) = cap - 1" using sh by (simp_all add: mq_shape_def)
  have "mq_mask m = word_of_nat (unat (mq_mask m))" by simp
  then have "tail + mq_mask m + 1 = word_of_nat (?t + (cap - 1) + 1)"
    using cap tail by (metis of_nat_1 of_nat_add)
  then have seq: "tail + mq_mask m + 1 = word_of_nat (?t + cap)" using cap by simp
  have idx: "mq_index m tail = ?t mod cap" using mq_index_mod [OF sh] tail by simp
  let ?m = "m\<lparr>mq_seq := (mq_seq m)[?t mod cap := word_of_nat (?t + cap)], g_taken := g_taken m @ [v]\<rparr>"
  have taken: "g_taken m @ [v] = take (Suc ?t) (g_items m)"
    using sh v below by (simp add: take_Suc_conv_app_nth mq_shape_def)
  have pub: "published ?m j = published m j" for j by (simp add: published_def)
  have "mq_shape cap ?m (MqCountDown v)"
    using sh l t0 taken below pub by (auto simp: mq_shape_def)
  moreover have "mq_slots cap ?m" by (rule mq_slots_release [OF sh sl p])
  moreover have "mq_threads cap ?m (ls[t := MqCountDown v])"
  proof (rule mq_threads_update [OF th t])
    show "t = 0" by (rule t0)
    fix u assume u: "u < length ls" "u \<noteq> t" and lu: "mq_local cap m (ls ! u)"
    have "\<not> mq_taking (ls ! u)" using th u t0 mq_taking_consumer by (auto simp: mq_threads_def)
    then show "mq_local cap ?m (ls ! u)" by (intro mq_local_frame [OF lu, of _ "[]"]) auto
  qed simp_all
  ultimately show ?thesis using t0 t idx seq by (simp add: mq_inv_def)
qed

text \<open>The test of \<open>try_push\<close>: equality means that the position is inside the window.\<close>

lemma mq_slot_test:
  assumes sh: "mq_shape cap m c" and sl: "mq_slots cap m" and n: "length (g_items m) < 2 ^ 62"
    and h: "unat head \<le> length (g_items m)" and eq: "mq_seq m ! mq_index m head = head"
  shows "unat head < length (g_taken m) + cap"
proof (rule ccontr)
  let ?t = "length (g_taken m)"
  assume "\<not> unat head < ?t + cap"
  then have head: "unat head = ?t + cap" using h sh by (auto simp: mq_shape_def)
  have cap: "2 \<le> cap" using sh by (simp add: mq_shape_def)
  have "mq_seq m ! (?t mod cap) = word_of_nat (if published m ?t then Suc ?t else ?t)"
    using sl cap by (simp add: mq_slots_def)
  moreover have "mq_index m head = ?t mod cap" using mq_index_unat [OF sh, of head] head by simp
  ultimately obtain x where x: "x \<le> Suc ?t" and "head = word_of_nat x"
    using eq by (metis le_SucI le_refl)
  then have "unat head = x mod 2 ^ 64" by (simp add: unat_of_nat)
  moreover have "x < 2 ^ 64" using x head h n by simp
  ultimately show False using x head cap by simp
qed

lemma mq_inv_exec:
  assumes I: "mq_inv cap m ls" and t: "t < length ls" and n: "length (g_items m) < 2 ^ 62"
    and ex: "mq_exec m (ls ! t) = Some (m', l, k)"
  shows "mq_inv cap m' (ls[t := l])"
proof -
  have sh: "mq_shape cap m (ls ! 0)" and sl: "mq_slots cap m" and th: "mq_threads cap m ls"
    using I by (simp_all add: mq_inv_def)
  have lt: "mq_local cap m (ls ! t)" and t0: "mq_consumer (ls ! t) \<Longrightarrow> t = 0"
    using th t by (simp_all add: mq_threads_def)
  have len: "length (mq_seq m) = cap" "length (mq_data m) = cap" using sh by (simp_all add: mq_shape_def)
  have headle: "unat (mq_head m) \<le> length (g_items m)"
    using sh n by (simp add: mq_shape_def unat_of_nat)
  have same: ?thesis if "m' = m" "mq_local cap m l" "mq_consumer l \<Longrightarrow> t = 0"
    "mq_taking l = mq_taking (ls ! t)" "mq_claim l = None \<or> mq_claim l = mq_claim (ls ! t)"
    using mq_inv_quiet [OF I t, where b = "mq_closed m" and z = "mq_size m" and m' = m and l = l] that
    by simp
  show ?thesis
  proof (cases "ls ! t")
    case (MqSlot b v head)
    with ex lt mq_slot_test [OF sh sl n, of head] show ?thesis
      by (intro same) (auto simp: Let_def mq_push_failed_def split: if_splits)
  next
    case (MqCas b v head)
    show ?thesis
    proof (cases "mq_head m = head")
      case True
      with mq_inv_cas [OF I t n MqCas] MqCas ex show ?thesis by auto
    next
      case False
      with MqCas ex headle show ?thesis by (intro same) auto
    qed
  next
    case (MqRevert b v head)
    let ?a = "unat head"
    have a: "?a < length (g_items m)" "g_status m ! ?a = Claimed" using lt MqRevert by simp_all
    note w = mq_claim_window [OF sh a]
    have "mq_seq m ! (?a mod cap) = head" using sl w by (simp add: mq_slots_def)
    then have upd: "(mq_seq m)[mq_index m head := head] = mq_seq m"
      using mq_index_unat [OF sh, of head] list_update_id [of "mq_seq m" "?a mod cap"] by simp
    have np: "published (m\<lparr>g_status := (g_status m)[?a := Abandoned]\<rparr>) j = published m j" for j
      using w(3) by (cases "j = ?a") (auto simp: published_def)
    have "mq_slots cap (m\<lparr>g_status := (g_status m)[?a := Abandoned]\<rparr>)"
      using sl np by (simp add: mq_slots_def)
    then show ?thesis
      using ex MqRevert upd lt len
      by (intro mq_inv_claimed [OF I t, where a = ?a and sq = "mq_seq m" and d = "mq_data m" and x = Abandoned]) auto
  next
    case (MqWrite b v head)
    let ?a = "unat head"
    have a: "?a < length (g_items m)" "g_status m ! ?a = Claimed" using lt MqWrite by simp_all
    have st: "(g_status m)[?a := Claimed] = g_status m" using a(2) by (metis list_update_id)
    note idx = mq_index_unat [OF sh, of head]
    have cap: "0 < cap" using sh by (simp add: mq_shape_def)
    show ?thesis
      using ex MqWrite mq_slots_write [OF sh sl a, of v] lt len idx st cap
      by (intro mq_inv_claimed [OF I t, where a = ?a and sq = "mq_seq m"
          and d = "(mq_data m)[?a mod cap := v]" and x = Claimed]) auto
  next
    case (MqPublish b v head)
    let ?a = "unat head"
    have a: "?a < length (g_items m)" "g_status m ! ?a = Claimed" using lt MqPublish by simp_all
    have seq: "head + 1 = word_of_nat (Suc ?a)" by simp
    note idx = mq_index_unat [OF sh, of head]
    have "mq_data m ! (?a mod cap) = g_items m ! ?a" using lt MqPublish by simp
    from mq_slots_publish [OF sh sl a this] show ?thesis
      using ex MqPublish lt len idx seq
      by (intro mq_inv_claimed [OF I t, where a = ?a and d = "mq_data m" and x = Published
          and sq = "(mq_seq m)[?a mod cap := word_of_nat (Suc ?a)]"]) auto
  next
    case (MqPop mode)
    then have "t = 0" using t0 by simp
    then have "\<not> mq_taking (ls ! 0)" using MqPop by simp
    note test = mq_pop_test [OF sh sl n this]
    show ?thesis
    proof (cases "published m (length (g_taken m))")
      case True
      with mq_inv_pop [OF I t MqPop] test MqPop ex show ?thesis by (auto simp: Let_def)
    next
      case False
      with test MqPop ex \<open>t = 0\<close> show ?thesis by (intro same) (auto simp: Let_def)
    qed
  next
    case (MqTake tail)
    then have "t = 0" using t0 by simp
    then have p: "published m (length (g_taken m))" using sh MqTake by (simp add: mq_shape_def)
    have tail: "tail = word_of_nat (length (g_taken m))" using lt MqTake by simp
    have "mq_data m ! mq_index m tail = g_items m ! length (g_taken m)"
      using sl p mq_index_mod [OF sh] tail sh by (simp add: mq_slots_def mq_shape_def)
    with MqTake ex tail \<open>t = 0\<close> show ?thesis by (intro same) auto
  next
    case (MqRelease tail v)
    with mq_inv_release [OF I t MqRelease] ex show ?thesis by simp
  next
    case MqCountUp
    with ex mq_inv_quiet [OF I t, where b = "mq_closed m" and z = "mq_size m + 1" and m' = m' and l = l] show ?thesis by auto
  next
    case (MqCountDown v)
    with ex mq_inv_quiet [OF I t, where b = "mq_closed m" and z = "mq_size m - 1" and m' = m' and l = l] show ?thesis by auto
  next
    case MqClose
    with ex mq_inv_quiet [OF I t, where b = True and z = "mq_size m" and m' = m' and l = l] show ?thesis by auto
  next
    case (MqClosed b v head)
    with ex lt show ?thesis by (intro same) (auto split: if_splits)
  next
    case (MqHead b v)
    with ex headle show ?thesis by (intro same) auto
  next
    case (MqTest v)
    with ex show ?thesis by (intro same) (auto split: if_splits)
  next
    case MqPopClosed
    with ex t0 show ?thesis by (intro same) (auto split: if_splits)
  qed (use ex in auto)
qed

text \<open>A claimed position belongs to a thread that is still busy with it; an abandoned one stays so.\<close>

definition mq_owned :: "mq_mem \<Rightarrow> mq_pc list \<Rightarrow> bool" where
  "mq_owned m ls \<longleftrightarrow> (\<forall>j < length (g_status m). g_status m ! j = Claimed \<longrightarrow>
     (\<exists>t < length ls. mq_claim (ls ! t) = Some j))"

lemma mq_owned_update:
  assumes "mq_owned m ls" and "t < length ls"
    and "\<And>j. j < length (g_status m') \<Longrightarrow> g_status m' ! j = Claimed \<Longrightarrow>
      mq_claim l = Some j \<or> j < length (g_status m) \<and> g_status m ! j = Claimed \<and> mq_claim (ls ! t) \<noteq> Some j"
  shows "mq_owned m' (ls[t := l])"
  unfolding mq_owned_def
proof (intro allI impI)
  fix j assume j: "j < length (g_status m')" "g_status m' ! j = Claimed"
  from assms(3) [OF j] show "\<exists>u < length (ls[t := l]). mq_claim (ls[t := l] ! u) = Some j"
  proof
    assume "mq_claim l = Some j"
    with assms(2) show ?thesis by (intro exI [of _ t]) simp
  next
    assume "j < length (g_status m) \<and> g_status m ! j = Claimed \<and> mq_claim (ls ! t) \<noteq> Some j"
    with assms(1) obtain u where "u < length ls" "mq_claim (ls ! u) = Some j" "u \<noteq> t"
      unfolding mq_owned_def by blast
    then show ?thesis by (intro exI [of _ u]) simp
  qed
qed

lemma status_still_claimed: "st[a := x] ! j = Claimed \<Longrightarrow> x \<noteq> Claimed \<Longrightarrow> st ! j = Claimed"
  by (cases "j = a"; cases "a < length st") (auto simp: list_update_beyond)

lemma mq_exec_status:
  assumes sh: "mq_shape cap m c" and loc: "mq_local cap m l" and ex: "mq_exec m l = Some (m', l', k)"
    and n: "length (g_items m) < 2 ^ 62"
  shows "j < length (g_status m') \<Longrightarrow> g_status m' ! j = Claimed \<Longrightarrow>
      mq_claim l' = Some j \<or> j < length (g_status m) \<and> g_status m ! j = Claimed \<and> mq_claim l \<noteq> Some j"
    and "j < length (g_status m) \<Longrightarrow> g_status m ! j = Abandoned \<Longrightarrow> g_status m' ! j = Abandoned"
    and "length (g_items m) \<le> length (g_items m')" and "k = KNone"
proof -
  have len: "length (g_status m) = length (g_items m)" using sh by (simp add: mq_shape_def)
  have head: "unat (mq_head m) = length (g_status m)"
    using sh n by (simp add: mq_shape_def unat_of_nat)
  show "k = KNone" using ex by (cases l) (auto simp: Let_def split: if_splits)
  show "length (g_items m) \<le> length (g_items m')" using ex by (cases l) (auto simp: Let_def split: if_splits)
  show "j < length (g_status m) \<Longrightarrow> g_status m ! j = Abandoned \<Longrightarrow> g_status m' ! j = Abandoned"
    using ex loc len by (cases l) (auto simp: Let_def nth_append nth_list_update split: if_splits)
  show "j < length (g_status m') \<Longrightarrow> g_status m' ! j = Claimed \<Longrightarrow>
      mq_claim l' = Some j \<or> j < length (g_status m) \<and> g_status m ! j = Claimed \<and> mq_claim l \<noteq> Some j"
    using ex head len
    by (cases l) (auto simp: Let_def nth_append mq_push_failed_def less_Suc_eq
        dest: status_still_claimed split: if_splits)
qed

section \<open>The running queue\<close>

definition mq_sys_inv :: "nat \<Rightarrow> nat \<Rightarrow> (mq_mem, mq_pc) fsys \<Rightarrow> bool" where
  "mq_sys_inv cap n s \<longleftrightarrow> length (pcs s) = n \<and> waitq s = [] \<and>
     (0 < n \<and> length (g_items (shm s)) < 2 ^ 62 \<longrightarrow> mq_inv cap (shm s) (pcs s) \<and> mq_owned (shm s) (pcs s))"

lemma mq_inv_init:
  assumes c: "unat capacity \<le> 2 ^ 62"
  shows "mq_sys_inv (spsc_size capacity) n (mq_init capacity n)"
proof -
  let ?c = "if capacity < 2 then 2 else capacity" let ?r = "round_up_pow2 ?c"
  have b: "1 \<le> unat ?c" "unat ?c \<le> 2 ^ 63" "2 \<le> unat ?c" "unat ?c \<le> 2 ^ 62"
    using c by (auto simp: word_less_nat_alt)
  from round_up_pow2_least_power [OF b(1,2)] obtain k where k: "unat ?r = 2 ^ k" "unat ?c \<le> 2 ^ k" "k \<le> 62"
    using b(4) by blast
  have size: "spsc_size capacity = 2 ^ k" using k by (simp add: spsc_size_def)
  have r1: "unat (?r - 1) = 2 ^ k - 1" using k unat_sub_small [of 1 ?r] by simp
  have two: "2 \<le> (2::nat) ^ k" using k(2) b(3) by linarith
  let ?m = "mq_create capacity"
  have m: "mq_mask ?m = ?r - 1" "mq_seq ?m = map word_of_nat [0..<2 ^ k]" "mq_data ?m = replicate (2 ^ k) 0"
    "mq_head ?m = 0" "mq_tail ?m = 0" "g_items ?m = []" "g_status ?m = []" "g_taken ?m = []"
    using k(1) by (simp_all add: mq_create_def Let_def)
  have "mq_shape (2 ^ k) ?m (MqOut NoCall)"
    using k(3) two r1 unfolding mq_shape_def m by (auto simp: published_def m)
  moreover have "mq_slots (2 ^ k) ?m" unfolding mq_slots_def m by (auto simp: published_def m)
  ultimately show ?thesis
    by (auto simp: mq_sys_inv_def mq_init_def mq_inv_def mq_owned_def mq_threads_def size m)
qed

lemma mq_start_cases:
  assumes "mq_start op l = Some l'"
  shows "mq_claim l' = None" and "mq_claim l = None" and "\<not> mq_taking l'" and "\<not> mq_taking l"
    and "mq_local cap m l'"
    and "mq_consumer l' \<longleftrightarrow> op = MqTryPop \<or> op = MqPopBlocking"
  using assms by (cases op; cases l; auto simp: mq_outside_def split: if_splits)+

lemma mq_inv_invoke:
  assumes I: "mq_inv cap m ls" and ow: "mq_owned m ls" and t: "t < length ls"
    and op: "mq_start op (ls ! t) = Some l" and role: "mq_consumer l \<Longrightarrow> t = 0"
  shows "mq_inv cap m (ls[t := l])" and "mq_owned m (ls[t := l])"
proof -
  note st = mq_start_cases [OF op]
  show "mq_inv cap m (ls[t := l])"
    using mq_inv_quiet [OF I t, where m' = m and b = "mq_closed m" and z = "mq_size m" and l = l] st role
    by simp
  show "mq_owned m (ls[t := l])" using st by (intro mq_owned_update [OF ow t]) auto
qed

lemma mq_sys_inv_step:
  assumes I: "mq_sys_inv cap n s" and stp: "mq_step a s = Some s'"
  shows "mq_sys_inv cap n s'" and "length (g_items (shm s)) \<le> length (g_items (shm s'))"
proof -
  have al: "mq_allowed a" and sys: "sys_step mq_exec mq_start a s = Some s'"
    using stp by (auto simp: mq_step_def split: if_splits)
  have len: "length (pcs s) = n" and q: "waitq s = []" using I by (simp_all add: mq_sys_inv_def)
  have mono: "mq_exec m l = Some (m', l', k) \<Longrightarrow> length (g_items m) \<le> length (g_items m') \<and> k = KNone"
    for m l m' l' k by (cases l) (auto simp: Let_def split: if_splits)
  from sys have "mq_sys_inv cap n s' \<and> length (g_items (shm s)) \<le> length (g_items (shm s'))"
  proof (cases rule: sys_stepE)
    case (invoke t op l)
    have "mq_consumer l \<Longrightarrow> t = 0" using al invoke mq_start_cases(6) [OF invoke(4)] by auto
    with I invoke len q mq_inv_invoke [OF _ _ invoke(2,4)] show ?thesis by (auto simp: mq_sys_inv_def)
  next
    case (exec t ws m' l k q')
    note mono = mono [OF exec(4)]
    have "mq_inv cap m' ((pcs s)[t := l]) \<and> mq_owned m' ((pcs s)[t := l])"
      if b: "length (g_items (shm s)) < 2 ^ 62" "0 < n"
    proof -
      have inv: "mq_inv cap (shm s) (pcs s)" and ow: "mq_owned (shm s) (pcs s)"
        using I b by (simp_all add: mq_sys_inv_def)
      then have sh: "mq_shape cap (shm s) (pcs s ! 0)" and loc: "mq_local cap (shm s) (pcs s ! t)"
        using exec(2) by (simp_all add: mq_inv_def mq_threads_def)
      from mq_exec_status(1) [OF sh loc exec(4) b(1)] have "mq_owned m' ((pcs s)[t := l])"
        by (intro mq_owned_update [OF ow exec(2)]) blast
      with mq_inv_exec [OF inv exec(2) b(1) exec(4)] show ?thesis by simp
    qed
    with mono exec len q show ?thesis by (auto simp: mq_sys_inv_def)
  next
    case (spurious t)
    with q show ?thesis by simp
  qed
  then show "mq_sys_inv cap n s'" and "length (g_items (shm s)) \<le> length (g_items (shm s'))" by simp_all
qed

lemma mq_invariant:
  assumes "mq_reachable capacity n s" and "unat capacity \<le> 2 ^ 62"
  shows "mq_sys_inv (spsc_size capacity) n s"
  by (rule reachable_invariant [OF assms(1), where I = "mq_sys_inv (spsc_size capacity) n"])
    (use assms(2) in \<open>auto intro: mq_inv_init mq_sys_inv_step\<close>)

lemma mq_facts:
  assumes "mq_reachable capacity n s" and "unat capacity \<le> 2 ^ 62" and "0 < n"
    and "length (g_items (shm s)) < 2 ^ 62"
  shows "mq_shape (spsc_size capacity) (shm s) (pcs s ! 0)" and "mq_slots (spsc_size capacity) (shm s)"
    and "mq_threads (spsc_size capacity) (shm s) (pcs s)" and "mq_owned (shm s) (pcs s)"
    and "length (pcs s) = n" and "waitq s = []"
  using mq_invariant [OF assms(1,2)] assms(3,4) by (simp_all add: mq_sys_inv_def mq_inv_def)

text \<open>Claims only grow, and what was abandoned stays abandoned, along every run.\<close>

lemma mq_run_mono:
  assumes "run mq_step as s = Some s'" and "mq_reachable capacity n s" and "unat capacity \<le> 2 ^ 62"
  shows "length (g_items (shm s)) \<le> length (g_items (shm s'))"
  using assms(1,2)
proof (induction as arbitrary: s)
  case (Cons a as)
  then obtain s1 where s1: "mq_step a s = Some s1" "run mq_step as s1 = Some s'" by (auto split: option.splits)
  have "mq_reachable capacity n s1" using Cons.prems(2) s1(1) by (rule reachable.step)
  with Cons.IH s1 mq_sys_inv_step(2) [OF mq_invariant [OF Cons.prems(2) assms(3)] s1(1)] show ?case
    using le_trans by blast
qed simp

lemma mq_abandoned_run:
  assumes "run mq_step as s = Some s'" and "mq_reachable capacity n s" and c: "unat capacity \<le> 2 ^ 62" and n: "0 < n"
    and "length (g_items (shm s')) < 2 ^ 62" and "j < length (g_status (shm s))"
    and "g_status (shm s) ! j = Abandoned"
  shows "j < length (g_status (shm s')) \<and> g_status (shm s') ! j = Abandoned"
  using assms(1,2,5,6,7)
proof (induction as arbitrary: s)
  case Nil
  then show ?case by simp
next
  case (Cons a as)
  then obtain s1 where stp: "mq_step a s = Some s1" and run: "run mq_step as s1 = Some s'"
    by (auto split: option.splits)
  note inv = mq_invariant [OF Cons.prems(2) c]
  have reach1: "mq_reachable capacity n s1" using Cons.prems(2) stp by (rule reachable.step)
  have mono1: "length (g_items (shm s1)) \<le> length (g_items (shm s'))"
    by (rule mq_run_mono [OF run reach1 c])
  with mq_sys_inv_step(2) [OF inv stp] Cons.prems(3) have b: "length (g_items (shm s)) < 2 ^ 62" by simp
  note f = mq_facts [OF Cons.prems(2) c n b]
  have "j < length (g_status (shm s1)) \<and> g_status (shm s1) ! j = Abandoned"
  proof -
    have sys: "sys_step mq_exec mq_start a s = Some s1" using stp by (auto simp: mq_step_def split: if_splits)
    then show ?thesis
    proof (cases rule: sys_stepE)
      case (exec t ws m' l k q)
      have loc: "mq_local (spsc_size capacity) (shm s) (pcs s ! t)" using f(3) exec(2) by (simp add: mq_threads_def)
      have "length (g_status (shm s)) \<le> length (g_status m')"
        using exec(4) by (cases "pcs s ! t") (auto simp: Let_def split: if_splits)
      with mq_exec_status(2) [OF f(1) loc exec(4) b] exec Cons.prems show ?thesis by simp
    qed (use Cons.prems in auto)
  qed
  with Cons.IH [OF run reach1 Cons.prems(3)] show ?case by blast
qed

section \<open>A failing push sees a full queue\<close>

lemma word_sless_0: "w <s 0 \<longleftrightarrow> 2 ^ 63 \<le> unat w" for w :: usize
proof -
  have "w <s 0 \<longleftrightarrow> bit w 63" by (simp add: word_sless_alt bit_last_iff [of w, simplified, symmetric])
  also have "\<dots> \<longleftrightarrow> bit (unat w) 63" by (simp add: bit_unsigned_iff)
  also have "\<dots> \<longleftrightarrow> odd (unat w div 2 ^ 63)" by (rule bit_iff_odd)
  also have "\<dots> \<longleftrightarrow> 2 ^ 63 \<le> unat w"
  proof -
    have "unat w < 2 ^ LENGTH(64)" by (rule unsigned_less)
    then have "unat w div 2 ^ 63 < 2" by (simp add: less_mult_imp_div_less)
    moreover have "unat w div 2 ^ 63 = 0 \<longleftrightarrow> unat w < 2 ^ 63" by (simp add: div_eq_0_iff)
    ultimately show ?thesis by (cases "unat w div 2 ^ 63") auto
  qed
  finally show ?thesis .
qed

text \<open>The sequence of a slot in the window is below the position only one lap later.\<close>

lemma mq_full_test:
  assumes sh: "mq_shape cap m c" and sl: "mq_slots cap m" and n: "length (g_items m) < 2 ^ 62"
    and h: "unat head \<le> length (g_items m)" and neg: "mq_seq m ! mq_index m head - head <s 0"
  shows "length (g_items m) = length (g_taken m) + cap"
proof (rule ccontr)
  let ?t = "length (g_taken m)"
  obtain k where k: "k \<le> 62" "cap = 2 ^ k" using sh by (auto simp: mq_shape_def)
  have "(2::nat) ^ k \<le> 2 ^ 62" using k(1) by (rule power_increasing) simp
  then have cap: "0 < cap" "cap \<le> 2 ^ 62" using k(2) by simp_all
  assume "length (g_items m) \<noteq> ?t + cap"
  then have a: "unat head < ?t + cap" using h sh by (simp add: mq_shape_def)
  have t: "?t < 2 ^ 62" using sh n by (simp add: mq_shape_def)
  obtain j where j: "?t \<le> j" "j < ?t + cap" "j mod cap = unat head mod cap" "unat head \<le> j"
  proof (cases "?t \<le> unat head")
    case True
    with a show ?thesis by (intro that [of "unat head"]) auto
  next
    case False
    define d where "d = (?t - unat head) div cap"
    define r where "r = (?t - unat head) mod cap"
    have dr: "?t - unat head = d * cap + r" "r < cap" using cap by (simp_all add: d_def r_def)
    show ?thesis
    proof (cases "r = 0")
      case True
      then have "?t = unat head + d * cap" using dr False by linarith
      then show ?thesis using cap False by (intro that [of ?t]) auto
    next
      case r: False
      let ?i = "unat head + Suc d * cap"
      have "?t \<le> ?i" "?i < ?t + cap" using dr r False by auto
      moreover have "?i mod cap = unat head mod cap" by (rule mod_mult_self1)
      ultimately show ?thesis by (intro that [of ?i]) simp_all
    qed
  qed
  obtain x where x: "unat head \<le> x" "x \<le> Suc j" "mq_seq m ! mq_index m head = word_of_nat x"
    using sl j mq_index_unat [OF sh, of head] unfolding mq_slots_def by (metis le_SucI le_refl)
  have "mq_seq m ! mq_index m head - head = word_of_nat (x - unat head)"
    using x by (simp add: of_nat_diff)
  moreover have "x - unat head < 2 ^ 63" using x j cap t by simp
  ultimately have "unat (mq_seq m ! mq_index m head - head) < 2 ^ 63" by (simp add: unat_of_nat)
  with neg show False by (simp add: word_sless_0)
qed

section \<open>Properties\<close>

text \<open>
  Capacity 2, consumer 0, producers 1 and 2. Producer 1 claims position 0; producer 2 pushes 6 at
  position 1; the queue is closed; producer 1 gives up.
\<close>

definition mq_demo :: "mq_op act list" where
  "mq_demo = [Invoke 1 (MqTryPush 5), Step 1 [], Step 1 [], Step 1 [],
     Invoke 2 (MqTryPush 6), Step 2 [], Step 2 [], Step 2 [], Step 2 [], Step 2 [], Step 2 [], Step 2 [],
     Invoke 0 MqCloseQueue, Step 0 [], Step 1 [], Step 1 []]"

definition mq_lost :: "(mq_mem, mq_pc) fsys" where
  "mq_lost = \<lparr>shm = \<lparr>mq_mask = 1, mq_seq = [0, 2], mq_data = [0, 6], mq_head = 2, mq_tail = 0,
       mq_closed = True, mq_size = 1, g_items = [5, 6], g_status = [Abandoned, Published], g_taken = []\<rparr>,
     waitq = [], pcs = [MqOut NoCall, MqOut (Pushed False), MqOut (Pushed True)]\<rparr>"

lemma mq_lost_reachable: "mq_reachable 2 3 mq_lost"
  by (rule run_reachable [of _ mq_demo]) code_simp

text \<open>A queue with two items in it, the first of which the consumer is about to pop.\<close>

definition mq_demo_two :: "mq_op act list" where
  "mq_demo_two = [Invoke 1 (MqTryPush 5)] @ replicate 7 (Step 1 []) @
     [Invoke 2 (MqTryPush 6)] @ replicate 7 (Step 2 []) @ [Invoke 0 MqTryPop]"

definition mq_two :: "(mq_mem, mq_pc) fsys" where
  "mq_two = \<lparr>shm = \<lparr>mq_mask = 1, mq_seq = [1, 2], mq_data = [5, 6], mq_head = 2, mq_tail = 0,
       mq_closed = False, mq_size = 2, g_items = [5, 6], g_status = [Published, Published], g_taken = []\<rparr>,
     waitq = [], pcs = [MqPop PopOnce, MqOut (Pushed True), MqOut (Pushed True)]\<rparr>"

lemma mq_two_reachable: "mq_reachable 2 3 mq_two"
  by (rule run_reachable [of _ mq_demo_two]) code_simp

text \<open>The third push finds the queue full.\<close>

definition mq_full :: "(mq_mem, mq_pc) fsys" where
  "mq_full = mq_two\<lparr>pcs := [MqPop PopOnce, MqSlot False 7 2, MqOut (Pushed True)]\<rparr>"

lemma mq_full_reachable: "mq_reachable 2 3 mq_full"
  by (rule run_reachable [of _ "mq_demo_two @ [Invoke 1 (MqTryPush 7), Step 1 []]"]) code_simp

text \<open>
  C4. Order of the multi-producer queue: with fewer than \<open>2 ^ 62\<close> positions claimed, what the
  consumer has popped is exactly the first so many items in the order in which the producers
  claimed their positions, each of them published by its producer; and the queue never holds more
  than its capacity.
\<close>
theorem mpsc_fifo:
  assumes "mq_reachable capacity n s" and "unat capacity \<le> 2 ^ 62" and "0 < n"
    and "length (g_items (shm s)) < 2 ^ 62"
  shows "g_taken (shm s) = take (length (g_taken (shm s))) (g_items (shm s)) \<and>
    (\<forall>j < length (g_taken (shm s)). published (shm s) j) \<and>
    length (g_items (shm s)) \<le> length (g_taken (shm s)) + spsc_size capacity"
  using mq_facts(1) [OF assms] by (auto simp: mq_shape_def)

theorem mpsc_fifo_witness:
  "length (g_items (shm mq_two)) \<le> length (g_taken (shm mq_two)) + spsc_size 2"
  using mpsc_fifo [OF mq_two_reachable] by (simp add: mq_two_def)

text \<open>
  What the calls find: \<open>try_push\<close> on an open queue fails only when as many positions are
  claimed and not released as the capacity; and when no push is under way and none was abandoned,
  a pop finds the next item if there is one.
\<close>
theorem mpsc_results:
  assumes reach: "mq_reachable capacity n s" and c: "unat capacity \<le> 2 ^ 62" and n: "0 < n"
    and b: "length (g_items (shm s)) < 2 ^ 62" and t: "t < n"
    and stp: "mq_step (Step t ws) s = Some s'"
  shows "(\<forall>v head. pcs s ! t = MqSlot False v head \<and> pcs s' ! t = MqOut (Pushed False) \<longrightarrow>
      length (g_items (shm s)) = length (g_taken (shm s)) + spsc_size capacity) \<and>
    (\<forall>mode. pcs s ! t = MqPop mode \<and> (\<forall>u < n. mq_claim (pcs s ! u) = None) \<and>
      Abandoned \<notin> set (g_status (shm s)) \<and> length (g_taken (shm s)) < length (g_items (shm s)) \<longrightarrow>
      (\<exists>tail. pcs s' ! t = MqTake tail))"
proof -
  note f = mq_facts [OF reach c n b]
  have loc: "mq_local (spsc_size capacity) (shm s) (pcs s ! t)"
    and c0: "mq_consumer (pcs s ! t) \<Longrightarrow> t = 0" using f(3,5) t by (auto simp: mq_threads_def)
  obtain m' l k where ex: "mq_exec (shm s) (pcs s ! t) = Some (m', l, k)" and l: "pcs s' ! t = l"
    using stp unfolding mq_step_def by (auto elim!: sys_stepE split: if_splits)
  have "length (g_items (shm s)) = length (g_taken (shm s)) + spsc_size capacity"
    if "pcs s ! t = MqSlot False v head" "l = MqOut (Pushed False)" for v head
    using mq_full_test [OF f(1,2) b, of head] ex that loc by (auto simp: Let_def split: if_splits)
  moreover have "\<exists>tail. l = MqTake tail"
    if p: "pcs s ! t = MqPop mode" and quiet: "\<forall>u < n. mq_claim (pcs s ! u) = None"
      and "Abandoned \<notin> set (g_status (shm s))" and lt: "length (g_taken (shm s)) < length (g_items (shm s))" for mode
  proof -
    let ?t = "length (g_taken (shm s))"
    have len: "length (g_status (shm s)) = length (g_items (shm s))" using f(1) by (simp add: mq_shape_def)
    then have "g_status (shm s) ! ?t \<noteq> Claimed" using f(4,5) quiet lt by (auto simp: mq_owned_def)
    moreover have "g_status (shm s) ! ?t \<noteq> Abandoned" using that(3) lt len by (metis nth_mem)
    ultimately have "published (shm s) ?t"
      using lt len by (cases "g_status (shm s) ! ?t") (auto simp: published_def)
    moreover have "\<not> mq_taking (pcs s ! 0)" using c0 p by auto
    ultimately show ?thesis using mq_pop_test [OF f(1,2) b] ex p by (auto simp: Let_def)
  qed
  ultimately show ?thesis using l by blast
qed

theorem mpsc_results_witness:
  "(\<exists>s'. mq_step (Step 0 []) mq_two = Some s' \<and> (\<exists>tail. pcs s' ! 0 = MqTake tail)) \<and>
   (\<exists>s'. mq_step (Step 1 []) mq_full = Some s' \<and> pcs s' ! 1 = MqOut (Pushed False) \<and> spsc_size 2 = 2)"
proof
  let ?s = "mq_two\<lparr>shm := (shm mq_two)\<lparr>mq_tail := 1\<rparr>, pcs := [MqTake 0, MqOut (Pushed True), MqOut (Pushed True)]\<rparr>"
  have stp: "mq_step (Step 0 []) mq_two = Some ?s" by code_simp
  from mpsc_results [OF mq_two_reachable _ _ _ _ stp] stp
  show "\<exists>s'. mq_step (Step 0 []) mq_two = Some s' \<and> (\<exists>tail. pcs s' ! 0 = MqTake tail)"
    by (simp add: mq_two_def less_Suc_eq numeral_3_eq_3)
next
  let ?s = "mq_full\<lparr>pcs := [MqPop PopOnce, MqOut (Pushed False), MqOut (Pushed True)]\<rparr>"
  have stp: "mq_step (Step 1 []) mq_full = Some ?s" by code_simp
  from mpsc_results [OF mq_full_reachable _ _ _ _ stp] stp
  show "\<exists>s'. mq_step (Step 1 []) mq_full = Some s' \<and> pcs s' ! 1 = MqOut (Pushed False) \<and> spsc_size 2 = 2"
    by (simp add: mq_full_def mq_two_def)
qed

text \<open>
  C27. A close that overlaps a push loses items: there is a reachable state of a queue of capacity
  two in which a push has returned true and nothing was popped, and from which the consumer never
  pops anything, whatever it and the producers do: the abandoned position in front blocks it.
\<close>
theorem mpsc_close_loses_items:
  assumes "run mq_step as mq_lost = Some s" and "length (g_items (shm s)) < 2 ^ 62"
  shows "mq_reachable 2 3 mq_lost \<and> pcs mq_lost ! 2 = MqOut (Pushed True) \<and> g_taken (shm s) = []"
proof -
  have "0 < length (g_status (shm s)) \<and> g_status (shm s) ! 0 = Abandoned"
    using mq_abandoned_run [OF assms(1) mq_lost_reachable _ _ assms(2), of 0] by (simp add: mq_lost_def)
  then have "\<not> published (shm s) 0" by (simp add: published_def)
  moreover have "mq_reachable 2 3 s" using mq_lost_reachable assms(1) by (rule reachable_run)
  note mq_facts(1) [OF this _ _ assms(2)]
  then have "\<forall>j < length (g_taken (shm s)). published (shm s) j" by (auto simp: mq_shape_def)
  ultimately have "g_taken (shm s) = []" by auto
  with mq_lost_reachable show ?thesis by (simp add: mq_lost_def)
qed

theorem mpsc_close_loses_items_witness:
  "\<exists>s. run mq_step [Invoke 0 MqTryPop, Step 0 []] mq_lost = Some s \<and> g_taken (shm s) = []"
proof -
  let ?s = "mq_lost\<lparr>pcs := [MqOut (Popped None), MqOut (Pushed False), MqOut (Pushed True)]\<rparr>"
  have stp: "run mq_step [Invoke 0 MqTryPop, Step 0 []] mq_lost = Some ?s" by code_simp
  from mpsc_close_loses_items [OF stp] stp show ?thesis by (simp add: mq_lost_def)
qed

end
