(* ===== verification/CondVar.thy ===== *)
theory CondVar
  imports Futex
begin

text \<open>
  \<^verbatim>\<open>psync_condvar.h\<close>: the condition variable, with the lock it is used with (an abstract
  exclusive lock, as the \<open>LockType\<close> parameter is) and the data the predicate reads (one boolean,
  written only under the lock). Shown: a thread falls asleep only if nothing was notified since it
  loaded the sequence number, a completed \<open>broadcast()\<close> leaves no earlier waiter asleep, and a
  predicate wait is never stranded by a broadcast that follows the change.
\<close>

section \<open>The condition variable\<close>

text \<open>
  \<open>cv_locked\<close> is the lock of the clients, \<open>cv_data\<close> the value of their predicate. The auxiliary
  counters: \<open>g_seq\<close> the notifications so far, \<open>g_bcast\<close> the last notification whose
  \<open>broadcast()\<close> has finished its wake, \<open>g_set\<close> the number of notifications when the predicate was
  last made true.
\<close>

record cv_mem =
  cv_seq :: u32
  cv_locked :: bool
  cv_data :: bool
  g_seq :: nat
  g_bcast :: nat
  g_set :: nat

datatype cv_status = CvNoTimeout | CvTimeout

datatype cv_result = CvNothing | CvStatus cv_status | CvBool bool

text \<open>The six waiting calls: each for a lock wrapper and, with the same body, for a raw mutex.\<close>

datatype cv_call = CallWait | CallWaitPred | CallWaitFor | CallWaitForPred | CallWaitUntil | CallWaitUntilPred

text \<open>
  \<open>CvOut\<close> and \<open>CvHeld\<close> are the clients' points without and with the lock. The flag of the
  notifying points says whether the caller holds the lock. \<open>CvBcastWake\<close> carries the number of the
  broadcast's own increment (auxiliary).
\<close>

datatype cv_pc =
    CvOut cv_result
  | CvLocking
  | CvHeld cv_result
  | CvUnlocking
  | CvStore bool
  | CvTest cv_call
  | CvDeadline cv_call
  | CvLast
  | CvClock cv_call
  | CvLoad cv_call
  | CvRelease cv_call u32
  | CvWait cv_call u32
  | CvAsleep cv_call u32
  | CvRelock cv_call u32
  | CvCheck cv_call u32
  | CvSignal bool
  | CvSignalWake bool
  | CvBcast bool
  | CvBcastWake bool nat
  | CvBcastMutex bool
  | CvRequeue bool u32

text \<open>
  The operations of a client: taking and leaving the lock, writing the data, waiting, notifying;
  and the answer of a clock, whether the deadline has passed.
\<close>

datatype cv_op =
    CvLockOp | CvUnlockOp | CvSet bool | CvCall cv_call
  | CvSignalOp | CvBroadcastOp | CvBroadcastMutexOp | CvNow bool

definition cv_entry :: "cv_call \<Rightarrow> cv_pc" where
  "cv_entry c = (case c of
     CallWait \<Rightarrow> CvLoad c | CallWaitFor \<Rightarrow> CvLoad c
   | CallWaitPred \<Rightarrow> CvTest c | CallWaitForPred \<Rightarrow> CvTest c
   | CallWaitUntil \<Rightarrow> CvClock c | CallWaitUntilPred \<Rightarrow> CvTest c)"

definition cv_notify :: "(bool \<Rightarrow> cv_pc) \<Rightarrow> cv_pc \<Rightarrow> cv_pc option" where
  "cv_notify f l = (case l of CvOut _ \<Rightarrow> Some (f False) | CvHeld _ \<Rightarrow> Some (f True) | _ \<Rightarrow> None)"

definition cv_clock :: "bool \<Rightarrow> cv_pc \<Rightarrow> cv_pc option" where
  "cv_clock expired l = (case l of
     CvDeadline c \<Rightarrow> Some (if expired then CvLast else if c = CallWaitUntilPred then CvClock c else CvLoad c)
   | CvClock c \<Rightarrow> Some (if \<not> expired then CvLoad c
       else if c = CallWaitUntilPred then CvTest c else CvHeld (CvStatus CvTimeout))
   | _ \<Rightarrow> None)"

fun cv_start :: "cv_op \<Rightarrow> cv_pc \<Rightarrow> cv_pc option" where
  "cv_start CvLockOp l = (case l of CvOut _ \<Rightarrow> Some CvLocking | _ \<Rightarrow> None)"
| "cv_start CvUnlockOp l = (case l of CvHeld _ \<Rightarrow> Some CvUnlocking | _ \<Rightarrow> None)"
| "cv_start (CvSet b) l = (case l of CvHeld _ \<Rightarrow> Some (CvStore b) | _ \<Rightarrow> None)"
| "cv_start (CvCall c) l = (case l of CvHeld _ \<Rightarrow> Some (cv_entry c) | _ \<Rightarrow> None)"
| "cv_start CvSignalOp l = cv_notify CvSignal l"
| "cv_start CvBroadcastOp l = cv_notify CvBcast l"
| "cv_start CvBroadcastMutexOp l = cv_notify CvBcastMutex l"
| "cv_start (CvNow expired) l = cv_clock expired l"

definition cv_client :: "bool \<Rightarrow> cv_pc" where
  "cv_client held = (if held then CvHeld CvNothing else CvOut CvNothing)"

text \<open>Where a wait goes once the lock is taken again, and what the timed waits make of the number.\<close>

definition cv_relocked :: "cv_call \<Rightarrow> u32 \<Rightarrow> cv_pc" where
  "cv_relocked c seq = (case c of
     CallWait \<Rightarrow> CvHeld CvNothing | CallWaitPred \<Rightarrow> CvTest c | _ \<Rightarrow> CvCheck c seq)"

definition cv_checked :: "cv_call \<Rightarrow> u32 \<Rightarrow> u32 \<Rightarrow> cv_pc" where
  "cv_checked c seq now =
     (if c = CallWaitForPred \<or> c = CallWaitUntilPred then CvTest c
      else CvHeld (CvStatus (if now = seq then CvTimeout else CvNoTimeout)))"

definition cv_tested :: "cv_call \<Rightarrow> cv_pc" where
  "cv_tested c = (if c = CallWaitPred then CvLoad c else CvDeadline c)"

definition cv_bump :: "cv_mem \<Rightarrow> cv_mem" where
  "cv_bump m = m\<lparr>cv_seq := snd (atomic_fetch_add (cv_seq m) 1 MO_release), g_seq := Suc (g_seq m)\<rparr>"

text \<open>
  The call of \<open>broadcast(Mutex&)\<close> on Linux is \<open>futex_requeue\<close> of \<open>Futex\<close>: the operation it passes is
  \<open>13 OR 128\<close>, by the name \<open>FUTEX_CMP_REQUEUE_PRIVATE\<close> in the header. In the kernel's numbering that
  is \<open>FUTEX_LOCK_PI2\<close>, which takes its fourth argument, here the count \<open>0x7fffffff\<close>, as a pointer to a
  timeout, and fails (with \<open>EFAULT\<close>, or \<open>ENOSYS\<close> where there is no such operation) before it looks at
  the word. The result is ignored. So the point \<open>CvRequeue\<close> wakes and moves nobody, whatever number it carries.
\<close>

fun cv_exec :: "cv_mem \<Rightarrow> cv_pc \<Rightarrow> (cv_mem \<times> cv_pc \<times> keff) option" where
  "cv_exec m (CvOut r) = None"
| "cv_exec m CvLocking = (if cv_locked m then None else Some (m\<lparr>cv_locked := True\<rparr>, CvHeld CvNothing, KNone))"
| "cv_exec m (CvHeld r) = None"
| "cv_exec m CvUnlocking = Some (m\<lparr>cv_locked := False\<rparr>, CvOut CvNothing, KNone)"
| "cv_exec m (CvStore b) =
     Some (m\<lparr>cv_data := b, g_set := (if b then g_seq m else g_set m)\<rparr>, CvHeld CvNothing, KNone)"
| "cv_exec m (CvTest c) = Some (m, if cv_data m then CvHeld (CvBool True) else cv_tested c, KNone)"
| "cv_exec m (CvDeadline c) = None"
| "cv_exec m CvLast = Some (m, CvHeld (CvBool (cv_data m)), KNone)"
| "cv_exec m (CvClock c) = None"
| "cv_exec m (CvLoad c) = Some (m, CvRelease c (atomic_load (cv_seq m) MO_relaxed), KNone)"
| "cv_exec m (CvRelease c seq) = Some (m\<lparr>cv_locked := False\<rparr>, CvWait c seq, KNone)"
| "cv_exec m (CvWait c seq) =
     (if cv_seq m = seq then Some (m, CvAsleep c seq, KSleep) else Some (m, CvRelock c seq, KNone))"
| "cv_exec m (CvAsleep c seq) = Some (m, CvRelock c seq, KNone)"
| "cv_exec m (CvRelock c seq) =
     (if cv_locked m then None else Some (m\<lparr>cv_locked := True\<rparr>, cv_relocked c seq, KNone))"
| "cv_exec m (CvCheck c seq) =
     Some (m, cv_checked c seq (atomic_load (cv_seq m) MO_relaxed), KNone)"
| "cv_exec m (CvSignal h) = Some (cv_bump m, CvSignalWake h, KNone)"
| "cv_exec m (CvSignalWake h) = Some (m, cv_client h, KWakeCount 1)"
| "cv_exec m (CvBcast h) = Some (cv_bump m, CvBcastWake h (Suc (g_seq m)), KNone)"
| "cv_exec m (CvBcastWake h b) = Some (m\<lparr>g_bcast := max (g_bcast m) b\<rparr>, cv_client h, KWakeAll)"
| "cv_exec m (CvBcastMutex h) =
     Some (cv_bump m, CvRequeue h (fst (atomic_fetch_add (cv_seq m) 1 MO_release)), KNone)"
| "cv_exec m (CvRequeue h old_seq) =
     Some (m, cv_client h, KNone)"

fun cv_asleep :: "cv_pc \<Rightarrow> bool" where
  "cv_asleep (CvAsleep _ _) = True"
| "cv_asleep _ = False"

definition cv_step :: "cv_op act \<Rightarrow> (cv_mem, cv_pc) fsys \<Rightarrow> (cv_mem, cv_pc) fsys option" where
  "cv_step = sys_step cv_exec cv_start"

definition cv_mem0 :: cv_mem where
  "cv_mem0 = \<lparr>cv_seq = 0, cv_locked = False, cv_data = False, g_seq = 0, g_bcast = 0, g_set = 0\<rparr>"

definition cv_init :: "nat \<Rightarrow> (cv_mem, cv_pc) fsys" where
  "cv_init n = sys_init cv_mem0 (CvOut CvNothing) n"

abbreviation cv_reachable :: "nat \<Rightarrow> (cv_mem, cv_pc) fsys \<Rightarrow> bool" where
  "cv_reachable n \<equiv> reachable cv_step (cv_init n)"

lemma cv_points_awake [simp]:
  "\<not> cv_asleep (cv_entry c)" "\<not> cv_asleep (cv_client h)" "\<not> cv_asleep (cv_relocked c seq)"
  "\<not> cv_asleep (cv_checked c seq now)" "\<not> cv_asleep (cv_tested c)"
  by (simp_all add: cv_entry_def cv_client_def cv_relocked_def cv_checked_def cv_tested_def split: cv_call.split)

interpretation cv: futex_client cv_exec cv_start cv_asleep "CvOut CvNothing"
proof
  fix m l m' l' k assume "cv_exec m l = Some (m', l', k)"
  then show "cv_asleep l' \<longleftrightarrow> k = KSleep"
    by (cases l) (auto simp: KWakeCount_1 KWakeAll_eq split: if_splits)
next
  fix op l l' assume "cv_start op l = Some l'"
  then show "\<not> cv_asleep l'"
    by (cases op; cases l) (auto simp: cv_notify_def cv_clock_def split: if_splits)
qed simp

section \<open>The invariant\<close>

fun cv_holds :: "cv_pc \<Rightarrow> bool" where
  "cv_holds (CvHeld _) = True"
| "cv_holds CvUnlocking = True"
| "cv_holds (CvStore _) = True"
| "cv_holds (CvTest _) = True"
| "cv_holds (CvDeadline _) = True"
| "cv_holds CvLast = True"
| "cv_holds (CvClock _) = True"
| "cv_holds (CvLoad _) = True"
| "cv_holds (CvRelease _ _) = True"
| "cv_holds (CvCheck _ _) = True"
| "cv_holds (CvSignal h) = h"
| "cv_holds (CvSignalWake h) = h"
| "cv_holds (CvBcast h) = h"
| "cv_holds (CvBcastWake h _) = h"
| "cv_holds (CvBcastMutex h) = h"
| "cv_holds (CvRequeue h _) = h"
| "cv_holds _ = False"

definition cv_pred :: "cv_call \<Rightarrow> bool" where
  "cv_pred c \<longleftrightarrow> c = CallWaitPred \<or> c = CallWaitForPred \<or> c = CallWaitUntilPred"

text \<open>
  What is known at a point: between a failed test and the load the data is false; the loaded number
  is not ahead of the notifications, and if the data is true it was made so after the load.
\<close>

definition cv_loaded :: "cv_mem \<Rightarrow> cv_call \<Rightarrow> u32 \<Rightarrow> bool" where
  "cv_loaded m c seq \<longleftrightarrow> unat seq \<le> g_seq m \<and> (cv_pred c \<and> cv_data m \<longrightarrow> unat seq \<le> g_set m)"

fun cv_local :: "cv_mem \<Rightarrow> cv_pc \<Rightarrow> bool" where
  "cv_local m (CvTest c) = cv_pred c"
| "cv_local m (CvDeadline c) = (cv_pred c \<and> c \<noteq> CallWaitPred \<and> \<not> cv_data m)"
| "cv_local m (CvClock c) = (cv_pred c \<longrightarrow> \<not> cv_data m)"
| "cv_local m (CvLoad c) = (cv_pred c \<longrightarrow> \<not> cv_data m)"
| "cv_local m (CvRelease c seq) = cv_loaded m c seq"
| "cv_local m (CvWait c seq) = cv_loaded m c seq"
| "cv_local m (CvAsleep c seq) = cv_loaded m c seq"
| "cv_local m (CvBcastWake h b) = (b \<le> g_seq m)"
| "cv_local m (CvRequeue h old) = (unat old < g_seq m)"
| "cv_local m _ = True"

text \<open>A sleeper loaded its number after the last broadcast that has finished.\<close>

fun cv_late :: "cv_mem \<Rightarrow> cv_pc \<Rightarrow> bool" where
  "cv_late m (CvAsleep c seq) = (g_bcast m \<le> unat seq)"
| "cv_late m _ = True"

definition cv_inv :: "cv_mem \<Rightarrow> tid list \<Rightarrow> cv_pc list \<Rightarrow> bool" where
  "cv_inv m q ls \<longleftrightarrow> cnt cv_holds ls = of_bool (cv_locked m) \<and> cv_seq m = word_of_nat (g_seq m) \<and>
     (g_seq m < 2 ^ 32 \<longrightarrow> g_bcast m \<le> g_seq m \<and> (\<forall>t < length ls. cv_local m (ls ! t)) \<and>
        (\<forall>u \<in> set q. cv_late m (ls ! u)))"

lemma cv_holds_points [simp]:
  "cv_holds (cv_entry c)" "cv_holds (cv_client h) = h" "cv_holds (cv_relocked c seq)"
  "cv_holds (cv_checked c seq now)" "cv_holds (cv_tested c)"
  by (simp_all add: cv_entry_def cv_client_def cv_relocked_def cv_checked_def cv_tested_def split: cv_call.split)

lemma cv_local_points [simp]:
  "cv_local m (cv_entry c)" "cv_local m (cv_client h)" "cv_local m (cv_relocked c seq)"
  "cv_local m (cv_checked c seq now)"
  by (simp_all add: cv_entry_def cv_client_def cv_relocked_def cv_checked_def cv_pred_def split: cv_call.split)

lemma cv_late_points: "\<not> cv_asleep l \<Longrightarrow> cv_late m l"
  by (cases l) auto

lemma cv_start_keeps:
  assumes "cv_start op l = Some l'"
  shows "cv_holds l' = cv_holds l" and "cv_local m l \<Longrightarrow> cv_local m l'"
  using assms by (cases op; cases l; auto simp: cv_notify_def cv_clock_def cv_pred_def split: if_splits)+

lemma cv_exec_lock:
  assumes "cv_exec m l = Some (m', l', k)"
  shows "of_bool (cv_locked m') + of_bool (cv_holds l) = of_bool (cv_locked m) + (of_bool (cv_holds l') :: nat)
    \<or> cv_holds l \<and> \<not> cv_locked m"
  using assms by (cases l) (auto simp: cv_bump_def split: if_splits)

lemma cv_exec_count: "cv_exec m l = Some (m', l', k) \<Longrightarrow> g_seq m \<le> g_seq m' \<and>
    (cv_seq m = word_of_nat (g_seq m) \<longrightarrow> cv_seq m' = word_of_nat (g_seq m'))"
  by (cases l) (auto simp: cv_bump_def split: if_splits)

text \<open>The thread that moves keeps its own facts, and those of every thread that does not share the lock with it.\<close>

lemma cv_local_exec:
  assumes ex: "cv_exec m l = Some (m', l', k)" and loc: "cv_local m l"
    and seq: "unat (cv_seq m) = g_seq m" and b: "g_seq m' < 2 ^ 32"
  shows "cv_local m' l'"
  using assms
  by (cases l) (auto simp: cv_loaded_def cv_bump_def cv_tested_def cv_pred_def split: if_splits)

lemma cv_local_other:
  assumes ex: "cv_exec m l = Some (m', l', k)" and loc: "cv_local m u" and excl: "\<not> (cv_holds l \<and> cv_holds u)"
  shows "cv_local m' u"
  using assms
  by (cases l; cases u) (auto simp: cv_loaded_def cv_bump_def split: if_splits)

lemma cv_late_other: "cv_exec m l = Some (m', l', k) \<Longrightarrow> k \<noteq> KWakeAll \<Longrightarrow> cv_late m u \<Longrightarrow> cv_late m' u"
  by (cases l; cases u) (auto simp: cv_bump_def split: if_splits)

lemma cv_exec_bcast: "cv_exec m l = Some (m', l', k) \<Longrightarrow> g_bcast m \<le> g_seq m \<Longrightarrow> cv_local m l \<Longrightarrow>
    g_bcast m' \<le> g_seq m'"
  by (cases l) (auto simp: cv_bump_def split: if_splits)

lemma cv_invariant:
  assumes reach: "cv_reachable n s" and n: "n < 2 ^ 31"
  shows "cv_inv (shm s) (waitq s) (pcs s)"
proof (rule cv.system_invariant [where I = cv_inv, OF reach [unfolded cv_step_def cv_init_def]])
  show "cv_inv cv_mem0 [] (replicate n (CvOut CvNothing))"
    by (simp add: cv_inv_def cv_mem0_def cnt_simps)
next
  fix m q ls t op l
  assume I: "cv_inv m q ls" and t: "length ls = n" "t < n" "t \<notin> set q" and op: "cv_start op (ls ! t) = Some l"
  have "cnt cv_holds (ls[t := l]) = cnt cv_holds ls"
    using cv_start_keeps(1) [OF op] t by (intro cnt_update_same) auto
  moreover have "cv_local m (ls ! t) \<Longrightarrow> cv_local m l" by (rule cv_start_keeps(2) [OF op])
  moreover have "cv_late m (ls[t := l] ! u)" if "u \<in> set q" "cv_late m (ls ! u)" for u
    using that t by (cases "u = t") auto
  ultimately show "cv_inv m q (ls[t := l])" using I t by (auto simp: cv_inv_def nth_list_update)
next
  fix m q ls t ws m' l k q'
  assume I: "cv_inv m q ls" and wf: "cv.queue_wf \<lparr>shm = m, waitq = q, pcs = ls\<rparr>"
    and t: "length ls = n" "t < n" "t \<notin> set q" and ex: "cv_exec m (ls ! t) = Some (m', l, k)"
    and kr: "kernel k t ws q = Some q'"
  have c: "cnt cv_holds ls = of_bool (cv_locked m)" using I by (simp add: cv_inv_def)
  then have one: "cnt cv_holds ls \<le> 1" by simp
  have "cv_holds (ls ! t) \<Longrightarrow> 0 < cnt cv_holds ls" using t by (intro cnt_pos) auto
  then have lock: "cnt cv_holds (ls[t := l]) = of_bool (cv_locked m')"
    using cv_exec_lock [OF ex] cnt_update [of t ls cv_holds l] c t by auto
  note count = cv_exec_count [OF ex]
  have late: "(\<forall>u < length (ls[t := l]). cv_local m' (ls[t := l] ! u)) \<and> g_bcast m' \<le> g_seq m' \<and>
      (\<forall>u \<in> set q'. cv_late m' (ls[t := l] ! u))" if b: "g_seq m' < 2 ^ 32"
  proof (intro conjI)
    have b0: "g_seq m < 2 ^ 32" using b count by simp
    then have loc: "\<forall>u < length ls. cv_local m (ls ! u)" and bc: "g_bcast m \<le> g_seq m"
      and lt: "\<forall>u \<in> set q. cv_late m (ls ! u)" and seq: "unat (cv_seq m) = g_seq m"
      using I by (auto simp: cv_inv_def unat_of_nat)
    have "cv_local m' l" using cv_local_exec [OF ex _ seq b] loc t by simp
    moreover have "cv_local m' (ls ! u)" if "u < length ls" "u \<noteq> t" for u
      using cv_local_other [OF ex, of "ls ! u"] loc cnt_le1_unique [OF one, of u t] that t by auto
    ultimately show "\<forall>u < length (ls[t := l]). cv_local m' (ls[t := l] ! u)"
      using t by (auto simp: nth_list_update)
    show "g_bcast m' \<le> g_seq m'" using cv_exec_bcast [OF ex bc] loc t by simp
    show "\<forall>u \<in> set q'. cv_late m' (ls[t := l] ! u)"
    proof (cases "k = KWakeAll")
      case True
      with cv.wake_all_queue [OF wf, of t ws q'] kr t n show ?thesis by simp
    next
      case False
      then have old: "\<forall>u \<in> set q. cv_late m' (ls[t := l] ! u)"
        using lt cv_late_other [OF ex] t by (auto simp: nth_list_update)
      show ?thesis
      proof (cases k)
        case KSleep
        then have "cv_late m' l" using ex bc seq by (cases "ls ! t") (auto simp: KWakeCount_1 KWakeAll_eq split: if_splits)
        with KSleep old kr t show ?thesis by auto
      qed (use old kr in \<open>auto simp: kernel_wake\<close>)
    qed
  qed
  show "cv_inv m' q' (ls[t := l])" using lock count late I by (simp add: cv_inv_def)
qed (auto simp: cv_inv_def)

lemma cv_facts:
  assumes reach: "cv_reachable n s" and n: "n < 2 ^ 31" and b: "g_seq (shm s) < 2 ^ 32"
  shows "length (pcs s) = n" and "cv.queue_wf s" and "unat (cv_seq (shm s)) = g_seq (shm s)"
    and "g_bcast (shm s) \<le> g_seq (shm s)"
    and "\<forall>t < n. cv_local (shm s) (pcs s ! t)" and "\<forall>u \<in> set (waitq s). cv_late (shm s) (pcs s ! u)"
proof -
  show len: "length (pcs s) = n" and "cv.queue_wf s"
    using reach cv.reachable_length cv.reachable_queue_wf unfolding cv_step_def cv_init_def by blast+
  show "unat (cv_seq (shm s)) = g_seq (shm s)" "g_bcast (shm s) \<le> g_seq (shm s)"
    "\<forall>t < n. cv_local (shm s) (pcs s ! t)" "\<forall>u \<in> set (waitq s). cv_late (shm s) (pcs s ! u)"
    using cv_invariant [OF reach n] b len by (auto simp: cv_inv_def unat_of_nat)
qed

text \<open>The points of a predicate wait without the lock, and how it goes on when the data is true.\<close>

definition cv_pred_waiting :: "cv_pc \<Rightarrow> bool" where
  "cv_pred_waiting l \<longleftrightarrow> (case l of
     CvWait c _ \<Rightarrow> cv_pred c | CvAsleep c _ \<Rightarrow> cv_pred c | CvRelock c _ \<Rightarrow> cv_pred c | _ \<Rightarrow> False)"

lemma cv_waiter_runs:
  assumes l: "cv_pred_waiting l" and m: "cv_data m" "\<not> cv_locked m"
    and seq: "\<And>c x. l = CvWait c x \<Longrightarrow> cv_seq m \<noteq> x"
  shows "\<exists>k. plain_run cv_exec k m l = Some (m\<lparr>cv_locked := True\<rparr>, CvHeld (CvBool True))"
proof -
  have relock: "plain_run cv_exec (if c = CallWaitPred then 2 else 3) m (CvRelock c x) =
      Some (m\<lparr>cv_locked := True\<rparr>, CvHeld (CvBool True))" if "cv_pred c" for c x
    using that m by (cases c) (simp_all add: numeral_2_eq_2 numeral_3_eq_3 cv_pred_def cv_relocked_def cv_checked_def)
  show ?thesis
  proof (cases l)
    case (CvWait c x)
    with l have "cv_pred c" by (simp add: cv_pred_waiting_def)
    note r = relock [OF this, of x]
    have "cv_exec m l = Some (m, CvRelock c x, KNone)" using CvWait seq by auto
    from plain_run_step [of cv_exec, OF this r] show ?thesis by blast
  next
    case (CvAsleep c x)
    with l have "cv_pred c" by (simp add: cv_pred_waiting_def)
    note r = relock [OF this, of x]
    have "cv_exec m l = Some (m, CvRelock c x, KNone)" using CvAsleep by simp
    from plain_run_step [of cv_exec, OF this r] show ?thesis by blast
  next
    case (CvRelock c x)
    with l have "cv_pred c" by (simp add: cv_pred_waiting_def)
    from relock [OF this, of x] CvRelock show ?thesis by blast
  qed (use l in \<open>auto simp: cv_pred_waiting_def\<close>)
qed

text \<open>A predicate wait whose data is true and was followed by a broadcast is not asleep, and not about to be.\<close>

lemma cv_pred_waiter_goes_on:
  assumes reach: "cv_reachable n s" and n: "n < 2 ^ 31" and b: "g_seq (shm s) < 2 ^ 32"
    and t: "t < n" and waits: "cv_pred_waiting (pcs s ! t)"
    and data: "cv_data (shm s)" and after: "g_set (shm s) < g_bcast (shm s)"
  shows "t \<notin> set (waitq s)" and "pcs s ! t = CvWait c x \<Longrightarrow> cv_seq (shm s) \<noteq> x"
proof -
  note f = cv_facts [OF reach n b]
  have loc: "cv_local (shm s) (pcs s ! t)" using f(5) t by simp
  show "t \<notin> set (waitq s)"
  proof
    assume q: "t \<in> set (waitq s)"
    then have "cv_asleep (pcs s ! t)" using f(2) by (auto simp: cv.queue_wf_def)
    then obtain c seq where l: "pcs s ! t = CvAsleep c seq" by (cases "pcs s ! t") auto
    moreover have "cv_late (shm s) (pcs s ! t)" using f(6) q by simp
    ultimately show False using loc waits data after by (simp add: cv_loaded_def cv_pred_waiting_def)
  qed
  show "cv_seq (shm s) \<noteq> x" if "pcs s ! t = CvWait c x"
    using loc waits data after f(3,4) that by (auto simp: cv_loaded_def cv_pred_waiting_def)
qed

section \<open>Properties\<close>

text \<open>
  Thread 1 tests, waits and sleeps; thread 0 sets the data under the lock and broadcasts without it.
\<close>

definition cv_demo :: "cv_op act list" where
  "cv_demo = [Invoke 1 CvLockOp, Step 1 [], Invoke 1 (CvCall CallWaitPred), Step 1 [], Step 1 [], Step 1 [],
     Invoke 0 CvLockOp, Step 0 [], Invoke 0 (CvSet True), Step 0 [], Invoke 0 CvUnlockOp, Step 0 []]"

definition cv_before_sleep :: "(cv_mem, cv_pc) fsys" where
  "cv_before_sleep = \<lparr>shm = \<lparr>cv_seq = 0, cv_locked = False, cv_data = True, g_seq = 0, g_bcast = 0, g_set = 0\<rparr>,
     waitq = [], pcs = [CvOut CvNothing, CvWait CallWaitPred 0]\<rparr>"

definition cv_sleeping :: "(cv_mem, cv_pc) fsys" where
  "cv_sleeping = cv_before_sleep\<lparr>waitq := [1], pcs := [CvOut CvNothing, CvAsleep CallWaitPred 0]\<rparr>"

definition cv_broadcast_done :: "(cv_mem, cv_pc) fsys" where
  "cv_broadcast_done = \<lparr>shm = \<lparr>cv_seq = 1, cv_locked = False, cv_data = True, g_seq = 1, g_bcast = 1, g_set = 0\<rparr>,
     waitq = [], pcs = [CvOut CvNothing, CvAsleep CallWaitPred 0]\<rparr>"


lemma cv_sleeping_reachable: "cv_reachable 2 cv_sleeping"
  by (rule run_reachable [of _ "cv_demo @ [Step 1 []]"]) code_simp

lemma cv_broadcast_done_reachable: "cv_reachable 2 cv_broadcast_done"
proof -
  let ?s = "\<lparr>shm = \<lparr>cv_seq = 1, cv_locked = False, cv_data = True, g_seq = 1, g_bcast = 0, g_set = 0\<rparr>,
     waitq = [1], pcs = [CvBcastWake False 1, CvAsleep CallWaitPred 0]\<rparr>"
  have "cv_reachable 2 ?s"
    by (rule run_reachable [of _ "cv_demo @ [Step 1 [], Invoke 0 CvBroadcastOp, Step 0 []]"]) code_simp
  moreover have "cv_step (Step 0 [1]) ?s = Some cv_broadcast_done"
    by (simp add: cv_step_def sys_step_def awake_def KWakeAll_eq kernel_def wake_ok_def cv_client_def
        cv_broadcast_done_def)
  ultimately show ?thesis by (rule reachable.step)
qed



text \<open>
  C12. A broadcast is complete: once a \<open>broadcast()\<close> has made its wake, whoever is asleep loaded the
  number after the increment of that broadcast; nobody who was waiting before is left asleep.
\<close>
theorem condvar_broadcast_complete:
  assumes reach: "cv_reachable n s" and n: "n < 2 ^ 31" and b: "g_seq (shm s) < 2 ^ 32"
    and t: "t \<in> set (waitq s)"
  shows "\<exists>c seq. pcs s ! t = CvAsleep c seq \<and> g_bcast (shm s) \<le> unat seq \<and> unat seq \<le> g_seq (shm s)"
proof -
  note f = cv_facts [OF reach n b]
  have "t < n" "cv_asleep (pcs s ! t)" using f(1,2) t by (auto simp: cv.queue_wf_def)
  moreover from this(2) obtain c seq where l: "pcs s ! t = CvAsleep c seq" by (cases "pcs s ! t") auto
  moreover have "cv_late (shm s) (CvAsleep c seq)" using f(6) t l by force
  moreover have "cv_local (shm s) (CvAsleep c seq)" using f(5) \<open>t < n\<close> l by force
  ultimately show ?thesis by (auto simp: cv_loaded_def)
qed

theorem condvar_broadcast_complete_witness:
  "\<exists>c seq. pcs cv_sleeping ! 1 = CvAsleep c seq \<and> g_bcast (shm cv_sleeping) \<le> unat seq \<and>
     unat seq \<le> g_seq (shm cv_sleeping)"
  by (rule condvar_broadcast_complete [OF cv_sleeping_reachable]) (simp_all add: cv_sleeping_def cv_before_sleep_def)

text \<open>
  A predicate wait is not stranded: when the predicate is true, a \<open>broadcast()\<close> that came after it
  was made true has finished and the lock is free, every thread inside one of the predicate waits
  can go on to return true with the lock held.
\<close>
theorem condvar_predicate_wait_returns:
  assumes reach: "cv_reachable n s" and n: "n < 2 ^ 31" and b: "g_seq (shm s) < 2 ^ 32"
    and t: "t < n" and waits: "cv_pred_waiting (pcs s ! t)"
    and data: "cv_data (shm s)" and after: "g_set (shm s) < g_bcast (shm s)" and free: "\<not> cv_locked (shm s)"
  shows "\<exists>k s'. run cv_step (replicate k (Step t [])) s = Some s' \<and> pcs s' ! t = CvHeld (CvBool True) \<and> cv_locked (shm s')"
proof -
  obtain m q ls where s: "s = \<lparr>shm = m, waitq = q, pcs = ls\<rparr>" by (cases s) auto
  note f = cv_facts [OF reach n b]
  note w = cv_pred_waiter_goes_on [OF reach n b t waits data after]
  have awake: "t \<notin> set q" using w(1) s by simp
  have seq: "cv_seq m \<noteq> x" if "ls ! t = CvWait c x" for c x using w(2) s that by simp
  have "\<exists>k. plain_run cv_exec k m (ls ! t) = Some (m\<lparr>cv_locked := True\<rparr>, CvHeld (CvBool True))"
    using waits data free s by (intro cv_waiter_runs seq) simp_all
  then obtain k where "plain_run cv_exec k m (ls ! t) = Some (m\<lparr>cv_locked := True\<rparr>, CvHeld (CvBool True))" ..
  from plain_run_system [of cv_exec, OF this _ awake] f(1) t s
  have "run cv_step (replicate k (Step t [])) s =
      Some \<lparr>shm = m\<lparr>cv_locked := True\<rparr>, waitq = q, pcs = ls[t := CvHeld (CvBool True)]\<rparr>"
    by (simp add: cv_step_def)
  then show ?thesis using f(1) t s by fastforce
qed

theorem condvar_predicate_wait_returns_witness:
  "\<exists>k s'. run cv_step (replicate k (Step 1 [])) cv_broadcast_done = Some s' \<and> pcs s' ! 1 = CvHeld (CvBool True) \<and> cv_locked (shm s')"
  by (rule condvar_predicate_wait_returns [OF cv_broadcast_done_reachable])
    (simp_all add: cv_broadcast_done_def cv_pred_waiting_def cv_pred_def)

end
