(* ===== verification/ParkingLot.thy ===== *)
theory ParkingLot
  imports Futex
begin

text \<open>
  The parking lot of \<^verbatim>\<open>psync_microlock.h\<close>. First the intrusive queue of a bucket as the code
  has it, nodes linked by pointers, and its refinement to lists. The operations that use the queue
  are in \<open>Parking\<close>.
\<close>

section \<open>The buckets\<close>

definition NUM_BUCKETS :: usize where "NUM_BUCKETS = 64"

definition hash_address :: "usize \<Rightarrow> usize" where
  "hash_address addr = drop_bit 3 addr AND (NUM_BUCKETS - 1)"

lemma hash_address_less: "hash_address addr < NUM_BUCKETS"
proof -
  have "hash_address addr \<le> 63" unfolding hash_address_def NUM_BUCKETS_def by (simp add: word_and_le1)
  then show ?thesis by (simp add: NUM_BUCKETS_def word_less_nat_alt word_le_nat_alt)
qed

section \<open>The queue of a bucket as linked nodes\<close>

text \<open>
  A node lives on the stack of the thread that waits, so nodes are named by threads. \<open>None\<close> is
  the null pointer.
\<close>

record wq =
  wq_head :: "tid option"
  wq_tail :: "tid option"
  wq_next :: "tid \<Rightarrow> tid option"
  wq_key :: "tid \<Rightarrow> usize"

text \<open>The part of \<open>park\<close> that appends the node.\<close>

definition wq_append :: "usize \<Rightarrow> tid \<Rightarrow> wq \<Rightarrow> wq" where
  "wq_append addr node b =
     (let b1 = b\<lparr>wq_key := (wq_key b)(node := addr), wq_next := (wq_next b)(node := None)\<rparr>;
          b2 = (case wq_tail b1 of
                  Some last_node \<Rightarrow> b1\<lparr>wq_next := (wq_next b1)(last_node := Some node)\<rparr>
                | None \<Rightarrow> b1\<lparr>wq_head := Some node\<rparr>)
      in b2\<lparr>wq_tail := Some node\<rparr>)"

text \<open>Taking \<open>cur\<close>, whose predecessor is \<open>prev\<close>, out of the list.\<close>

definition wq_unlink :: "tid option \<Rightarrow> tid \<Rightarrow> tid option \<Rightarrow> wq \<Rightarrow> wq" where
  "wq_unlink prev cur nxt b =
     (let b1 = (case prev of
                  Some p \<Rightarrow> b\<lparr>wq_next := (wq_next b)(p := nxt)\<rparr>
                | None \<Rightarrow> b\<lparr>wq_head := nxt\<rparr>)
      in if wq_tail b1 = Some cur then b1\<lparr>wq_tail := prev\<rparr> else b1)"

text \<open>The search of \<open>unpark_one\<close>; a cyclic list would make it run forever.\<close>

partial_function (option) wq_take ::
    "usize \<Rightarrow> wq \<Rightarrow> tid option \<Rightarrow> tid option \<Rightarrow> (wq \<times> tid option) option" where
  "wq_take addr b prev cur =
     (if cur = None then Some (b, None)
      else if wq_key b (the cur) = addr
      then Some (wq_unlink prev (the cur) (wq_next b (the cur)) b, Some (the cur))
      else wq_take addr b cur (wq_next b (the cur)))"

partial_function (option) wq_has :: "usize \<Rightarrow> wq \<Rightarrow> tid option \<Rightarrow> bool option" where
  "wq_has addr b check =
     (if check = None then Some False
      else if wq_key b (the check) = addr then Some True
      else wq_has addr b (wq_next b (the check)))"

datatype UnparkResult = UnparkNone | NoMoreWaiters | HasMoreWaiters

definition wq_unpark_one :: "usize \<Rightarrow> wq \<Rightarrow> (wq \<times> tid option \<times> UnparkResult) option" where
  "wq_unpark_one addr b = (case wq_take addr b None (wq_head b) of
     None \<Rightarrow> None
   | Some (b', None) \<Rightarrow> Some (b', None, UnparkNone)
   | Some (b', Some target) \<Rightarrow>
       (case wq_has addr b' (wq_head b') of
          None \<Rightarrow> None
        | Some has_more \<Rightarrow> Some (b', Some target, if has_more then HasMoreWaiters else NoMoreWaiters)))"

text \<open>
  The loop of \<open>unpark_all\<close>: matching nodes move to the list \<open>to_wake\<close>, given by its ends;
  \<open>wq_move\<close> is the body for such a node.
\<close>

definition wq_move :: "tid option \<Rightarrow> tid \<Rightarrow> tid option \<Rightarrow> wq \<Rightarrow> wq" where
  "wq_move prev cur to_wake_tail b =
     (let b1 = wq_unlink prev cur (wq_next b cur) b;
          b2 = b1\<lparr>wq_next := (wq_next b1)(cur := None)\<rparr>
      in case to_wake_tail of
           Some l \<Rightarrow> b2\<lparr>wq_next := (wq_next b2)(l := Some cur)\<rparr>
         | None \<Rightarrow> b2)"

partial_function (option) wq_split ::
    "usize \<Rightarrow> wq \<Rightarrow> tid option \<Rightarrow> tid option \<Rightarrow> tid option \<Rightarrow> tid option \<Rightarrow> usize \<Rightarrow>
       (wq \<times> tid option \<times> usize) option" where
  "wq_split addr b prev cur to_wake_head to_wake_tail count =
     (if cur = None then Some (b, to_wake_head, count)
      else if wq_key b (the cur) = addr
      then wq_split addr (wq_move prev (the cur) to_wake_tail b) prev (wq_next b (the cur))
             (if to_wake_tail = None then cur else to_wake_head) cur (count + 1)
      else wq_split addr b cur (wq_next b (the cur)) to_wake_head to_wake_tail count)"

definition wq_unpark_all :: "usize \<Rightarrow> wq \<Rightarrow> (wq \<times> tid option \<times> usize) option" where
  "wq_unpark_all addr b = wq_split addr b None (wq_head b) None None 0"

section \<open>The list a bucket stands for\<close>

text \<open>\<open>chain nxt p us z\<close>: from \<open>p\<close> the pointers run through \<open>us\<close> and then point to \<open>z\<close>.\<close>

fun chain :: "(tid \<Rightarrow> tid option) \<Rightarrow> tid option \<Rightarrow> tid list \<Rightarrow> tid option \<Rightarrow> bool" where
  "chain nxt p [] z \<longleftrightarrow> p = z"
| "chain nxt p (u # us) z \<longleftrightarrow> p = Some u \<and> chain nxt (nxt u) us z"

lemma chain_append: "chain nxt p (us @ vs) z \<longleftrightarrow> (\<exists>y. chain nxt p us y \<and> chain nxt y vs z)"
  by (induction us arbitrary: p) auto

lemma chain_upd [simp]: "u \<notin> set us \<Longrightarrow> chain (nxt(u := y)) p us z = chain nxt p us z"
  by (induction us arbitrary: p) auto

lemma chain_cong: "(\<And>u. u \<in> set us \<Longrightarrow> nxt u = nxt' u) \<Longrightarrow> chain nxt p us z = chain nxt' p us z"
  by (induction us arbitrary: p) auto

definition last_of :: "tid option \<Rightarrow> tid list \<Rightarrow> tid option" where
  "last_of p us = (if us = [] then p else Some (last us))"

lemma last_of_simps [simp]:
  "last_of p [] = p" "last_of p (u # us) = last_of (Some u) us" "last_of p (us @ vs) = last_of (last_of p us) vs"
  by (simp_all add: last_of_def)

text \<open>The bucket holds the threads \<open>us\<close>, in this order, and the order of the tail pointer.\<close>

definition wq_list :: "wq \<Rightarrow> tid list \<Rightarrow> bool" where
  "wq_list b us \<longleftrightarrow> distinct us \<and> chain (wq_next b) (wq_head b) us None \<and> wq_tail b = last_of None us"

lemma last_of_in: "last_of None us = Some u \<Longrightarrow> u \<in> set us"
  by (auto simp: last_of_def split: if_splits)

lemma wq_append_list:
  assumes "wq_list b us" and "node \<notin> set us"
  shows "wq_list (wq_append addr node b) (us @ [node])"
    and "wq_key (wq_append addr node b) = (wq_key b)(node := addr)"
proof -
  show "wq_list (wq_append addr node b) (us @ [node])"
  proof (cases us rule: rev_cases)
    case Nil
    with assms show ?thesis by (auto simp: wq_list_def wq_append_def Let_def)
  next
    case (snoc vs v)
    with assms show ?thesis by (auto simp: wq_list_def wq_append_def Let_def chain_append)
  qed
qed (simp add: wq_append_def Let_def split: option.split)

lemma wq_unlink_list:
  assumes "wq_list b (ps @ c # rs)"
  shows "wq_list (wq_unlink (last_of None ps) c (wq_next b c) b) (ps @ rs)"
    and "wq_key (wq_unlink (last_of None ps) c (wq_next b c) b) = wq_key b"
    and "u \<notin> set ps \<Longrightarrow> wq_next (wq_unlink (last_of None ps) c (wq_next b c) b) u = wq_next b u"
proof -
  let ?b = "wq_unlink (last_of None ps) c (wq_next b c) b"
  have d: "distinct (ps @ c # rs)" and h: "chain (wq_next b) (wq_head b) ps (Some c)"
    and r: "chain (wq_next b) (wq_next b c) rs None" and tl: "wq_tail b = last_of None (ps @ c # rs)"
    using assms by (auto simp: wq_list_def chain_append)
  have tail: "wq_tail ?b = last_of None (ps @ rs)"
  proof (cases rs rule: rev_cases)
    case Nil
    with tl show ?thesis by (auto simp: wq_unlink_def Let_def split: option.split)
  next
    case (snoc xs x)
    then have "wq_tail b = Some x" "x \<noteq> c" using tl d by (auto simp: last_of_def)
    with snoc show ?thesis by (auto simp: wq_unlink_def Let_def last_of_def split: option.split)
  qed
  have "chain (wq_next ?b) (wq_head ?b) (ps @ rs) None"
  proof (cases ps rule: rev_cases)
    case Nil
    with r show ?thesis by (simp add: wq_unlink_def Let_def)
  next
    case (snoc xs x)
    with h r d show ?thesis by (auto simp: wq_unlink_def Let_def chain_append)
  qed
  with tail d show "wq_list ?b (ps @ rs)" by (auto simp: wq_list_def)
  show "wq_key ?b = wq_key b" by (simp add: wq_unlink_def Let_def split: option.split)
  show "u \<notin> set ps \<Longrightarrow> wq_next ?b u = wq_next b u"
    by (auto simp: wq_unlink_def Let_def last_of_def split: option.split)
qed

lemma wq_take_list:
  assumes "wq_list b (ps @ rs)" and "chain (wq_next b) cur rs None"
  shows "\<exists>b'. wq_take addr b (last_of None ps) cur = Some (b', find (\<lambda>u. wq_key b u = addr) rs) \<and>
    wq_key b' = wq_key b \<and>
    wq_list b' (ps @ (case find (\<lambda>u. wq_key b u = addr) rs of None \<Rightarrow> rs | Some c \<Rightarrow> remove1 c rs))"
  using assms
proof (induction rs arbitrary: ps cur)
  case Nil
  then show ?case by (simp add: wq_take.simps)
next
  case (Cons c rs)
  show ?case
  proof (cases "wq_key b c = addr")
    case True
    with Cons.prems wq_unlink_list [OF Cons.prems(1)] show ?thesis by (simp add: wq_take.simps)
  next
    case False
    then have step: "wq_take addr b (last_of None ps) cur = wq_take addr b (last_of None (ps @ [c])) (wq_next b c)"
      using Cons.prems(2) False by (subst wq_take.simps) simp
    have "wq_list b ((ps @ [c]) @ rs)" "chain (wq_next b) (wq_next b c) rs None" using Cons.prems by simp_all
    note IH = Cons.IH [OF this]
    have "remove1 x (c # rs) = c # remove1 x rs" if "find (\<lambda>u. wq_key b u = addr) rs = Some x" for x
      using that False by (auto simp: find_Some_iff)
    with IH step False show ?thesis by (auto split: option.splits)
  qed
qed

lemma wq_has_list: "chain (wq_next b) check rs None \<Longrightarrow>
    wq_has addr b check = Some (\<exists>u \<in> set rs. wq_key b u = addr)"
  by (induction rs arbitrary: check) (auto simp: wq_has.simps)

text \<open>One node that is moved, and the whole loop.\<close>

lemma wq_move_list:
  assumes b: "wq_list b (ps @ c # rs)" and ws: "chain (wq_next b) h ws None"
    and d: "distinct (ps @ c # rs @ ws)"
  shows "wq_list (wq_move (last_of None ps) c (last_of None ws) b) (ps @ rs)"
    and "chain (wq_next (wq_move (last_of None ps) c (last_of None ws) b)) (wq_next b c) rs None"
    and "chain (wq_next (wq_move (last_of None ps) c (last_of None ws) b))
           (if last_of None ws = None then Some c else h) (ws @ [c]) None"
    and "wq_key (wq_move (last_of None ps) c (last_of None ws) b) = wq_key b"
proof -
  let ?b1 = "wq_unlink (last_of None ps) c (wq_next b c) b" and ?m = "wq_move (last_of None ps) c (last_of None ws) b"
  have b1: "wq_list ?b1 (ps @ rs)" by (rule wq_unlink_list(1) [OF b])
  have out: "wq_next ?m u = wq_next ?b1 u" if "u \<notin> set ws" "u \<noteq> c" for u
    using that by (auto simp: wq_move_def Let_def dest: last_of_in split: option.split)
  have same: "wq_head ?m = wq_head ?b1" "wq_tail ?m = wq_tail ?b1"
    by (simp_all add: wq_move_def Let_def split: option.split)
  have "chain (wq_next ?m) (wq_head ?m) (ps @ rs) None = chain (wq_next ?b1) (wq_head ?b1) (ps @ rs) None"
    unfolding same by (rule chain_cong) (use out d in auto)
  with b1 same show "wq_list ?m (ps @ rs)" by (simp add: wq_list_def)
  have keep: "wq_next ?b1 u = wq_next b u" if "u \<notin> set ps" for u by (rule wq_unlink_list(3) [OF b that])
  have "chain (wq_next b) (wq_next b c) rs None" using b by (auto simp: wq_list_def chain_append)
  moreover have "chain (wq_next ?m) (wq_next b c) rs None = chain (wq_next b) (wq_next b c) rs None"
  proof (rule chain_cong)
    fix u assume "u \<in> set rs"
    with d have "u \<notin> set ws" "u \<noteq> c" "u \<notin> set ps" by auto
    then show "wq_next ?m u = wq_next b u" using out keep by simp
  qed
  ultimately show "chain (wq_next ?m) (wq_next b c) rs None" by simp
  have wsb: "chain (wq_next ?b1) h ws None = chain (wq_next b) h ws None"
    by (rule chain_cong) (use keep d in auto)
  show "chain (wq_next ?m) (if last_of None ws = None then Some c else h) (ws @ [c]) None"
  proof (cases ws rule: rev_cases)
    case Nil
    then show ?thesis by (simp add: wq_move_def Let_def)
  next
    case (snoc xs x)
    with ws wsb d show ?thesis by (auto simp: wq_move_def Let_def chain_append)
  qed
  show "wq_key ?m = wq_key b"
    using wq_unlink_list(2) [OF b] by (simp add: wq_move_def Let_def split: option.split)
qed

lemma wq_split_list:
  assumes "wq_list b (ps @ rs)" and "chain (wq_next b) cur rs None" and "chain (wq_next b) h ws None"
    and "distinct (ps @ rs @ ws)"
  shows "\<exists>b' h'. wq_split addr b (last_of None ps) cur h (last_of None ws) count =
      Some (b', h', count + word_of_nat (length (filter (\<lambda>u. wq_key b u = addr) rs))) \<and>
    wq_key b' = wq_key b \<and> wq_list b' (ps @ filter (\<lambda>u. wq_key b u \<noteq> addr) rs) \<and>
    chain (wq_next b') h' (ws @ filter (\<lambda>u. wq_key b u = addr) rs) None"
  using assms
proof (induction rs arbitrary: b ps cur h ws count)
  case Nil
  then show ?case by (simp add: wq_split.simps)
next
  case (Cons c rs)
  show ?case
  proof (cases "wq_key b c = addr")
    case True
    let ?b = "wq_move (last_of None ps) c (last_of None ws) b"
    let ?h = "if last_of None ws = None then Some c else h"
    have dw: "distinct (ps @ c # rs @ ws)" and d: "distinct (ps @ rs @ ws @ [c])" using Cons.prems(4) by auto
    note m = wq_move_list [OF Cons.prems(1,3) dw]
    have "wq_split addr b (last_of None ps) cur h (last_of None ws) count =
        wq_split addr ?b (last_of None ps) (wq_next b c) ?h (last_of None (ws @ [c])) (count + 1)"
      using Cons.prems(2) True by (subst wq_split.simps) simp
    with Cons.IH [OF m(1,2,3) d, of "count + 1"] True m(4) show ?thesis by (simp add: ac_simps)
  next
    case False
    have step: "wq_split addr b (last_of None ps) cur h (last_of None ws) count =
        wq_split addr b (last_of None (ps @ [c])) (wq_next b c) h (last_of None ws) count"
      using Cons.prems(2) False by (subst wq_split.simps) simp
    have "wq_list b ((ps @ [c]) @ rs)" "chain (wq_next b) (wq_next b c) rs None" "distinct ((ps @ [c]) @ rs @ ws)"
      using Cons.prems by simp_all
    from Cons.IH [OF this(1,2) Cons.prems(3) this(3), of count] step False show ?thesis by simp
  qed
qed

text \<open>\<open>unpark_one\<close> and \<open>unpark_all\<close> on the list: the first matching thread, and all of them.\<close>

definition unpark_first :: "('k \<times> tid \<Rightarrow> bool) \<Rightarrow> ('k \<times> tid) list \<Rightarrow> ('k \<times> tid) list \<times> tid option \<times> UnparkResult" where
  "unpark_first P q = (case find P q of
     None \<Rightarrow> (q, None, UnparkNone)
   | Some x \<Rightarrow> (remove1 x q, Some (snd x),
       if (\<exists>y \<in> set (remove1 x q). P y) then HasMoreWaiters else NoMoreWaiters))"

text \<open>The entries of a bucket: the threads with their keys.\<close>

definition wq_entries :: "wq \<Rightarrow> tid list \<Rightarrow> (usize \<times> tid) list" where
  "wq_entries b us = map (\<lambda>u. (wq_key b u, u)) us"

lemma find_map: "find P (map f xs) = map_option f (find (P \<circ> f) xs)"
  by (induction xs) auto

lemma remove1_map: "inj f \<Longrightarrow> remove1 (f x) (map f xs) = map f (remove1 x xs)"
  by (induction xs) (auto simp: inj_eq)

lemma wq_unpark_one_list:
  assumes b: "wq_list b us"
  shows "\<exists>b' us'. wq_unpark_one addr b = Some (b', snd (unpark_first (\<lambda>x. fst x = addr) (wq_entries b us))) \<and>
    wq_list b' us' \<and> wq_entries b' us' = fst (unpark_first (\<lambda>x. fst x = addr) (wq_entries b us))"
proof -
  let ?f = "\<lambda>u. (wq_key b u, u)" and ?P = "\<lambda>x. fst x = addr" and ?t = "find (\<lambda>u. wq_key b u = addr) us"
  define us' where "us' = (case ?t of None \<Rightarrow> us | Some c \<Rightarrow> remove1 c us)"
  have "chain (wq_next b) (wq_head b) us None" using b by (simp add: wq_list_def)
  from wq_take_list [of b "[]" us, OF _ this] b
  obtain b' where take: "wq_take addr b None (wq_head b) = Some (b', ?t)" and key: "wq_key b' = wq_key b"
    and list: "wq_list b' us'" unfolding us'_def by fastforce
  have has: "wq_has addr b' (wq_head b') = Some (\<exists>u \<in> set us'. wq_key b u = addr)"
    using wq_has_list [of b' "wq_head b'" us' addr] list key by (simp add: wq_list_def)
  have find: "find ?P (wq_entries b us) = map_option ?f ?t"
    by (simp add: wq_entries_def find_map comp_def)
  have inj: "inj ?f" by (simp add: inj_def)
  have entries: "wq_entries b' us' = fst (unpark_first ?P (wq_entries b us))"
    using find key remove1_map [OF inj]
    by (auto simp: wq_entries_def unpark_first_def us'_def split: option.split)
  have "wq_unpark_one addr b = Some (b', snd (unpark_first ?P (wq_entries b us)))"
  proof (cases ?t)
    case None
    with take find show ?thesis by (simp add: wq_unpark_one_def unpark_first_def)
  next
    case (Some c)
    then have "(\<exists>y \<in> set (remove1 (?f c) (wq_entries b us)). ?P y) = (\<exists>u \<in> set us'. wq_key b u = addr)"
      by (simp add: us'_def wq_entries_def remove1_map [OF inj])
    with Some take find has show ?thesis by (simp add: wq_unpark_one_def unpark_first_def)
  qed
  with list entries show ?thesis by blast
qed

lemma wq_unpark_all_list:
  assumes b: "wq_list b us"
  shows "\<exists>b' h. wq_unpark_all addr b =
      Some (b', h, word_of_nat (length (filter (\<lambda>x. fst x = addr) (wq_entries b us)))) \<and>
    wq_list b' (filter (\<lambda>u. wq_key b u \<noteq> addr) us) \<and>
    wq_entries b' (filter (\<lambda>u. wq_key b u \<noteq> addr) us) = filter (\<lambda>x. fst x \<noteq> addr) (wq_entries b us) \<and>
    chain (wq_next b') h (map snd (filter (\<lambda>x. fst x = addr) (wq_entries b us))) None"
proof -
  have "chain (wq_next b) (wq_head b) us None" "distinct ([] @ us @ [])" "chain (wq_next b) None [] None"
    using b by (simp_all add: wq_list_def)
  with wq_split_list [of b "[]" us "wq_head b" None "[]" addr 0] b show ?thesis
    by (auto simp: wq_unpark_all_def wq_entries_def filter_map comp_def)
qed

section \<open>Property\<close>

text \<open>Nodes 3, 5 and 4 wait in one bucket, the outer two for address 8 and the inner one for address 9.\<close>

definition wq_demo :: wq where
  "wq_demo = \<lparr>wq_head = Some 3, wq_tail = Some 4, wq_next = (\<lambda>_. None)(3 := Some 5, 5 := Some 4),
     wq_key = (\<lambda>_. 8)(5 := 9)\<rparr>"

lemma wq_demo_list: "wq_list wq_demo [3, 5, 4]"
  by (simp add: wq_demo_def wq_list_def)

text \<open>
  C22. The intrusive queue of a bucket is a list: \<open>unpark_one\<close> returns and takes out the first
  thread waiting for the address, and says whether more of them are left; \<open>unpark_all\<close> returns,
  takes out all of them, counts them, and hands them on in their order; both leave the other
  waiters in place and in order.
\<close>
theorem parking_queue_refines:
  assumes "wq_list b us"
  shows "(\<exists>b' us'. wq_unpark_one addr b = Some (b', snd (unpark_first (\<lambda>x. fst x = addr) (wq_entries b us))) \<and>
      wq_list b' us' \<and> wq_entries b' us' = fst (unpark_first (\<lambda>x. fst x = addr) (wq_entries b us))) \<and>
    (\<exists>b' us' h. wq_unpark_all addr b =
        Some (b', h, word_of_nat (length (filter (\<lambda>x. fst x = addr) (wq_entries b us)))) \<and>
      wq_list b' us' \<and> wq_entries b' us' = filter (\<lambda>x. fst x \<noteq> addr) (wq_entries b us) \<and>
      chain (wq_next b') h (map snd (filter (\<lambda>x. fst x = addr) (wq_entries b us))) None)"
  using wq_unpark_one_list [OF assms, of addr] wq_unpark_all_list [OF assms, of addr] by blast

theorem parking_queue_refines_witness:
  "(\<exists>b' us'. wq_unpark_one 8 wq_demo = Some (b', Some 3, HasMoreWaiters) \<and> wq_entries b' us' = [(9, 5), (8, 4)]) \<and>
   (\<exists>b' us' h. wq_unpark_all 8 wq_demo = Some (b', h, 2) \<and> wq_entries b' us' = [(9, 5)] \<and>
      chain (wq_next b') h [3, 4] None)"
proof -
  have "wq_entries wq_demo [3, 5, 4] = [(8, 3), (9, 5), (8, 4)]"
    by (simp add: wq_entries_def wq_demo_def)
  with parking_queue_refines [OF wq_demo_list, of 8] show ?thesis
    by (auto simp: unpark_first_def)
qed

end
