(* ===== verification/Parking.thy ===== *)
theory Parking
  imports ParkingLot
begin

text \<open>
  The operations of the parking lot as steps of threads, and the contract of its clients. The
  bucket's queue is the list its nodes stand for (\<open>ParkingLot\<close>); everything done to it happens
  under the bucket's spin lock, so the walks over it are one step.
\<close>

section \<open>Threads that sleep on their own node\<close>

text \<open>
  Each thread sleeps on the flag of its own node, so a wake is directed at a thread. The actions
  are those of the other systems, without the kernel's choice.
\<close>

datatype neff = NNone | NSleep | NWake tid

datatype 'op nact = NInvoke tid 'op | NStep tid | NSpurious tid

definition node_kernel :: "neff \<Rightarrow> tid \<Rightarrow> tid list \<Rightarrow> tid list" where
  "node_kernel k t q = (case k of
     NNone \<Rightarrow> q | NSleep \<Rightarrow> q @ [t] | NWake u \<Rightarrow> filter (\<lambda>v. v \<noteq> u) q)"

lemma node_kernel_simps [simp]:
  "node_kernel NNone t q = q" "node_kernel NSleep t q = q @ [t]"
  "node_kernel (NWake u) t q = filter (\<lambda>v. v \<noteq> u) q"
  by (simp_all add: node_kernel_def)

definition node_step ::
    "(tid \<Rightarrow> 'w \<Rightarrow> 'l \<Rightarrow> ('w \<times> 'l \<times> neff) option) \<Rightarrow> ('op \<Rightarrow> 'l \<Rightarrow> 'l option) \<Rightarrow>
      'op nact \<Rightarrow> ('w, 'l) fsys \<Rightarrow> ('w, 'l) fsys option" where
  "node_step exec start a s = (case a of
     NInvoke t op \<Rightarrow>
       if awake s t then
         (case start op (pcs s ! t) of None \<Rightarrow> None
          | Some l \<Rightarrow> Some (s\<lparr>pcs := (pcs s)[t := l]\<rparr>))
       else None
   | NStep t \<Rightarrow>
       if awake s t then
         (case exec t (shm s) (pcs s ! t) of None \<Rightarrow> None
          | Some (w, l, k) \<Rightarrow>
              Some \<lparr>shm = w, waitq = node_kernel k t (waitq s), pcs = (pcs s)[t := l]\<rparr>)
       else None
   | NSpurious t \<Rightarrow>
       if t \<in> set (waitq s) then Some (s\<lparr>waitq := filter (\<lambda>u. u \<noteq> t) (waitq s)\<rparr>) else None)"

lemma node_stepE [consumes 1, case_names invoke exec spurious]:
  assumes "node_step exec start a s = Some s'"
  obtains (invoke) t op l where "a = NInvoke t op" "t < length (pcs s)" "t \<notin> set (waitq s)"
      "start op (pcs s ! t) = Some l" "s' = s\<lparr>pcs := (pcs s)[t := l]\<rparr>"
  | (exec) t w l k where "a = NStep t" "t < length (pcs s)" "t \<notin> set (waitq s)"
      "exec t (shm s) (pcs s ! t) = Some (w, l, k)"
      "s' = \<lparr>shm = w, waitq = node_kernel k t (waitq s), pcs = (pcs s)[t := l]\<rparr>"
  | (spurious) t where "a = NSpurious t" "t \<in> set (waitq s)"
      "s' = s\<lparr>waitq := filter (\<lambda>u. u \<noteq> t) (waitq s)\<rparr>"
  using assms
  by (cases a) (auto simp: node_step_def awake_def split: if_splits option.splits)

section \<open>The operations\<close>

text \<open>
  The parking lot's memory; clients extend the record with theirs. \<open>bk_queue\<close> has the entries
  (key, thread) of a bucket in order; \<open>wake_flag\<close> is the flag of each thread's node.
\<close>

record pl_mem =
  bk_lock :: "usize \<Rightarrow> u32"
  bk_queue :: "usize \<Rightarrow> (usize \<times> tid) list"
  wake_flag :: "tid \<Rightarrow> u32"

text \<open>
  The points of \<open>park\<close> (\<open>Pk\<close>), \<open>unpark_one\<close> (\<open>Uo\<close>) and \<open>unpark_all\<close> (\<open>Ua\<close>). At \<open>PkValidate\<close>
  and \<open>UoCallback\<close> the client runs its callback, under the bucket lock.
\<close>

datatype pl_pc =
    PkLock | PkValidate | PkUnlockFail | PkInsert | PkUnlock | PkFlag | PkWait | PkAsleep | PkDone bool
  | UoLock | UoScan | UoCallback "tid option" UnparkResult | UoFlag tid UnparkResult
  | UoUnlock "tid option" UnparkResult | UoWake tid UnparkResult | UoDone UnparkResult
  | UaLock | UaScan | UaUnlock "tid list" usize | UaFlag "tid list" usize
  | UaWake tid "tid list" usize | UaDone usize

definition lock_bucket :: "usize \<Rightarrow> 'x pl_mem_scheme \<Rightarrow> bool \<times> 'x pl_mem_scheme" where
  "lock_bucket b m =
     (let (ok, c, _) = atomic_compare_exchange (bk_lock m b) 0 1 MO_acquire MO_relaxed
      in (ok, m\<lparr>bk_lock := (bk_lock m)(b := c)\<rparr>))"

definition unlock_bucket :: "usize \<Rightarrow> 'x pl_mem_scheme \<Rightarrow> 'x pl_mem_scheme" where
  "unlock_bucket b m = m\<lparr>bk_lock := (bk_lock m)(b := atomic_store (bk_lock m b) 0 MO_release)\<rparr>"

text \<open>What the callbacks lead to.\<close>

definition pl_validated :: "bool \<Rightarrow> pl_pc" where
  "pl_validated ok = (if ok then PkInsert else PkUnlockFail)"

definition pl_called :: "tid option \<Rightarrow> UnparkResult \<Rightarrow> pl_pc" where
  "pl_called target r = (case target of Some u \<Rightarrow> UoFlag u r | None \<Rightarrow> UoUnlock None r)"

fun pl_exec :: "usize \<Rightarrow> tid \<Rightarrow> 'x pl_mem_scheme \<Rightarrow> pl_pc \<Rightarrow> ('x pl_mem_scheme \<times> pl_pc \<times> neff) option" where
  "pl_exec addr t m PkLock =
     (case lock_bucket (hash_address addr) m of
        (True, m') \<Rightarrow> Some (m', PkValidate, NNone) | (False, m') \<Rightarrow> Some (m', PkLock, NNone))"
| "pl_exec addr t m PkValidate = None"
| "pl_exec addr t m PkUnlockFail = Some (unlock_bucket (hash_address addr) m, PkDone False, NNone)"
| "pl_exec addr t m PkInsert =
     Some (m\<lparr>wake_flag := (wake_flag m)(t := 0),
             bk_queue := (bk_queue m)(hash_address addr := bk_queue m (hash_address addr) @ [(addr, t)])\<rparr>,
           PkUnlock, NNone)"
| "pl_exec addr t m PkUnlock = Some (unlock_bucket (hash_address addr) m, PkFlag, NNone)"
| "pl_exec addr t m PkFlag =
     Some (m, if atomic_load (wake_flag m t) MO_relaxed = 0 then PkWait else PkDone True, NNone)"
| "pl_exec addr t m PkWait =
     (if wake_flag m t = 0 then Some (m, PkAsleep, NSleep) else Some (m, PkFlag, NNone))"
| "pl_exec addr t m PkAsleep = Some (m, PkFlag, NNone)"
| "pl_exec addr t m (PkDone ok) = None"
| "pl_exec addr t m UoLock =
     (case lock_bucket (hash_address addr) m of
        (True, m') \<Rightarrow> Some (m', UoScan, NNone) | (False, m') \<Rightarrow> Some (m', UoLock, NNone))"
| "pl_exec addr t m UoScan =
     (case unpark_first (\<lambda>x. fst x = addr) (bk_queue m (hash_address addr)) of
        (q, target, r) \<Rightarrow>
          Some (m\<lparr>bk_queue := (bk_queue m)(hash_address addr := q)\<rparr>, UoCallback target r, NNone))"
| "pl_exec addr t m (UoCallback target r) = None"
| "pl_exec addr t m (UoFlag u r) =
     Some (m\<lparr>wake_flag := (wake_flag m)(u := atomic_store (wake_flag m u) 1 MO_release)\<rparr>,
           UoUnlock (Some u) r, NNone)"
| "pl_exec addr t m (UoUnlock target r) =
     Some (unlock_bucket (hash_address addr) m,
           (case target of Some u \<Rightarrow> UoWake u r | None \<Rightarrow> UoDone r), NNone)"
| "pl_exec addr t m (UoWake u r) = Some (m, UoDone r, NWake u)"
| "pl_exec addr t m (UoDone r) = None"
| "pl_exec addr t m UaLock =
     (case lock_bucket (hash_address addr) m of
        (True, m') \<Rightarrow> Some (m', UaScan, NNone) | (False, m') \<Rightarrow> Some (m', UaLock, NNone))"
| "pl_exec addr t m UaScan =
     (let q = bk_queue m (hash_address addr); us = filter (\<lambda>x. fst x = addr) q
      in Some (m\<lparr>bk_queue := (bk_queue m)(hash_address addr := filter (\<lambda>x. fst x \<noteq> addr) q)\<rparr>,
               UaUnlock (map snd us) (word_of_nat (length us)), NNone))"
| "pl_exec addr t m (UaUnlock us count) = Some (unlock_bucket (hash_address addr) m, UaFlag us count, NNone)"
| "pl_exec addr t m (UaFlag us count) =
     (case us of
        [] \<Rightarrow> Some (m, UaDone count, NNone)
      | u # us' \<Rightarrow> Some (m\<lparr>wake_flag := (wake_flag m)(u := atomic_store (wake_flag m u) 1 MO_release)\<rparr>,
                     UaWake u us' count, NNone))"
| "pl_exec addr t m (UaWake u us count) = Some (m, UaFlag us count, NWake u)"
| "pl_exec addr t m (UaDone count) = None"

section \<open>Who is queued, claimed and about to be woken\<close>

text \<open>
  A view is what the parking lot knows of a thread: the address and the point of the call it is
  in. \<open>pl_in\<close>: inside the critical section of a bucket. \<open>pl_key\<close>: the key under which its node is,
  from the insertion to the return. \<open>pl_claims\<close>: the threads it took out of the queue and has not
  flagged. \<open>pl_wakes\<close>: the thread it has flagged and not woken.
\<close>

type_synonym pl_view = "(usize \<times> pl_pc) option"

fun pl_cs :: "pl_pc \<Rightarrow> bool" where
  "pl_cs PkValidate = True"
| "pl_cs PkUnlockFail = True"
| "pl_cs PkInsert = True"
| "pl_cs PkUnlock = True"
| "pl_cs UoScan = True"
| "pl_cs (UoCallback _ _) = True"
| "pl_cs (UoFlag _ _) = True"
| "pl_cs (UoUnlock _ _) = True"
| "pl_cs UaScan = True"
| "pl_cs (UaUnlock _ _) = True"
| "pl_cs _ = False"

fun pl_in :: "usize \<Rightarrow> pl_view \<Rightarrow> bool" where
  "pl_in b None = False"
| "pl_in b (Some (a, p)) = (hash_address a = b \<and> pl_cs p)"

fun pl_queued :: "pl_pc \<Rightarrow> bool" where
  "pl_queued PkUnlock = True"
| "pl_queued PkFlag = True"
| "pl_queued PkWait = True"
| "pl_queued PkAsleep = True"
| "pl_queued _ = False"

fun pl_key :: "pl_view \<Rightarrow> usize option" where
  "pl_key None = None"
| "pl_key (Some (a, p)) = (if pl_queued p then Some a else None)"

fun pl_point_claims :: "pl_pc \<Rightarrow> tid list" where
  "pl_point_claims (UoCallback target _) = (case target of Some u \<Rightarrow> [u] | None \<Rightarrow> [])"
| "pl_point_claims (UoFlag u _) = [u]"
| "pl_point_claims (UaUnlock us _) = us"
| "pl_point_claims (UaFlag us _) = us"
| "pl_point_claims (UaWake _ us _) = us"
| "pl_point_claims _ = []"

fun pl_claims :: "pl_view \<Rightarrow> tid list" where
  "pl_claims None = []"
| "pl_claims (Some (a, p)) = pl_point_claims p"

fun pl_wakes :: "pl_view \<Rightarrow> tid option" where
  "pl_wakes (Some (a, UoUnlock target _)) = target"
| "pl_wakes (Some (a, UoWake u _)) = Some u"
| "pl_wakes (Some (a, UaWake u _ _)) = Some u"
| "pl_wakes _ = None"

fun pl_asleep :: "pl_view \<Rightarrow> bool" where
  "pl_asleep (Some (a, PkAsleep)) = True"
| "pl_asleep _ = False"

section \<open>The queue, the claims and the flags\<close>

text \<open>
  \<open>Q\<close>: the queues; \<open>F\<close>: the flags; \<open>K\<close>: the key of each thread's node; \<open>C\<close>: what each thread
  claims. A node that is in use is flagged, or in its queue, or claimed by one thread.
\<close>

definition pl_qinv ::
    "(usize \<Rightarrow> (usize \<times> tid) list) \<Rightarrow> (tid \<Rightarrow> u32) \<Rightarrow> (tid \<Rightarrow> usize option) \<Rightarrow> (tid \<Rightarrow> tid list) \<Rightarrow> bool" where
  "pl_qinv Q F K C \<longleftrightarrow>
     (\<forall>b. distinct (map snd (Q b))) \<and>
     (\<forall>b a u. (a, u) \<in> set (Q b) \<longrightarrow> hash_address a = b \<and> K u = Some a \<and> F u = 0) \<and>
     (\<forall>v. distinct (C v)) \<and>
     (\<forall>v u. u \<in> set (C v) \<longrightarrow> F u = 0 \<and> K u \<noteq> None \<and> (\<forall>b a. (a, u) \<notin> set (Q b))) \<and>
     (\<forall>v v' u. u \<in> set (C v) \<and> u \<in> set (C v') \<longrightarrow> v = v') \<and>
     (\<forall>u a. K u = Some a \<longrightarrow> F u \<noteq> 0 \<or> (a, u) \<in> set (Q (hash_address a)) \<or> (\<exists>v. u \<in> set (C v)))"

lemma pl_qinvD:
  assumes "pl_qinv Q F K C"
  shows "distinct (map snd (Q b))"
    and "(a, u) \<in> set (Q b) \<Longrightarrow> hash_address a = b \<and> K u = Some a \<and> F u = 0"
    and "distinct (C v)"
    and "u \<in> set (C v) \<Longrightarrow> F u = 0 \<and> K u \<noteq> None \<and> (a, u) \<notin> set (Q b)"
    and "u \<in> set (C v) \<Longrightarrow> u \<in> set (C v') \<Longrightarrow> v = v'"
    and "K u = Some a \<Longrightarrow> F u \<noteq> 0 \<or> (a, u) \<in> set (Q (hash_address a)) \<or> (\<exists>v. u \<in> set (C v))"
  using assms unfolding pl_qinv_def by blast+

lemma pl_qinv_insert:
  assumes I: "pl_qinv Q F K C" and t: "K t = None"
  shows "pl_qinv (Q(hash_address a := Q (hash_address a) @ [(a, t)])) (F(t := 0)) (K(t := Some a)) C"
proof -
  note D = pl_qinvD [OF I]
  have q: "(x, t) \<notin> set (Q b)" for x b using D(2) t by fastforce
  then have tq: "t \<notin> snd ` set (Q (hash_address a))" by auto
  have c: "u \<noteq> t" if "u \<in> set (C v)" for u v using D(4) [OF that] t by auto
  show ?thesis
    unfolding pl_qinv_def
  proof (intro conjI allI impI)
    fix u x assume "(K(t := Some a)) u = Some x"
    with D(6) [of u x] show "(F(t := 0)) u \<noteq> 0 \<or>
        (x, u) \<in> set ((Q(hash_address a := Q (hash_address a) @ [(a, t)])) (hash_address x)) \<or> (\<exists>v. u \<in> set (C v))"
      by (cases "u = t") auto
  next
    fix x show "distinct (map snd ((Q(hash_address a := Q (hash_address a) @ [(a, t)])) x))" using D(1) tq by simp
  next
    fix v u assume u: "u \<in> set (C v)"
    show "(F(t := 0)) u = 0" "(K(t := Some a)) u \<noteq> None" using D(4) [OF u] by auto
    fix x b show "(x, u) \<notin> set ((Q(hash_address a := Q (hash_address a) @ [(a, t)])) b)"
      using D(4) [OF u] c [OF u] by auto
  next
    fix b x u assume u: "(x, u) \<in> set ((Q(hash_address a := Q (hash_address a) @ [(a, t)])) b)"
    then have "(x, u) = (a, t) \<and> b = hash_address a \<or> (x, u) \<in> set (Q b)" by (auto split: if_splits)
    then show "hash_address x = b" "(K(t := Some a)) u = Some x" "(F(t := 0)) u = 0"
      using D(2) q by auto
  qed (use D in auto)
qed

lemma pl_qinv_remove:
  assumes I: "pl_qinv Q F K C" and t: "C t = []"
  shows "pl_qinv (Q(b := filter (\<lambda>x. \<not> P x) (Q b))) F K (C(t := map snd (filter P (Q b))))"
  (is "pl_qinv ?Q F K ?C")
proof -
  note D = pl_qinvD [OF I]
  have d: "distinct (map snd (filter R (Q x)))" for R x
    using D(1) by (auto simp: distinct_map intro: inj_on_subset)
  have one: "P x \<longleftrightarrow> P y" if "x \<in> set (Q b)" "y \<in> set (Q b)" "snd x = snd y" for x y
    using eq_key_imp_eq_value [of "map prod.swap (Q b)" "snd x" "fst x" "fst y"] D(1) [of b] that
    by (cases x; cases y) (force simp: comp_def)
  have new: "u \<in> set (C v)" if "u \<in> set (?C v)" "v \<noteq> t" for u v using that by simp
  have mine: "\<exists>a. (a, u) \<in> set (Q b) \<and> P (a, u)" if "u \<in> set (?C t)" for u using that by auto
  show ?thesis
    unfolding pl_qinv_def
  proof (intro conjI allI impI)
    fix x show "distinct (map snd (?Q x))" using d D(1) by simp
  next
    fix x a u assume "(a, u) \<in> set (?Q x)"
    then show "hash_address a = x" "K u = Some a" "F u = 0" using D(2) by (auto split: if_splits)
  next
    fix v show "distinct (?C v)" using d D(3) by simp
  next
    fix v u assume u: "u \<in> set (?C v)"
    have "F u = 0 \<and> K u \<noteq> None \<and> (\<forall>x y. (y, u) \<notin> set (?Q x))"
    proof (cases "v = t")
      case True
      with u mine obtain a where a: "(a, u) \<in> set (Q b)" "P (a, u)" by blast
      have "(y, u) \<notin> set (?Q x)" for x y
        using D(2) [OF a(1)] D(2) [of y u x] a one [of "(a, u)" "(y, u)"] by auto
      with D(2) [OF a(1)] show ?thesis by simp
    next
      case False
      with u new have u': "u \<in> set (C v)" by blast
      have "(y, u) \<notin> set (?Q x)" for x y using D(4) [OF u', of y x] by auto
      with D(4) [OF u'] show ?thesis by simp
    qed
    then show "F u = 0" "K u \<noteq> None" "\<And>x y. (y, u) \<notin> set (?Q x)" by blast+
  next
    fix v v' u assume u: "u \<in> set (?C v) \<and> u \<in> set (?C v')"
    have old: False if w: "u \<in> set (C w)" and t: "u \<in> set (?C t)" for w
      using mine [OF t] D(4) [OF w] by blast
    show "v = v'" using u new old D(5) by (cases "v = t"; cases "v' = t") blast+
  next
    fix u a assume k: "K u = Some a"
    from D(6) [OF k] show "F u \<noteq> 0 \<or> (a, u) \<in> set (?Q (hash_address a)) \<or> (\<exists>v. u \<in> set (?C v))"
    proof (elim disjE exE)
      assume q: "(a, u) \<in> set (Q (hash_address a))"
      show ?thesis
      proof (cases "hash_address a = b \<and> P (a, u)")
        case True
        with q have "u \<in> set (?C t)" by force
        then show ?thesis by blast
      qed (use q in auto)
    next
      fix v assume "u \<in> set (C v)"
      moreover from this t have "v \<noteq> t" by auto
      ultimately have "u \<in> set (?C v)" by simp
      then show ?thesis by blast
    qed simp
  qed
qed

lemma pl_qinv_flag:
  assumes I: "pl_qinv Q F K C" and t: "C t = u # us"
  shows "pl_qinv Q (F(u := 1)) K (C(t := us))"
proof -
  note D = pl_qinvD [OF I]
  have u: "u \<in> set (C t)" using t by simp
  have us: "u \<notin> set us" "distinct us" using D(3) [of t] t by simp_all
  have sub: "x \<in> set (C v) \<and> x \<noteq> u" if "x \<in> set ((C(t := us)) v)" for x v
    using that t us(1) D(5) [OF u, of v] by (auto split: if_splits)
  have q: "(a, u) \<notin> set (Q b)" for a b using D(4) [OF u] by blast
  show ?thesis
    unfolding pl_qinv_def
  proof (intro conjI allI impI)
    fix v w x assume "x \<in> set ((C(t := us)) v) \<and> x \<in> set ((C(t := us)) w)"
    then show "v = w" using D(5) sub by blast
  next
    fix v x assume x: "x \<in> set ((C(t := us)) v)"
    show "(F(u := 1)) x = 0" "K x \<noteq> None" "\<And>b a. (a, x) \<notin> set (Q b)"
      using D(4) [of x v] sub [OF x] by auto
  next
    fix b a x assume x: "(a, x) \<in> set (Q b)"
    then have "x \<noteq> u" using q by blast
    then show "hash_address a = b" "K x = Some a" "(F(u := 1)) x = 0" using D(2) [OF x] by simp_all
  next
    fix x a assume k: "K x = Some a"
    have "x \<in> set ((C(t := us)) v)" if "x \<in> set (C v)" "x \<noteq> u" for v using that t by auto
    then show "(F(u := 1)) x \<noteq> 0 \<or> (a, x) \<in> set (Q (hash_address a)) \<or> (\<exists>v. x \<in> set ((C(t := us)) v))"
    proof (cases "x = u")
      case False
      then have "(F(u := 1)) x = F x" by simp
      with False D(6) [OF k] \<open>\<And>v. x \<in> set (C v) \<Longrightarrow> x \<noteq> u \<Longrightarrow> x \<in> set ((C(t := us)) v)\<close> show ?thesis by metis
    qed simp
  qed (use D(1,3) us in simp_all)
qed

lemma pl_qinv_forget:
  assumes I: "pl_qinv Q F K C" and t: "F t \<noteq> 0"
  shows "pl_qinv Q F (K(t := None)) C"
proof -
  note D = pl_qinvD [OF I]
  have "t \<notin> set (C v)" for v using D(4) t by blast
  moreover have "(a, t) \<notin> set (Q b)" for a b using D(2) t by blast
  ultimately show ?thesis unfolding pl_qinv_def using D by (auto split: if_splits)
qed

section \<open>The invariant of the parking lot\<close>

definition pl_keys :: "pl_view list \<Rightarrow> tid \<Rightarrow> usize option" where
  "pl_keys vs u = (if u < length vs then pl_key (vs ! u) else None)"

definition pl_claimed :: "pl_view list \<Rightarrow> tid \<Rightarrow> tid list" where
  "pl_claimed vs u = (if u < length vs then pl_claims (vs ! u) else [])"

lemma pl_keys_update: "t < length vs \<Longrightarrow> pl_keys (vs[t := v]) = (pl_keys vs)(t := pl_key v)"
  by (auto simp: pl_keys_def nth_list_update)

lemma pl_claimed_update: "t < length vs \<Longrightarrow> pl_claimed (vs[t := v]) = (pl_claimed vs)(t := pl_claims v)"
  by (auto simp: pl_claimed_def nth_list_update)

lemma pl_views_same [simp]:
  "t < length vs \<Longrightarrow> (pl_keys vs)(t := pl_key (vs ! t)) = pl_keys vs"
  "t < length vs \<Longrightarrow> (pl_claimed vs)(t := pl_claims (vs ! t)) = pl_claimed vs"
  by (auto simp: pl_keys_def pl_claimed_def)

definition pl_sleepers :: "(tid \<Rightarrow> u32) \<Rightarrow> tid list \<Rightarrow> pl_view list \<Rightarrow> bool" where
  "pl_sleepers F q vs \<longleftrightarrow> (\<forall>u \<in> set q. u < length vs \<and> pl_asleep (vs ! u) \<and>
     (F u = 0 \<or> (\<exists>v < length vs. pl_wakes (vs ! v) = Some u)))"

definition pl_inv :: "'x pl_mem_scheme \<Rightarrow> tid list \<Rightarrow> pl_view list \<Rightarrow> bool" where
  "pl_inv m q vs \<longleftrightarrow> (\<forall>b. cnt (pl_in b) vs = of_bool (bk_lock m b \<noteq> 0)) \<and>
     pl_qinv (bk_queue m) (wake_flag m) (pl_keys vs) (pl_claimed vs) \<and> pl_sleepers (wake_flag m) q vs"

text \<open>
  What a client may do with a thread's view: nothing; begin a call; return from one; answer a
  callback.
\<close>

fun pl_resting :: "pl_view \<Rightarrow> bool" where
  "pl_resting None = True"
| "pl_resting (Some (_, PkDone _)) = True"
| "pl_resting (Some (_, UoDone _)) = True"
| "pl_resting (Some (_, UaDone _)) = True"
| "pl_resting (Some (_, PkLock)) = True"
| "pl_resting (Some (_, UoLock)) = True"
| "pl_resting (Some (_, UaLock)) = True"
| "pl_resting _ = False"

definition pl_client_move :: "pl_view \<Rightarrow> pl_view \<Rightarrow> bool" where
  "pl_client_move v v' \<longleftrightarrow> (v' = v \<and> \<not> pl_asleep v) \<or> (pl_resting v \<and> pl_resting v') \<or>
     (\<exists>a ok. v = Some (a, PkValidate) \<and> v' = Some (a, pl_validated ok)) \<or>
     (\<exists>a target r. v = Some (a, UoCallback target r) \<and> v' = Some (a, pl_called target r))"

lemma pl_resting_simps:
  assumes "pl_resting v"
  shows "\<not> pl_in b v" "pl_key v = None" "pl_claims v = []" "pl_wakes v = None" "\<not> pl_asleep v"
  using assms by (cases v rule: pl_resting.cases; simp)+

lemma pl_client_move_same:
  assumes "pl_client_move v v'"
  shows "pl_in b v' = pl_in b v" "pl_key v' = pl_key v" "pl_claims v' = pl_claims v"
    "pl_wakes v' = pl_wakes v" "\<not> pl_asleep v" "\<not> pl_asleep v'"
proof -
  from assms consider "v' = v" "\<not> pl_asleep v" | "pl_resting v" "pl_resting v'"
    | a ok where "v = Some (a, PkValidate)" "v' = Some (a, pl_validated ok)"
    | a target r where "v = Some (a, UoCallback target r)" "v' = Some (a, pl_called target r)"
    unfolding pl_client_move_def by blast
  then show "pl_in b v' = pl_in b v" "pl_key v' = pl_key v" "pl_claims v' = pl_claims v"
    "pl_wakes v' = pl_wakes v" "\<not> pl_asleep v" "\<not> pl_asleep v'"
    by (cases; simp add: pl_resting_simps pl_validated_def pl_called_def split: option.split)+
qed

lemma pl_sleepers_move:
  assumes "pl_sleepers F q vs" and "t < length vs" and "t \<notin> set q"
    and "\<And>u. u \<in> set q \<Longrightarrow> pl_wakes (vs ! t) = Some u \<Longrightarrow> pl_wakes v = Some u"
    and "\<And>u. u \<in> set q \<Longrightarrow> F' u = 0 \<or> F' u = F u \<or> pl_wakes v = Some u"
  shows "pl_sleepers F' q (vs[t := v])"
  unfolding pl_sleepers_def
proof (intro ballI conjI)
  fix u assume u: "u \<in> set q"
  with assms(1,3) have s: "u < length vs" "pl_asleep (vs ! u)" "u \<noteq> t"
    "F u = 0 \<or> (\<exists>w < length vs. pl_wakes (vs ! w) = Some u)" by (auto simp: pl_sleepers_def)
  then show "u < length (vs[t := v])" "pl_asleep (vs[t := v] ! u)" by simp_all
  have "\<exists>w < length (vs[t := v]). pl_wakes (vs[t := v] ! w) = Some u"
    if "w < length vs" "pl_wakes (vs ! w) = Some u" for w
    using assms(2,4) u that by (intro exI [of _ w]) (auto simp: nth_list_update)
  moreover have "\<exists>w < length (vs[t := v]). pl_wakes (vs[t := v] ! w) = Some u" if "pl_wakes v = Some u"
    using assms(2) that by (intro exI [of _ t]) simp
  ultimately show "F' u = 0 \<or> (\<exists>w < length (vs[t := v]). pl_wakes (vs[t := v] ! w) = Some u)"
    using assms(5) [OF u] s(4) by auto
qed

lemma pl_inv_client:
  assumes I: "pl_inv m q vs" and t: "t < length vs" "t \<notin> set q" and mv: "pl_client_move (vs ! t) v"
  shows "pl_inv m q (vs[t := v])"
proof -
  note same = pl_client_move_same [OF mv]
  have "cnt (pl_in b) (vs[t := v]) = cnt (pl_in b) vs" for b using same(1) t by (intro cnt_update_same) simp_all
  moreover have "pl_sleepers (wake_flag m) q (vs[t := v])"
    using I t same by (intro pl_sleepers_move [of "wake_flag m"]) (simp_all add: pl_inv_def)
  ultimately show ?thesis
    using I t same by (simp add: pl_inv_def pl_keys_update pl_claimed_update)
qed

section \<open>The steps keep the invariant\<close>

lemma pl_exec_lock:
  assumes "pl_exec a t m p = Some (m', p', k)"
  shows "of_bool (bk_lock m' b \<noteq> 0) + of_bool (pl_in b (Some (a, p))) =
      of_bool (bk_lock m b \<noteq> 0) + (of_bool (pl_in b (Some (a, p'))) :: nat) \<or>
    pl_in b (Some (a, p)) \<and> bk_lock m b = 0"
  using assms
  by (cases p) (auto simp: lock_bucket_def unlock_bucket_def Let_def atomic_compare_exchange_def
      split: if_splits option.splits prod.splits list.splits)

text \<open>Taking out the first match is taking out what equals it.\<close>

lemma unpark_first_filter:
  assumes "unpark_first P q = (q', target, r)" and "distinct q"
  shows "\<exists>R. q' = filter (\<lambda>x. \<not> R x) q \<and>
    (case target of None \<Rightarrow> [] | Some u \<Rightarrow> [u]) = map snd (filter R q)"
proof (cases "find P q")
  case None
  with assms(1) show ?thesis
    by (intro exI [of _ "\<lambda>_. False"]) (simp add: unpark_first_def)
next
  case (Some x)
  then have x: "x \<in> set q" by (auto simp: find_Some_iff)
  have "filter ((=) x) q = [x]" using x assms(2) by (induction q) (auto simp: filter_empty_conv)
  with Some assms show ?thesis
    by (intro exI [of _ "(=) x"]) (auto simp: unpark_first_def distinct_remove1_removeAll removeAll_filter_not_eq)
qed

lemma pl_exec_queue:
  assumes ex: "pl_exec a t m p = Some (m', p', k)" and I: "pl_qinv (bk_queue m) (wake_flag m) K C"
    and K: "K t = pl_key (Some (a, p))" and C: "C t = pl_claims (Some (a, p))"
  shows "pl_qinv (bk_queue m') (wake_flag m') (K(t := pl_key (Some (a, p')))) (C(t := pl_claims (Some (a, p'))))"
proof -
  have same: "pl_qinv (bk_queue m) (wake_flag m) (K(t := K t)) (C(t := C t))" using I by simp
  show ?thesis
  proof (cases p)
    case PkInsert
    have "C(t := []) = C" using C PkInsert by auto
    with pl_qinv_insert [OF I, of t a] K PkInsert ex show ?thesis by auto
  next
    case PkFlag
    show ?thesis
    proof (cases "wake_flag m t = 0")
      case True
      with same K C PkFlag ex show ?thesis by simp
    next
      case False
      then have "m' = m" "p' = PkDone True" using PkFlag ex by auto
      moreover have "C(t := []) = C" using C PkFlag by auto
      ultimately show ?thesis using pl_qinv_forget [OF I, of t] False by simp
    qed
  next
    case UoScan
    obtain q target r where u: "unpark_first (\<lambda>x. fst x = a) (bk_queue m (hash_address a)) = (q, target, r)"
      by (metis prod_cases3)
    have "distinct (bk_queue m (hash_address a))" using pl_qinvD(1) [OF I] by (simp add: distinct_map)
    from unpark_first_filter [OF u this] obtain R where
      R: "q = filter (\<lambda>x. \<not> R x) (bk_queue m (hash_address a))"
        "(case target of None \<Rightarrow> [] | Some u \<Rightarrow> [u]) = map snd (filter R (bk_queue m (hash_address a)))"
      by blast
    have "K(t := None) = K" using K UoScan by auto
    with pl_qinv_remove [OF I, of t "hash_address a" R] R u C UoScan ex show ?thesis
      by (auto split: option.splits)
  next
    case (UoFlag u r)
    have "K(t := None) = K" using K UoFlag by auto
    with pl_qinv_flag [OF I, of t u "[]"] C UoFlag ex show ?thesis by auto
  next
    case UaScan
    have "K(t := None) = K" using K UaScan by auto
    with pl_qinv_remove [OF I, of t "hash_address a" "\<lambda>x. fst x = a"] C UaScan ex show ?thesis
      by (auto simp: Let_def)
  next
    case (UaFlag us count)
    have "K(t := None) = K" using K UaFlag by auto
    with pl_qinv_flag [OF I, of t "hd us" "tl us"] same K C UaFlag ex show ?thesis
      by (cases us) auto
  qed (use same K C ex in \<open>auto simp: lock_bucket_def unlock_bucket_def Let_def split: if_splits prod.splits option.splits\<close>)
qed

lemma pl_exec_sleepers:
  assumes ex: "pl_exec a t m p = Some (m', p', k)" and S: "pl_sleepers (wake_flag m) q vs"
    and t: "t < length vs" "t \<notin> set q" "vs ! t = Some (a, p)"
  shows "pl_sleepers (wake_flag m') (node_kernel k t q) (vs[t := Some (a, p')])"
proof (cases k)
  case NNone
  have keep: "pl_wakes (Some (a, p)) = Some u \<Longrightarrow> pl_wakes (Some (a, p')) = Some u" for u
    using ex NNone by (cases p) (auto simp: Let_def split: if_splits prod.splits option.splits list.splits)
  have flags: "wake_flag m' u = 0 \<or> wake_flag m' u = wake_flag m u \<or> pl_wakes (Some (a, p')) = Some u" for u
    using ex by (cases p) (auto simp: lock_bucket_def unlock_bucket_def Let_def split: if_splits prod.splits option.splits list.splits)
  have "pl_sleepers (wake_flag m') q (vs[t := Some (a, p')])"
    by (rule pl_sleepers_move [OF S t(1,2)]) (use keep flags t(3) in simp, rule flags)
  with NNone show ?thesis by simp
next
  case NSleep
  have "p = PkWait \<and> p' = PkAsleep \<and> m' = m \<and> wake_flag m t = 0"
    using ex NSleep by (cases p) (auto simp: Let_def split: if_splits prod.splits list.splits bool.splits)
  then have w: "pl_wakes (Some (a, p)) = None" "wake_flag m' = wake_flag m" "wake_flag m t = 0"
      "pl_asleep (Some (a, p'))" by simp_all
  have "pl_sleepers (wake_flag m') q (vs[t := Some (a, p')])"
    by (rule pl_sleepers_move [OF S t(1,2)]) (use w t(3) in simp_all)
  with NSleep w t show ?thesis by (simp add: pl_sleepers_def)
next
  case (NWake u)
  have w: "pl_wakes (Some (a, p)) = Some u \<and> m' = m"
    using ex NWake by (cases p) (auto simp: Let_def split: if_splits prod.splits list.splits bool.splits)
  have "pl_sleepers (wake_flag m) (filter (\<lambda>v. v \<noteq> u) q) vs" using S by (simp add: pl_sleepers_def)
  then have "pl_sleepers (wake_flag m') (filter (\<lambda>v. v \<noteq> u) q) (vs[t := Some (a, p')])"
    by (rule pl_sleepers_move) (use w t in simp_all)
  with NWake show ?thesis by simp
qed

lemma pl_inv_exec:
  assumes I: "pl_inv m q vs" and t: "t < length vs" "t \<notin> set q" "vs ! t = Some (a, p)"
    and ex: "pl_exec a t m p = Some (m', p', k)"
  shows "pl_inv m' (node_kernel k t q) (vs[t := Some (a, p')])"
proof -
  have "cnt (pl_in b) (vs[t := Some (a, p')]) = of_bool (bk_lock m' b \<noteq> 0)" for b
  proof -
    have "cnt (pl_in b) vs = of_bool (bk_lock m b \<noteq> 0)" using I by (simp add: pl_inv_def)
    moreover have "pl_in b (Some (a, p)) \<Longrightarrow> 0 < cnt (pl_in b) vs" using t by (intro cnt_pos) auto
    moreover note cnt_update [of t vs "pl_in b" "Some (a, p')"] pl_exec_lock [OF ex, of b]
    ultimately show ?thesis using t by auto
  qed
  moreover have "pl_qinv (bk_queue m') (wake_flag m') (pl_keys (vs[t := Some (a, p')])) (pl_claimed (vs[t := Some (a, p')]))"
  proof -
    have "pl_keys vs t = pl_key (Some (a, p))" "pl_claimed vs t = pl_claims (Some (a, p))"
      using t by (simp_all add: pl_keys_def pl_claimed_def)
    from pl_exec_queue [where K = "pl_keys vs" and C = "pl_claimed vs", OF ex _ this] I t show ?thesis
      by (simp add: pl_inv_def pl_keys_update pl_claimed_update del: pl_key.simps pl_claims.simps)
  qed
  ultimately show ?thesis using pl_exec_sleepers [OF ex _ t] I by (simp add: pl_inv_def)
qed

lemma pl_inv_other_memory: "pl_inv m q vs \<Longrightarrow> bk_lock m' = bk_lock m \<Longrightarrow> bk_queue m' = bk_queue m \<Longrightarrow>
    wake_flag m' = wake_flag m \<Longrightarrow> pl_inv m' q vs"
  by (simp add: pl_inv_def)

section \<open>The contract of a client\<close>

text \<open>
  A client of the parking lot moves a thread by a step of the parking lot, or by a step of its
  own that leaves the parking lot's memory alone and begins a call, leaves one or answers a
  callback. Then the parking lot keeps its invariant.
\<close>

locale parking_client =
  fixes exec :: "tid \<Rightarrow> 'x pl_mem_scheme \<Rightarrow> 'l \<Rightarrow> ('x pl_mem_scheme \<times> 'l \<times> neff) option"
    and start :: "'op \<Rightarrow> 'l \<Rightarrow> 'l option"
    and view :: "'l \<Rightarrow> pl_view"
    and m0 :: "'x pl_mem_scheme"
    and idle :: 'l
  assumes exec_cases: "exec t m l = Some (m', l', k) \<Longrightarrow>
      (\<exists>a p p'. view l = Some (a, p) \<and> pl_exec a t m p = Some (m', p', k) \<and> view l' = Some (a, p')) \<or>
      (pl_client_move (view l) (view l') \<and> k = NNone \<and> bk_lock m' = bk_lock m \<and>
        bk_queue m' = bk_queue m \<and> wake_flag m' = wake_flag m)"
    and start_move: "start op l = Some l' \<Longrightarrow> pl_client_move (view l) (view l')"
    and empty_lot: "bk_lock m0 b = 0" "bk_queue m0 b = []"
    and idle_view: "view idle = None"
begin

lemma pl_inv_init: "pl_inv m0 [] (replicate n (view idle))"
proof -
  have "pl_keys (replicate n None) = (\<lambda>_. None)" "pl_claimed (replicate n None) = (\<lambda>_. [])"
    by (auto simp: pl_keys_def pl_claimed_def)
  then show ?thesis by (simp add: pl_inv_def cnt_simps idle_view empty_lot pl_qinv_def pl_sleepers_def)
qed

lemma pl_inv_step:
  assumes I: "pl_inv m q (map view ls)" and t: "t < length ls" "t \<notin> set q"
    and ex: "exec t m (ls ! t) = Some (m', l, k)"
  shows "pl_inv m' (node_kernel k t q) (map view (ls[t := l]))"
  using exec_cases [OF ex]
proof
  assume "\<exists>a p p'. view (ls ! t) = Some (a, p) \<and> pl_exec a t m p = Some (m', p', k) \<and> view l = Some (a, p')"
  then show ?thesis using pl_inv_exec [OF I] t by (auto simp: map_update)
next
  assume "pl_client_move (view (ls ! t)) (view l) \<and> k = NNone \<and> bk_lock m' = bk_lock m \<and>
        bk_queue m' = bk_queue m \<and> wake_flag m' = wake_flag m"
  then show ?thesis using pl_inv_client [OF I, of t "view l"] t
    by (auto simp: map_update intro: pl_inv_other_memory)
qed

lemma pl_inv_start: "pl_inv m q (map view ls) \<Longrightarrow> t < length ls \<Longrightarrow> t \<notin> set q \<Longrightarrow>
    start op (ls ! t) = Some l \<Longrightarrow> pl_inv m q (map view (ls[t := l]))"
  using pl_inv_client [of m q "map view ls" t "view l"] start_move by (simp add: map_update)

lemma pl_inv_spurious: "pl_inv m q vs \<Longrightarrow> pl_inv m (filter (\<lambda>u. u \<noteq> t) q) vs"
  by (auto simp: pl_inv_def pl_sleepers_def)

text \<open>
  The invariant rule of these systems; what the client shows of its own state may use the
  invariant of the parking lot.
\<close>

lemma system_invariant:
  assumes reach: "reachable (node_step exec start) (sys_init m0 idle n) s"
    and init: "I m0 (replicate n idle)"
    and invoke: "\<And>m ls t op l. I m ls \<Longrightarrow> length ls = n \<Longrightarrow> t < n \<Longrightarrow>
        start op (ls ! t) = Some l \<Longrightarrow> I m (ls[t := l])"
    and exec: "\<And>m q ls t m' l k. I m ls \<Longrightarrow> pl_inv m q (map view ls) \<Longrightarrow> length ls = n \<Longrightarrow> t < n \<Longrightarrow>
        exec t m (ls ! t) = Some (m', l, k) \<Longrightarrow> I m' (ls[t := l])"
  shows "length (pcs s) = n \<and> pl_inv (shm s) (waitq s) (map view (pcs s)) \<and> I (shm s) (pcs s)"
proof -
  let ?J = "\<lambda>s. length (pcs s) = n \<and> pl_inv (shm s) (waitq s) (map view (pcs s)) \<and> I (shm s) (pcs s)"
  have "?J s"
  proof (rule reachable_invariant [OF reach])
    show "?J (sys_init m0 idle n)" using pl_inv_init init by simp
  next
    fix s a s'
    assume J: "?J s" and stp: "node_step exec start a s = Some s'"
    from stp show "?J s'"
    proof (cases rule: node_stepE)
      case (invoke t op l)
      with J assms(3) [of "shm s" "pcs s" t op l] pl_inv_start [where m = "shm s" and q = "waitq s" and ls = "pcs s" and t = t and op = op and l = l] show ?thesis by simp
    next
      case (exec t w l k)
      with J assms(4) [of "shm s" "pcs s" "waitq s" t w l k] pl_inv_step [where m = "shm s" and q = "waitq s" and ls = "pcs s" and t = t and m' = w and l = l and k = k] show ?thesis by simp
    next
      case (spurious t)
      with J pl_inv_spurious [of "shm s" "waitq s" "map view (pcs s)" t] show ?thesis by simp
    qed
  qed
  then show ?thesis .
qed

text \<open>A parked thread whose flag is not set is in its queue, or some other thread has just taken it out.\<close>

lemma parked_in_queue:
  assumes I: "pl_inv m q (map view ls)" and t: "t < length ls" "view (ls ! t) = Some (a, p)" "pl_queued p"
    and F: "wake_flag m t = 0"
  shows "(a, t) \<in> set (bk_queue m (hash_address a)) \<or> (\<exists>v < length ls. t \<in> set (pl_claims (view (ls ! v))))"
proof -
  have "pl_keys (map view ls) t = Some a" using t by (simp add: pl_keys_def)
  with pl_qinvD(6) [of "bk_queue m" "wake_flag m" "pl_keys (map view ls)" "pl_claimed (map view ls)" t a] I F
  have "(a, t) \<in> set (bk_queue m (hash_address a)) \<or> (\<exists>v. t \<in> set (pl_claimed (map view ls) v))"
    by (simp add: pl_inv_def)
  then show ?thesis by (auto simp: pl_claimed_def split: if_splits)
qed

lemma queued_thread:
  assumes "pl_inv m q (map view ls)" and "(a, u) \<in> set (bk_queue m b)"
  shows "b = hash_address a \<and> u < length ls \<and> wake_flag m u = 0 \<and> (\<exists>p. view (ls ! u) = Some (a, p) \<and> pl_queued p)"
proof -
  have k: "hash_address a = b \<and> pl_keys (map view ls) u = Some a \<and> wake_flag m u = 0"
    using pl_qinvD(2) [of "bk_queue m" "wake_flag m" _ _ a u b] assms by (simp add: pl_inv_def) blast
  then show ?thesis by (cases "view (ls ! u)") (auto simp: pl_keys_def split: if_splits)
qed

text \<open>At most one thread is inside the critical section of a bucket.\<close>

lemma bucket_exclusive:
  assumes "pl_inv m q (map view ls)" and "i < length ls" "j < length ls"
    and "pl_in b (view (ls ! i))" "pl_in b (view (ls ! j))"
  shows "i = j"
proof -
  have "cnt (pl_in b) (map view ls) \<le> 1" using assms(1) by (simp add: pl_inv_def)
  with cnt_le1_unique [OF this, of i j] assms show ?thesis by simp
qed

end

end
