(* ===== verification/MicroLock.thy ===== *)
theory MicroLock
  imports Mutex Parking
begin

text \<open>
  The one-byte lock of \<^verbatim>\<open>psync_microlock.h\<close>, any number of locks at any addresses sharing the
  global parking lot. Shown: mutual exclusion of each lock, and that a thread parked on a free lock
  has somebody on the way to it.
\<close>

section \<open>The microlock\<close>

record mk_mem = pl_mem +
  mk_state :: "usize \<Rightarrow> u8"

definition MK_UNLOCKED :: u8 where "MK_UNLOCKED = 0"
definition MK_LOCKED :: u8 where "MK_LOCKED = 1"

lemmas mk_consts = MK_UNLOCKED_def MK_LOCKED_def

text \<open>The points of a thread that works on the lock at an address.\<close>

datatype mk_point =
    MkOut "bool option"
  | MkFast usize
  | MkTry usize
  | MkSpin usize nat
  | MkPark usize pl_pc
  | MkRetry usize
  | MkStore usize
  | MkUnpark usize pl_pc

text \<open>A thread also carries the addresses of the locks it holds.\<close>

type_synonym mk_pc = "usize list \<times> mk_point"

datatype mk_op = MkLock usize | MkTryLock usize | MkUnlock usize

fun mk_start :: "mk_op \<Rightarrow> mk_pc \<Rightarrow> mk_pc option" where
  "mk_start op (hs, l) = (case l of
     MkOut _ \<Rightarrow>
       (case op of
          MkLock a \<Rightarrow> Some (hs, MkFast a)
        | MkTryLock a \<Rightarrow> Some (hs, MkTry a)
        | MkUnlock a \<Rightarrow> if a \<in> set hs then Some (remove1 a hs, MkStore a) else None)
   | _ \<Rightarrow> None)"

definition mk_cas :: "usize \<Rightarrow> mk_mem \<Rightarrow> bool \<times> mk_mem" where
  "mk_cas a m =
     (let (ok, c, _) = atomic_compare_exchange (mk_state m a) MK_UNLOCKED MK_LOCKED MO_acquire MO_relaxed
      in (ok, m\<lparr>mk_state := (mk_state m)(a := c)\<rparr>))"

text \<open>\<open>lock_contended\<close> spins \<open>SPIN_INITIAL\<close> times, parks, and tries once more.\<close>

definition mk_spin_next :: "usize \<Rightarrow> nat \<Rightarrow> mk_point" where
  "mk_spin_next a i = (if Suc i < SPIN_INITIAL then MkSpin a (Suc i) else MkPark a PkLock)"

fun mk_exec_point :: "tid \<Rightarrow> mk_mem \<Rightarrow> usize list \<Rightarrow> mk_point \<Rightarrow> (mk_mem \<times> mk_pc \<times> neff) option" where
  "mk_exec_point t m hs (MkOut r) = None"
| "mk_exec_point t m hs (MkFast a) =
     (case mk_cas a m of
        (True, m') \<Rightarrow> Some (m', (a # hs, MkOut None), NNone)
      | (False, m') \<Rightarrow> Some (m', (hs, MkSpin a 0), NNone))"
| "mk_exec_point t m hs (MkTry a) =
     (case mk_cas a m of
        (True, m') \<Rightarrow> Some (m', (a # hs, MkOut (Some True)), NNone)
      | (False, m') \<Rightarrow> Some (m', (hs, MkOut (Some False)), NNone))"
| "mk_exec_point t m hs (MkSpin a i) =
     (case mk_cas a m of
        (True, m') \<Rightarrow> Some (m', (a # hs, MkOut None), NNone)
      | (False, m') \<Rightarrow> Some (m', (hs, mk_spin_next a i), NNone))"
| "mk_exec_point t m hs (MkPark a p) =
     (if p = PkValidate then
        Some (m, (hs, MkPark a (pl_validated (atomic_load (mk_state m a) MO_relaxed = MK_LOCKED))), NNone)
      else if p = PkDone True \<or> p = PkDone False then Some (m, (hs, MkRetry a), NNone)
      else (case pl_exec a t m p of
        None \<Rightarrow> None
      | Some (m', p', k) \<Rightarrow> Some (m', (hs, MkPark a p'), k)))"
| "mk_exec_point t m hs (MkRetry a) =
     (case mk_cas a m of
        (True, m') \<Rightarrow> Some (m', (a # hs, MkOut None), NNone)
      | (False, m') \<Rightarrow> Some (m', (hs, MkSpin a 0), NNone))"
| "mk_exec_point t m hs (MkStore a) =
     Some (m\<lparr>mk_state := (mk_state m)(a := atomic_store (mk_state m a) MK_UNLOCKED MO_release)\<rparr>,
           (hs, MkUnpark a UoLock), NNone)"
| "mk_exec_point t m hs (MkUnpark a p) = (case p of
     UoCallback target r \<Rightarrow> Some (m, (hs, MkUnpark a (pl_called target r)), NNone)
   | UoDone r \<Rightarrow> Some (m, (hs, MkOut None), NNone)
   | _ \<Rightarrow> (case pl_exec a t m p of
       None \<Rightarrow> None
     | Some (m', p', k) \<Rightarrow> Some (m', (hs, MkUnpark a p'), k)))"

definition mk_exec :: "tid \<Rightarrow> mk_mem \<Rightarrow> mk_pc \<Rightarrow> (mk_mem \<times> mk_pc \<times> neff) option" where
  "mk_exec t m l = mk_exec_point t m (fst l) (snd l)"

definition mk_step :: "mk_op nact \<Rightarrow> (mk_mem, mk_pc) fsys \<Rightarrow> (mk_mem, mk_pc) fsys option" where
  "mk_step = node_step mk_exec mk_start"

definition mk_mem0 :: mk_mem where
  "mk_mem0 = \<lparr>bk_lock = \<lambda>_. 0, bk_queue = \<lambda>_. [], wake_flag = \<lambda>_. 0, mk_state = \<lambda>_. MK_UNLOCKED\<rparr>"

definition mk_init :: "nat \<Rightarrow> (mk_mem, mk_pc) fsys" where
  "mk_init n = sys_init mk_mem0 ([], MkOut None) n"

abbreviation mk_reachable :: "nat \<Rightarrow> (mk_mem, mk_pc) fsys \<Rightarrow> bool" where
  "mk_reachable n \<equiv> reachable mk_step (mk_init n)"

fun mk_view :: "mk_pc \<Rightarrow> pl_view" where
  "mk_view (hs, MkPark a p) = Some (a, p)"
| "mk_view (hs, MkUnpark a p) = Some (a, p)"
| "mk_view _ = None"

lemma mk_cas_lot:
  assumes "mk_cas a m = (ok, m')"
  shows "bk_lock m' = bk_lock m" "bk_queue m' = bk_queue m" "wake_flag m' = wake_flag m"
    "mk_state m' = (mk_state m)(a := if ok then 1 else mk_state m a)" "ok \<longleftrightarrow> mk_state m a = 0"
  using assms by (auto simp: mk_cas_def mk_consts Let_def atomic_compare_exchange_def split: if_splits)

text \<open>Every step, sorted by what it does.\<close>

lemma mk_exec_cases [consumes 1, case_names acquire failed try_failed spin park validate retry store unpark callback out]:
  assumes "mk_exec t m (hs, l) = Some (m', l', k)"
  obtains (acquire) a r where "l = MkFast a \<or> l = MkTry a \<or> (\<exists>i. l = MkSpin a i) \<or> l = MkRetry a"
      "mk_cas a m = (True, m')" "l' = (a # hs, MkOut r)" "k = NNone"
  | (failed) a where "l = MkFast a \<or> l = MkRetry a" "mk_cas a m = (False, m')" "l' = (hs, MkSpin a 0)" "k = NNone"
  | (try_failed) a where "l = MkTry a" "mk_cas a m = (False, m')" "l' = (hs, MkOut (Some False))" "k = NNone"
  | (spin) a i where "l = MkSpin a i" "mk_cas a m = (False, m')" "l' = (hs, mk_spin_next a i)" "k = NNone"
  | (park) a p p' where "l = MkPark a p" "pl_exec a t m p = Some (m', p', k)" "l' = (hs, MkPark a p')"
  | (validate) a where "l = MkPark a PkValidate" "m' = m" "l' = (hs, MkPark a (pl_validated (mk_state m a = MK_LOCKED)))" "k = NNone"
  | (retry) a ok where "l = MkPark a (PkDone ok)" "m' = m" "l' = (hs, MkRetry a)" "k = NNone"
  | (store) a where "l = MkStore a" "m' = m\<lparr>mk_state := (mk_state m)(a := 0)\<rparr>" "l' = (hs, MkUnpark a UoLock)" "k = NNone"
  | (unpark) a p p' where "l = MkUnpark a p" "pl_exec a t m p = Some (m', p', k)" "l' = (hs, MkUnpark a p')"
  | (callback) a target r where "l = MkUnpark a (UoCallback target r)" "m' = m" "l' = (hs, MkUnpark a (pl_called target r))" "k = NNone"
  | (out) a r where "l = MkUnpark a (UoDone r)" "m' = m" "l' = (hs, MkOut None)" "k = NNone"
  using assms unfolding mk_exec_def
  by (cases l)
    (auto simp: mk_consts split: if_splits bool.splits prod.splits option.splits pl_pc.splits)

lemma mk_client_moves:
  "pl_client_move (mk_view (hs, MkPark a PkValidate)) (mk_view (hs, MkPark a (pl_validated ok)))"
  "pl_client_move (mk_view (hs, MkUnpark a (UoCallback target r))) (mk_view (hs, MkUnpark a (pl_called target r)))"
  by (auto simp: pl_client_move_def)

lemma mk_resting_move: "pl_resting (mk_view l) \<Longrightarrow> pl_resting (mk_view l') \<Longrightarrow> pl_client_move (mk_view l) (mk_view l')"
  by (simp add: pl_client_move_def)

lemma mk_start_cases:
  assumes "mk_start op (hs, l) = Some l'"
  obtains r a where "l = MkOut r" "l' = (hs, MkFast a) \<or> l' = (hs, MkTry a)"
  | r a where "l = MkOut r" "a \<in> set hs" "l' = (remove1 a hs, MkStore a)"
  using assms by (cases op) (auto split: mk_point.splits if_splits)

interpretation mk: parking_client mk_exec mk_start mk_view mk_mem0 "([], MkOut None)"
proof
  fix t m l m' l' k assume ex: "mk_exec t m l = Some (m', l', k)"
  obtain hs p where l: "l = (hs, p)" by (cases l) auto
  let ?lot = "\<exists>a p p'. mk_view l = Some (a, p) \<and> pl_exec a t m p = Some (m', p', k) \<and> mk_view l' = Some (a, p')"
  let ?own = "pl_client_move (mk_view l) (mk_view l') \<and> k = NNone \<and> bk_lock m' = bk_lock m \<and>
    bk_queue m' = bk_queue m \<and> wake_flag m' = wake_flag m"
  from ex [unfolded l] show "?lot \<or> ?own"
  proof (cases rule: mk_exec_cases)
    case (acquire a r)
    moreover have "pl_client_move (mk_view l) (mk_view l')"
      using acquire l by (intro mk_resting_move) auto
    ultimately show ?thesis using mk_cas_lot by blast
  next
    case (failed a)
    moreover have "pl_client_move (mk_view l) (mk_view l')"
      using failed l by (intro mk_resting_move) auto
    ultimately show ?thesis using mk_cas_lot by blast
  next
    case (try_failed a)
    moreover have "pl_client_move (mk_view l) (mk_view l')"
      using try_failed l by (intro mk_resting_move) auto
    ultimately show ?thesis using mk_cas_lot by blast
  next
    case (spin a i)
    moreover have "pl_client_move (mk_view l) (mk_view l')"
      using spin l by (intro mk_resting_move) (auto simp: mk_spin_next_def)
    ultimately show ?thesis using mk_cas_lot by blast
  next
    case (validate a)
    then show ?thesis using l mk_client_moves(1) by blast
  next
    case (callback a target r)
    then show ?thesis using l mk_client_moves(2) by blast
  qed (auto simp: l pl_client_move_def)
next
  fix op l l' assume st: "mk_start op l = Some l'"
  obtain hs p where l: "l = (hs, p)" by (cases l) auto
  from st [unfolded l] show "pl_client_move (mk_view l) (mk_view l')"
    by (cases rule: mk_start_cases) (auto simp: l pl_client_move_def)
qed (simp_all add: mk_mem0_def)

section \<open>The invariant\<close>

text \<open>\<open>mk_holds a\<close>: the thread holds the lock at \<open>a\<close>, up to the store of its \<open>unlock\<close>.\<close>

definition mk_holds :: "usize \<Rightarrow> mk_pc \<Rightarrow> bool" where
  "mk_holds a l \<longleftrightarrow> a \<in> set (fst l) \<or> snd l = MkStore a"

fun pl_parking :: "pl_pc \<Rightarrow> bool" where
  "pl_parking PkLock = True"
| "pl_parking PkValidate = True"
| "pl_parking PkUnlockFail = True"
| "pl_parking (PkDone _) = True"
| "pl_parking PkInsert = True"
| "pl_parking p = pl_queued p"

fun pl_unparking :: "pl_pc \<Rightarrow> bool" where
  "pl_unparking UoLock = True"
| "pl_unparking UoScan = True"
| "pl_unparking (UoCallback _ _) = True"
| "pl_unparking (UoFlag _ _) = True"
| "pl_unparking (UoUnlock _ _) = True"
| "pl_unparking (UoWake _ _) = True"
| "pl_unparking (UoDone _) = True"
| "pl_unparking _ = False"

fun mk_local :: "mk_pc \<Rightarrow> bool" where
  "mk_local (hs, l) = (distinct hs \<and> (case l of
     MkPark a p \<Rightarrow> pl_parking p
   | MkUnpark a p \<Rightarrow> pl_unparking p
   | MkStore a \<Rightarrow> a \<notin> set hs
   | _ \<Rightarrow> True))"

text \<open>
  The threads on the way to the lock at \<open>a\<close>: those that will try to take it before they can be
  queued, and an unlocker that has not looked at the queue yet.
\<close>

definition mk_attends :: "mk_mem \<Rightarrow> tid \<Rightarrow> mk_pc \<Rightarrow> usize \<Rightarrow> bool" where
  "mk_attends m v l a \<longleftrightarrow> (case snd l of
     MkSpin b _ \<Rightarrow> b = a
   | MkRetry b \<Rightarrow> b = a
   | MkPark b p \<Rightarrow> b = a \<and> p \<noteq> PkInsert \<and> (a, v) \<notin> set (bk_queue m (hash_address a))
   | MkUnpark b p \<Rightarrow> b = a \<and> (p = UoLock \<or> p = UoScan)
   | _ \<Rightarrow> False)"

definition mk_waited :: "mk_mem \<Rightarrow> mk_pc list \<Rightarrow> usize \<Rightarrow> bool" where
  "mk_waited m ls a \<longleftrightarrow> (\<exists>u. (a, u) \<in> set (bk_queue m (hash_address a))) \<or>
     (\<exists>v < length ls. snd (ls ! v) = MkPark a PkInsert)"

definition mk_attended :: "mk_mem \<Rightarrow> mk_pc list \<Rightarrow> usize \<Rightarrow> bool" where
  "mk_attended m ls a \<longleftrightarrow>
     (mk_waited m ls a \<longrightarrow> mk_state m a = 1 \<or> (\<exists>v < length ls. mk_attends m v (ls ! v) a))"

definition mk_inv :: "mk_mem \<Rightarrow> mk_pc list \<Rightarrow> bool" where
  "mk_inv m ls \<longleftrightarrow> (\<forall>a. (mk_state m a = 0 \<or> mk_state m a = 1) \<and> cnt (mk_holds a) ls = of_bool (mk_state m a \<noteq> 0)) \<and>
     (\<forall>t < length ls. mk_local (ls ! t)) \<and> (\<forall>a. mk_attended m ls a)"

lemma pl_exec_kind:
  assumes "pl_exec a t m p = Some (m', p', k)"
  shows "pl_parking p \<Longrightarrow> pl_parking p'" and "pl_unparking p \<Longrightarrow> pl_unparking p'"
  using assms by (cases p; auto split: if_splits prod.splits bool.splits option.splits list.splits)+

text \<open>The lock byte counts the holders, through every step.\<close>

lemma mk_exec_byte:
  assumes ex: "mk_exec t m l = Some (m', l', k)" and loc: "mk_local l"
    and st: "mk_state m a = 0 \<or> mk_state m a = 1" and free: "\<And>b. mk_state m b = 0 \<Longrightarrow> \<not> mk_holds b l"
  shows "mk_state m' a = 0 \<or> mk_state m' a = 1"
    and "of_bool (mk_state m' a \<noteq> 0) + of_bool (mk_holds a l) =
      of_bool (mk_state m a \<noteq> 0) + (of_bool (mk_holds a l') :: nat)"
    and "mk_local l'"
proof -
  obtain hs p where l: "l = (hs, p)" by (cases l) auto
  have "(mk_state m' a = 0 \<or> mk_state m' a = 1) \<and>
    of_bool (mk_state m' a \<noteq> 0) + of_bool (mk_holds a l) =
      of_bool (mk_state m a \<noteq> 0) + (of_bool (mk_holds a l') :: nat) \<and> mk_local l'"
    using ex [unfolded l]
  proof (cases rule: mk_exec_cases)
    case (acquire b r)
    note c = mk_cas_lot [OF acquire(2)]
    then have "\<not> mk_holds b l" using free by blast
    with acquire c st loc l show ?thesis by (auto simp: mk_holds_def)
  next
    case (store b)
    with free [of b] loc st l show ?thesis by (auto simp: mk_holds_def)
  next
    case (park b q q')
    have "mk_state m' = mk_state m"
      using park(2) by (cases q) (auto simp: lock_bucket_def unlock_bucket_def Let_def
        split: if_splits prod.splits bool.splits option.splits list.splits)
    with park st loc l pl_exec_kind(1) [OF park(2)] show ?thesis by (simp add: mk_holds_def)
  next
    case (unpark b q q')
    have "mk_state m' = mk_state m"
      using unpark(2) by (cases q) (auto simp: lock_bucket_def unlock_bucket_def Let_def
        split: if_splits prod.splits bool.splits option.splits list.splits)
    with unpark st loc l pl_exec_kind(2) [OF unpark(2)] show ?thesis by (simp add: mk_holds_def)
  qed (use st loc l in \<open>auto simp: mk_holds_def mk_cas_lot mk_spin_next_def pl_validated_def pl_called_def
        split: option.splits\<close>)
  then show "mk_state m' a = 0 \<or> mk_state m' a = 1" "mk_local l'"
    "of_bool (mk_state m' a \<noteq> 0) + of_bool (mk_holds a l) =
      of_bool (mk_state m a \<noteq> 0) + (of_bool (mk_holds a l') :: nat)" by blast+
qed

section \<open>Somebody is on the way to a free lock\<close>

lemma mk_attended_locked: "mk_state m a = 1 \<Longrightarrow> mk_attended m ls a"
  by (simp add: mk_attended_def)

lemma mk_attended_by: "v < length ls \<Longrightarrow> mk_attends m v (ls ! v) a \<Longrightarrow> mk_attended m ls a"
  by (auto simp: mk_attended_def)

text \<open>A step that leaves the lock's byte and the lock's entries alone and does not lose its thread.\<close>

lemma mk_attended_frame:
  assumes A: "mk_attended m ls a" and t: "t < length ls"
    and st: "mk_state m' a = mk_state m a"
    and q: "\<And>v. (a, v) \<in> set (bk_queue m' (hash_address a)) \<longleftrightarrow> (a, v) \<in> set (bk_queue m (hash_address a))"
    and att: "mk_attends m t (ls ! t) a \<Longrightarrow> mk_attends m' t l a"
    and ins: "snd l = MkPark a PkInsert \<Longrightarrow> snd (ls ! t) = MkPark a PkInsert"
  shows "mk_attended m' (ls[t := l]) a"
  unfolding mk_attended_def
proof
  assume "mk_waited m' (ls[t := l]) a"
  then have "mk_waited m ls a"
    unfolding mk_waited_def using q ins t by (metis length_list_update nth_list_update_eq nth_list_update_neq)
  with A consider "mk_state m a = 1" | v where "v < length ls" "mk_attends m v (ls ! v) a"
    unfolding mk_attended_def by blast
  then show "mk_state m' a = 1 \<or> (\<exists>v < length (ls[t := l]). mk_attends m' v (ls[t := l] ! v) a)"
  proof cases
    case 1
    with st show ?thesis by simp
  next
    case (2 v)
    then have "mk_attends m' v (ls[t := l] ! v) a"
      using att t q by (cases "v = t") (auto simp: mk_attends_def split: mk_point.splits)
    with 2(1) show ?thesis by auto
  qed
qed

text \<open>A parker that enters the queue, having seen the lock taken, and an unlocker that looks at the queue.\<close>

lemma mk_attended_insert:
  assumes A: "mk_attended m ls a" and t: "t < length ls" "snd (ls ! t) = MkPark a PkInsert"
    and st: "mk_state m' a = mk_state m a"
    and q: "bk_queue m' (hash_address a) = bk_queue m (hash_address a) @ [(a, t)]"
  shows "mk_attended m' (ls[t := l]) a"
proof -
  have "mk_waited m ls a" using t by (auto simp: mk_waited_def)
  with A consider "mk_state m a = 1" | v where "v < length ls" "mk_attends m v (ls ! v) a"
    unfolding mk_attended_def by blast
  then show ?thesis
  proof cases
    case 1
    with st show ?thesis by (simp add: mk_attended_locked)
  next
    case (2 v)
    then have "v \<noteq> t" using t by (auto simp: mk_attends_def)
    with 2 q have "mk_attends m' v (ls[t := l] ! v) a"
      by (auto simp: mk_attends_def split: mk_point.splits)
    with 2(1) show ?thesis by (intro mk_attended_by [of v]) simp_all
  qed
qed

lemma mk_attended_scan:
  assumes I: "pl_inv m qq (map mk_view ls)" and loc: "\<forall>u < length ls. mk_local (ls ! u)"
    and t: "t < length ls" "ls ! t = (hs, MkUnpark a UoScan)"
    and m': "m' = m\<lparr>bk_queue := (bk_queue m)(hash_address a := fst (unpark_first (\<lambda>x. fst x = a) (bk_queue m (hash_address a))))\<rparr>"
    and l: "l = (hs, MkUnpark a (UoCallback target r))"
  shows "mk_attended m' (ls[t := l]) a"
proof (cases "find (\<lambda>x. fst x = a) (bk_queue m (hash_address a))")
  case None
  then have "bk_queue m' (hash_address a) = bk_queue m (hash_address a)" by (simp add: m' unpark_first_def)
  moreover have "\<forall>u. (a, u) \<notin> set (bk_queue m (hash_address a))" using None by (auto simp: find_None_iff)
  moreover have "snd (ls[t := l] ! v) \<noteq> MkPark a PkInsert" if v: "v < length ls" for v
  proof
    assume ins: "snd (ls[t := l] ! v) = MkPark a PkInsert"
    then have "v \<noteq> t" using t l by auto
    with ins have "mk_view (ls ! v) = Some (a, PkInsert)" by (cases "ls ! v") auto
    then show False using mk.bucket_exclusive [OF I v t(1), of "hash_address a"] t \<open>v \<noteq> t\<close> by simp
  qed
  ultimately show ?thesis by (auto simp: mk_attended_def mk_waited_def)
next
  case (Some x)
  then have "x \<in> set (bk_queue m (hash_address a))" "fst x = a" by (auto simp: find_Some_iff)
  moreover from this obtain u where "x = (a, u)" by (metis prod.collapse)
  ultimately have x: "x = (a, u)" "(a, u) \<in> set (bk_queue m (hash_address a))" by simp_all
  from mk.queued_thread [OF I x(2)] obtain p where u: "u < length ls" "mk_view (ls ! u) = Some (a, p)" "pl_queued p"
    by blast
  then have "u \<noteq> t" using t by auto
  have "snd (ls ! u) = MkPark a p"
  proof (cases "ls ! u" rule: mk_view.cases)
    case (2 hs' b p')
    then have "pl_unparking p'" using loc u(1) by force
    with 2 u show ?thesis by (cases p') auto
  qed (use u in auto)
  moreover have "distinct (bk_queue m (hash_address a))"
    using I pl_qinvD(1) [of "bk_queue m"] by (auto simp: pl_inv_def distinct_map)
  then have "(a, u) \<notin> set (bk_queue m' (hash_address a))"
    using Some x by (simp add: m' unpark_first_def)
  ultimately have "mk_attends m' u (ls ! u) a" using u(3) by (auto simp: mk_attends_def)
  with \<open>u \<noteq> t\<close> u(1) show ?thesis by (intro mk_attended_by [of u]) simp_all
qed

lemma mk_attends_other: "mk_view l \<noteq> None \<Longrightarrow> fst (the (mk_view l)) \<noteq> a \<Longrightarrow> \<not> mk_attends m t l a"
  by (cases l rule: mk_view.cases) (auto simp: mk_attends_def)

text \<open>The steps of the parking lot by what they do to a bucket's entries.\<close>

lemma pl_exec_entries:
  assumes "pl_exec a t m p = Some (m', p', k)" and "p \<noteq> PkInsert" "p \<noteq> UoScan" "p \<noteq> UaScan"
  shows "bk_queue m' = bk_queue m"
  using assms by (cases p) (auto simp: lock_bucket_def unlock_bucket_def Let_def
        split: if_splits prod.splits bool.splits option.splits list.splits)

lemma pl_exec_entries_other:
  assumes "pl_exec a t m p = Some (m', p', k)" and "b \<noteq> a"
  shows "(b, v) \<in> set (bk_queue m' (hash_address b)) \<longleftrightarrow> (b, v) \<in> set (bk_queue m (hash_address b))"
proof (cases "p = PkInsert \<or> p = UoScan \<or> p = UaScan")
  case True
  show ?thesis
  proof (cases "find (\<lambda>x. fst x = a) (bk_queue m (hash_address a))")
    case None
    with True assms show ?thesis by (auto simp: unpark_first_def Let_def split: if_splits)
  next
    case (Some x)
    then have "fst x = a" by (auto simp: find_Some_iff)
    with True assms Some show ?thesis
      by (cases x) (auto simp: unpark_first_def Let_def in_set_remove1 split: if_splits)
  qed
next
  case False
  with pl_exec_entries [OF assms(1)] show ?thesis by simp
qed

lemma pl_exec_state: "pl_exec a t m p = Some (m', p', k) \<Longrightarrow> mk_state m' = mk_state m"
  by (cases p) (auto simp: lock_bucket_def unlock_bucket_def Let_def
        split: if_splits prod.splits bool.splits option.splits list.splits)

lemma mk_attended_park:
  assumes A: "mk_attended m ls a" and I: "pl_inv m q (map mk_view ls)"
    and t: "t < length ls" "ls ! t = (hs, MkPark a p)" "pl_parking p"
    and ex: "pl_exec a t m p = Some (m', p', k)"
  shows "mk_attended m' (ls[t := (hs, MkPark a p')]) a"
proof (cases "p = PkInsert")
  case True
  with ex t A show ?thesis by (intro mk_attended_insert [OF A]) auto
next
  case False
  then have q: "bk_queue m' = bk_queue m" using pl_exec_entries [OF ex] t(3) by (cases p) auto
  have "p' \<noteq> PkInsert" using ex t(3) by (cases p) (auto split: if_splits prod.splits bool.splits)
  then show ?thesis
    using pl_exec_state [OF ex] q t
    by (intro mk_attended_frame [OF A t(1)]) (auto simp: mk_attends_def False)
qed

lemma mk_attended_unpark:
  assumes A: "mk_attended m ls a" and I: "pl_inv m q (map mk_view ls)" and loc: "\<forall>u < length ls. mk_local (ls ! u)"
    and t: "t < length ls" "ls ! t = (hs, MkUnpark a p)"
    and ex: "pl_exec a t m p = Some (m', p', k)"
  shows "mk_attended m' (ls[t := (hs, MkUnpark a p')]) a"
proof -
  have kind: "pl_unparking p" using loc t by force
  show ?thesis
  proof (cases "p = UoScan")
    case True
    obtain r target where p': "p' = UoCallback target r" and m': "m' = m\<lparr>bk_queue := (bk_queue m)(hash_address a :=
        fst (unpark_first (\<lambda>x. fst x = a) (bk_queue m (hash_address a))))\<rparr>"
      using ex True by (auto split: prod.splits)
    show ?thesis unfolding p' by (rule mk_attended_scan [OF I loc t(1) _ m']) (use t True in simp_all)
  next
    case False
    then have q: "bk_queue m' = bk_queue m" using pl_exec_entries [OF ex] kind by (cases p) auto
    have "p = UoLock \<Longrightarrow> p' = UoLock \<or> p' = UoScan" using ex by (auto split: prod.splits bool.splits)
    then show ?thesis
      using pl_exec_state [OF ex] q t False
      by (intro mk_attended_frame [OF A t(1)]) (auto simp: mk_attends_def)
  qed
qed

text \<open>A step at one lock attends to the others as before.\<close>

definition mk_address :: "mk_point \<Rightarrow> usize option" where
  "mk_address l = (case l of
     MkOut _ \<Rightarrow> None | MkFast a \<Rightarrow> Some a | MkTry a \<Rightarrow> Some a | MkSpin a _ \<Rightarrow> Some a | MkPark a _ \<Rightarrow> Some a
   | MkRetry a \<Rightarrow> Some a | MkStore a \<Rightarrow> Some a | MkUnpark a _ \<Rightarrow> Some a)"

lemma mk_attended_elsewhere:
  assumes A: "mk_attended m ls b" and ex: "mk_exec t m (hs, p) = Some (m', l, k)"
    and t: "t < length ls" "ls ! t = (hs, p)" and a: "mk_address p = Some a" "b \<noteq> a"
  shows "mk_attended m' (ls[t := l]) b"
proof -
  have st: "mk_state m' b = mk_state m b"
    and q: "(b, v) \<in> set (bk_queue m' (hash_address b)) \<longleftrightarrow> (b, v) \<in> set (bk_queue m (hash_address b))"
    and ins: "snd l \<noteq> MkPark b PkInsert" for v
    using ex a by (cases rule: mk_exec_cases;
        auto simp: mk_cas_lot mk_address_def pl_exec_state pl_exec_entries_other mk_spin_next_def)+
  show ?thesis
    using st q ins t a
    by (intro mk_attended_frame [OF A t(1)]) (auto simp: mk_attends_def mk_address_def split: mk_point.splits)
qed

lemma mk_attended_exec:
  assumes A: "\<forall>b. mk_attended m ls b" and I: "pl_inv m q (map mk_view ls)"
    and loc: "\<forall>u < length ls. mk_local (ls ! u)" and st: "\<forall>b. mk_state m b = 0 \<or> mk_state m b = 1"
    and t: "t < length ls" and ex: "mk_exec t m (ls ! t) = Some (m', l, k)"
  shows "mk_attended m' (ls[t := l]) b"
proof -
  obtain hs p where p: "ls ! t = (hs, p)" by (cases "ls ! t") auto
  have ex: "mk_exec t m (hs, p) = Some (m', l, k)" using ex p by simp
  then obtain a where a: "mk_address p = Some a"
    by (cases p) (auto simp: mk_exec_def mk_address_def)
  have l: "mk_local (hs, p)" using loc t p by force
  have Aa: "mk_attended m ls a" using A by blast
  note me = mk_attended_by [of t "ls[t := l]" m' a]
  have "mk_attended m' (ls[t := l]) a"
    using ex
  proof (cases rule: mk_exec_cases)
    case (acquire c r)
    with a mk_cas_lot [OF acquire(2)] show ?thesis by (auto simp: mk_address_def intro!: mk_attended_locked)
  next
    case (failed c)
    with a mk_cas_lot [OF failed(2)] st show ?thesis by (auto simp: mk_address_def intro!: mk_attended_locked)
  next
    case (try_failed c)
    with a mk_cas_lot [OF try_failed(2)] st show ?thesis by (auto simp: mk_address_def intro!: mk_attended_locked)
  next
    case (spin c i)
    with a mk_cas_lot [OF spin(2)] st show ?thesis by (auto simp: mk_address_def intro!: mk_attended_locked)
  next
    case (park c p1 p2)
    with a l p mk_attended_park [OF Aa I t, of hs p1] show ?thesis by (simp add: mk_address_def)
  next
    case (unpark c p1 p2)
    with a p mk_attended_unpark [OF Aa I loc t, of hs p1] show ?thesis by (simp add: mk_address_def)
  next
    case (validate c)
    have "(c, t) \<notin> set (bk_queue m (hash_address c))"
      using mk.queued_thread [OF I, of c t "hash_address c"] p validate t by auto
    with validate a t me show ?thesis
      by (cases "mk_state m c = MK_LOCKED")
        (auto simp: mk_address_def mk_consts pl_validated_def mk_attends_def intro!: mk_attended_locked)
  next
    case (retry c ok)
    with a t me show ?thesis by (simp add: mk_address_def mk_attends_def)
  next
    case (store c)
    with a t me show ?thesis by (simp add: mk_address_def mk_attends_def)
  next
    case (callback c target r)
    with a t p show ?thesis by (intro mk_attended_frame [OF Aa t]) (auto simp: mk_address_def mk_attends_def)
  next
    case (out c r)
    with a t p show ?thesis by (intro mk_attended_frame [OF Aa t]) (auto simp: mk_address_def mk_attends_def)
  qed
  moreover have "mk_attended m' (ls[t := l]) b" if "b \<noteq> a"
    using mk_attended_elsewhere [OF _ ex t p a that] A by blast
  ultimately show ?thesis by blast
qed

lemma mk_invariant:
  assumes reach: "mk_reachable n s"
  shows "length (pcs s) = n" and "pl_inv (shm s) (waitq s) (map mk_view (pcs s))" and "mk_inv (shm s) (pcs s)"
proof -
  have init: "mk_inv mk_mem0 (replicate n ([], MkOut None))"
    by (auto simp: mk_inv_def mk_mem0_def mk_consts cnt_simps mk_holds_def mk_attended_def mk_waited_def)
  have invoke: "mk_inv m (ls[t := l])" if I: "mk_inv m ls" and t: "length ls = n" "t < n"
    and op: "mk_start op (ls ! t) = Some l" for m ls t op l
  proof -
    obtain hs p where p: "ls ! t = (hs, p)" by (cases "ls ! t") auto
    have loc: "mk_local (hs, p)" using I t p unfolding mk_inv_def by force
    have st: "mk_start op (hs, p) = Some l" using op p by simp
    then have "mk_local l \<and> (\<forall>a. mk_holds a l = mk_holds a (hs, p)) \<and> (\<forall>a. \<not> mk_attends m t (ls ! t) a) \<and>
        (\<forall>a. snd l \<noteq> MkPark a PkInsert)"
      using loc p by (cases rule: mk_start_cases) (auto simp: mk_holds_def mk_attends_def)
    moreover from this have "cnt (mk_holds a) (ls[t := l]) = cnt (mk_holds a) ls" for a
      using t p by (intro cnt_update_same) auto
    moreover from calculation have "mk_attended m (ls[t := l]) a" for a
      using I t by (intro mk_attended_frame) (auto simp: mk_inv_def)
    ultimately show ?thesis using I t by (auto simp: mk_inv_def nth_list_update)
  qed
  have exec: "mk_inv m' (ls[t := l])" if I: "mk_inv m ls" and P: "pl_inv m q (map mk_view ls)"
    and t: "length ls = n" "t < n" and ex: "mk_exec t m (ls ! t) = Some (m', l, k)" for m q ls t m' l k
  proof -
    have loc: "\<forall>u < length ls. mk_local (ls ! u)" and byte: "\<forall>b. mk_state m b = 0 \<or> mk_state m b = 1"
      and c: "\<And>a. cnt (mk_holds a) ls = of_bool (mk_state m a \<noteq> 0)" using I by (auto simp: mk_inv_def)
    have tl: "t < length ls" using t by simp
    have free: "\<not> mk_holds b (ls ! t)" if "mk_state m b = 0" for b
      using c [of b] that tl by (simp add: cnt_0_iff)
    have loct: "mk_local (ls ! t)" using loc tl by blast
    note e = mk_exec_byte [OF ex loct _ free]
    have "cnt (mk_holds a) (ls[t := l]) = of_bool (mk_state m' a \<noteq> 0)" for a
    proof -
      have "mk_state m a = 0 \<or> mk_state m a = 1" using byte by blast
      from e(2) [OF this] cnt_update [OF tl, of "mk_holds a" l] c [of a] show ?thesis by linarith
    qed
    moreover have "mk_state m' a = 0 \<or> mk_state m' a = 1" for a using e(1) [of a] byte by blast
    moreover have "mk_local l" using e(3) byte by blast
    moreover have "mk_attended m' (ls[t := l]) a" for a
      using mk_attended_exec [OF _ P loc byte tl ex] I by (simp add: mk_inv_def)
    ultimately show ?thesis using loc tl by (auto simp: mk_inv_def nth_list_update)
  qed
  have "length (pcs s) = n \<and> pl_inv (shm s) (waitq s) (map mk_view (pcs s)) \<and> mk_inv (shm s) (pcs s)"
  proof (rule mk.system_invariant [where I = mk_inv, OF reach [unfolded mk_step_def mk_init_def] init])
    show "mk_inv m (ls[t := l])" if "mk_inv m ls" "length ls = n" "t < n" "mk_start op (ls ! t) = Some l"
      for m ls t op l using that by (rule invoke)
    show "mk_inv m' (ls[t := l])" if "mk_inv m ls" "pl_inv m q (map mk_view ls)" "length ls = n" "t < n"
      "mk_exec t m (ls ! t) = Some (m', l, k)" for m q ls t m' l k using that by (rule exec)
  qed
  then show "length (pcs s) = n" "pl_inv (shm s) (waitq s) (map mk_view (pcs s))" "mk_inv (shm s) (pcs s)"
    by blast+
qed

section \<open>The microlock as an exclusive lock\<close>

lemma node_step_one_thread:
  assumes "node_step exec start x s = Some s'"
  shows "\<exists>t. \<forall>u. u \<noteq> t \<longrightarrow> pcs s' ! u = pcs s ! u"
  using assms
proof (cases rule: node_stepE)
  case (invoke t op l)
  then show ?thesis by (intro exI [of _ t]) simp
next
  case (exec t w l k)
  then show ?thesis by (intro exI [of _ t]) simp
qed simp

lemma mk_step_one_change: "mk_step x s = Some s' \<Longrightarrow>
    \<exists>t. \<forall>u. u \<noteq> t \<longrightarrow> (a \<in> set (fst (pcs s' ! u))) = (a \<in> set (fst (pcs s ! u)))"
  unfolding mk_step_def by (drule node_step_one_thread) metis

lemma mk_holder:
  assumes reach: "mk_reachable n s" and i: "i < n" "a \<in> set (fst (pcs s ! i))"
  shows "mk_state (shm s) a = MK_LOCKED" and "j < n \<Longrightarrow> a \<in> set (fst (pcs s ! j)) \<Longrightarrow> i = j"
proof -
  have len: "length (pcs s) = n" and I: "mk_inv (shm s) (pcs s)" using mk_invariant [OF reach] by blast+
  have c: "cnt (mk_holds a) (pcs s) = of_bool (mk_state (shm s) a \<noteq> 0)"
    and st: "mk_state (shm s) a = 0 \<or> mk_state (shm s) a = 1" using I by (auto simp: mk_inv_def)
  have "0 < cnt (mk_holds a) (pcs s)" using i len by (intro cnt_pos) (auto simp: mk_holds_def)
  with c st show "mk_state (shm s) a = MK_LOCKED" by (auto simp: mk_consts)
  show "i = j" if "j < n" "a \<in> set (fst (pcs s ! j))"
    using cnt_le1_unique [of "mk_holds a" "pcs s" i j] c i that len by (simp add: mk_holds_def)
qed

interpretation mkl: exclusive_lock mk_step mk_init bnd "\<lambda>s t. a \<in> set (fst (pcs s ! t))" for bnd a
proof
  show "\<not> a \<in> set (fst (pcs (mk_init n) ! t))" if "t < n" for t n
    using that by (simp add: mk_init_def)
  show "i = j" if "mk_reachable n s" "n < bnd" "i < n" "j < n" "a \<in> set (fst (pcs s ! i))"
    "a \<in> set (fst (pcs s ! j))" for n s i j
    using mk_holder(2) [OF that(1,3,5,4,6)] .
qed (rule mk_step_one_change)

text \<open>Who is on the way to a parked thread.\<close>

lemma mk_parked_cases:
  assumes reach: "mk_reachable n s" and t: "t < n" "snd (pcs s ! t) = MkPark a p" "pl_queued p"
    and flag: "wake_flag (shm s) t = 0"
  obtains "mk_state (shm s) a = MK_LOCKED"
  | v where "v < n" "v \<noteq> t" "mk_attends (shm s) v (pcs s ! v) a"
  | v where "v < n" "t \<in> set (pl_claims (mk_view (pcs s ! v)))"
proof -
  have len: "length (pcs s) = n" and P: "pl_inv (shm s) (waitq s) (map mk_view (pcs s))"
    and I: "mk_inv (shm s) (pcs s)" using mk_invariant [OF reach] by blast+
  have view: "mk_view (pcs s ! t) = Some (a, p)" using t(2) by (cases "pcs s ! t") simp
  from mk.parked_in_queue [OF P _ view t(3) flag] t(1) len
  consider "(a, t) \<in> set (bk_queue (shm s) (hash_address a))"
    | v where "v < n" "t \<in> set (pl_claims (mk_view (pcs s ! v)))" by auto
  then show thesis
  proof cases
    case 1
    have "mk_attended (shm s) (pcs s) a" using I by (simp add: mk_inv_def)
    moreover have "mk_waited (shm s) (pcs s) a" using 1 by (auto simp: mk_waited_def)
    ultimately consider "mk_state (shm s) a = 1" | v where "v < n" "mk_attends (shm s) v (pcs s ! v) a"
      unfolding mk_attended_def len by blast
    then show thesis
    proof cases
      case (2 v)
      moreover have "v \<noteq> t" using 2(2) \<open>(a, t) \<in> _\<close> t(2) by (auto simp: mk_attends_def)
      ultimately show thesis using that(2) by blast
    qed (use that(1) in \<open>simp add: mk_consts\<close>)
  qed (rule that(3))
qed

section \<open>Properties\<close>

text \<open>Thread 0 holds the lock at address 8; thread 1 fails, spins, parks and sleeps.\<close>

definition mk_demo :: "mk_op nact list" where
  "mk_demo = [NInvoke 0 (MkLock 8), NStep 0, NInvoke 1 (MkLock 8)] @ replicate 17 (NStep 1)"

definition mk_demo_state :: "(mk_mem, mk_pc) fsys" where
  "mk_demo_state = the (run mk_step mk_demo (mk_init 2))"

lemma mk_demo_reachable: "mk_reachable 2 mk_demo_state"
proof -
  have "\<not> Option.is_none (run mk_step mk_demo (mk_init 2))" by code_simp
  then have "run mk_step mk_demo (mk_init 2) = Some mk_demo_state"
    by (simp add: mk_demo_state_def Option.is_none_def)
  then show ?thesis by (rule run_reachable)
qed

lemma mk_demo_pcs: "pcs mk_demo_state = [([8], MkOut None), ([], MkPark 8 PkAsleep)]"
  by code_simp

lemma mk_demo_flag: "wake_flag (shm mk_demo_state) (Suc 0) = 0"
  by code_simp

text \<open>
  Mutual exclusion of the microlocks: the lock at an address is never held by two threads, and
  its byte is \<open>LOCKED\<close> while it is held, whatever other locks share its bucket.
\<close>
theorem microlock_mutual_exclusion:
  assumes "mk_reachable n s" and "i < n" "a \<in> set (fst (pcs s ! i))"
    and "j < n" "a \<in> set (fst (pcs s ! j))"
  shows "i = j \<and> mk_state (shm s) a = MK_LOCKED"
  using mk_holder [OF assms(1-3)] assms(4,5) by blast

theorem microlock_mutual_exclusion_witness:
  "(0 :: nat) = 0 \<and> mk_state (shm mk_demo_state) 8 = MK_LOCKED"
  by (rule microlock_mutual_exclusion [OF mk_demo_reachable]) (simp_all add: mk_demo_pcs)

text \<open>
  The microlock at any address refines the abstract lock.
\<close>
theorem microlock_refines_lock:
  assumes "mk_reachable n s"
  shows "reachable lock_spec None (owner_of (\<lambda>t. a \<in> set (fst (pcs s ! t))) n)"
  using mkl.refines_spec [OF assms, of "Suc n"] by simp

theorem microlock_refines_lock_witness:
  "reachable lock_spec None (owner_of (\<lambda>t. 8 \<in> set (fst (pcs mk_demo_state ! t))) 2)"
  by (rule microlock_refines_lock [OF mk_demo_reachable])

text \<open>
  C7. Nobody is stranded in the parking lot: when a thread is parked at a lock and not yet flagged,
  and it does not hold the lock itself and every other thread is outside the operations, the lock is held by one of the others, whose
  unlock will look into the queue.
\<close>
theorem microlock_parked_lock_is_held:
  assumes reach: "mk_reachable n s" and t: "t < n" "snd (pcs s ! t) = MkPark a p" "pl_queued p"
    and flag: "wake_flag (shm s) t = 0"
    and self: "a \<notin> set (fst (pcs s ! t))"
    and others: "\<forall>v < n. v \<noteq> t \<longrightarrow> (\<exists>r. snd (pcs s ! v) = MkOut r)"
  shows "\<exists>v < n. v \<noteq> t \<and> a \<in> set (fst (pcs s ! v))"
proof -
  have len: "length (pcs s) = n" and I: "mk_inv (shm s) (pcs s)" using mk_invariant [OF reach] by blast+
  have view: "mk_view (pcs s ! v) = None" if v: "v < n" "v \<noteq> t" for v
  proof -
    obtain r where "snd (pcs s ! v) = MkOut r" using others v by blast
    then show ?thesis by (cases "pcs s ! v") simp
  qed
  have viewt: "mk_view (pcs s ! t) = Some (a, p)" using t(2) by (cases "pcs s ! t") simp
  from reach t flag have locked: "mk_state (shm s) a = MK_LOCKED"
  proof (cases rule: mk_parked_cases)
    case (2 v)
    with others show ?thesis by (auto simp: mk_attends_def)
  next
    case (3 v)
    then show ?thesis using view [of v] viewt t(3) by (cases "v = t"; cases p) auto
  qed
  have "cnt (mk_holds a) (pcs s) \<noteq> 0" using I locked by (simp add: mk_inv_def mk_consts)
  then obtain v where v: "v < n" "mk_holds a (pcs s ! v)" using len by (auto simp: cnt_0_iff)
  moreover have "v \<noteq> t" using v(2) t(2) self by (auto simp: mk_holds_def)
  ultimately have "a \<in> set (fst (pcs s ! v))" using others by (fastforce simp: mk_holds_def)
  with v(1) \<open>v \<noteq> t\<close> show ?thesis by blast
qed

theorem microlock_parked_lock_is_held_witness:
  "\<exists>v < 2. v \<noteq> 1 \<and> 8 \<in> set (fst (pcs mk_demo_state ! v))"
  by (rule microlock_parked_lock_is_held [where p = PkAsleep, OF mk_demo_reachable])
    (simp_all add: mk_demo_pcs mk_demo_flag less_2_cases_iff)

end
