(* ===== verification/TaggedPtr.thy ===== *)
theory TaggedPtr
  imports Mutex Parking
begin

text \<open>
  \<^verbatim>\<open>psync_tagged_ptr.h\<close>: a lock in the low bits of an aligned pointer, with the parking lot.
  Shown: the packing of pointer and flags, that the lock operations leave the pointer alone, and
  mutual exclusion as long as \<open>exchange\<close> is not used; that \<open>exchange\<close> drops the lock, that
  \<open>compare_exchange\<close> fails under a held lock, and that a wake-up can be lost between the two
  halves of the validation.
\<close>

section \<open>The word\<close>

definition LOCKED_BIT :: u64 where "LOCKED_BIT = 1"
definition WAITERS_BIT :: u64 where "WAITERS_BIT = 2"
definition MARKED_BIT :: u64 where "MARKED_BIT = 4"
definition FLAG_MASK :: u64 where "FLAG_MASK = 7"
definition POINTER_MASK :: u64 where "POINTER_MASK = NOT FLAG_MASK"

text \<open>
  The constructor and \<open>get\<close>. \<open>checked\<close> says whether \<open>PSYNC_ASSERT\<close> is compiled in (\<open>PSYNC_TEST_BUILD\<close>); where it
  is not, a misaligned pointer is stored as it is.
\<close>

definition tagged_of_ptr :: "bool \<Rightarrow> u64 \<Rightarrow> u64 option" where
  "tagged_of_ptr checked ptr = (if checked \<and> ptr AND FLAG_MASK \<noteq> 0 then None else Some ptr)"

definition tagged_get :: "u64 \<Rightarrow> u64" where
  "tagged_get w = w AND POINTER_MASK"

text \<open>The flags by their positions.\<close>

lemma tagged_bits [bit_simps]:
  "bit LOCKED_BIT n \<longleftrightarrow> n = 0" "bit WAITERS_BIT n \<longleftrightarrow> n = 1" "bit MARKED_BIT n \<longleftrightarrow> n = 2"
  "bit FLAG_MASK n \<longleftrightarrow> n < 3"
proof -
  have two: "WAITERS_BIT = push_bit 1 1" "MARKED_BIT = push_bit 2 1" "FLAG_MASK = mask 3"
    by (simp_all add: WAITERS_BIT_def MARKED_BIT_def FLAG_MASK_def mask_eq_exp_minus_1)
  show "bit LOCKED_BIT n \<longleftrightarrow> n = 0" by (simp add: LOCKED_BIT_def bit_simps)
  show "bit WAITERS_BIT n \<longleftrightarrow> n = 1" "bit MARKED_BIT n \<longleftrightarrow> n = 2" "bit FLAG_MASK n \<longleftrightarrow> n < 3"
    unfolding two bit_push_bit_iff bit_1_iff bit_mask_iff by auto
qed

lemma and_zero_iff: "w AND v = 0 \<longleftrightarrow> (\<forall>n. \<not> (bit w n \<and> bit v n))" for w v :: u64
proof
  assume "w AND v = 0"
  then have "bit (w AND v) n \<longleftrightarrow> bit (0 :: u64) n" for n by simp
  then show "\<forall>n. \<not> (bit w n \<and> bit v n)" by (simp add: bit_simps)
next
  assume "\<forall>n. \<not> (bit w n \<and> bit v n)"
  then show "w AND v = 0" by (intro bit_word_eqI) (auto simp: bit_simps)
qed

lemma and_bit_0: "w AND LOCKED_BIT = 0 \<longleftrightarrow> \<not> bit w 0" "w AND WAITERS_BIT = 0 \<longleftrightarrow> \<not> bit w 1"
  by (auto simp: and_zero_iff bit_simps intro!: gr0I)

lemma flag_mask_0: "w AND FLAG_MASK = 0 \<longleftrightarrow> (\<forall>n < 3. \<not> bit w n)"
  by (auto simp: and_zero_iff bit_simps)

text \<open>A pointer to objects of 8-byte alignment has its low three bits clear.\<close>

lemma aligned_bits: "8 dvd unat ptr \<longleftrightarrow> (\<forall>n < 3. \<not> bit ptr n)" for ptr :: u64
proof -
  have m: "FLAG_MASK = mask 3" by (simp add: FLAG_MASK_def mask_eq_exp_minus_1)
  have "8 dvd unat ptr \<longleftrightarrow> unat (ptr AND FLAG_MASK) = 0"
    unfolding m unat_and_mask by (simp add: dvd_eq_mod_eq_0)
  then show ?thesis by (simp add: unat_eq_zero flag_mask_0)
qed

text \<open>The three flags, each present or not.\<close>

definition tagged_flags :: "bool \<Rightarrow> bool \<Rightarrow> bool \<Rightarrow> u64" where
  "tagged_flags locked waiters marked = (if locked then LOCKED_BIT else 0) OR
     (if waiters then WAITERS_BIT else 0) OR (if marked then MARKED_BIT else 0)"

lemma bit_tagged_flags [bit_simps]: "bit (tagged_flags lo wa ma) n \<longleftrightarrow> lo \<and> n = 0 \<or> wa \<and> n = 1 \<or> ma \<and> n = 2"
  by (auto simp: tagged_flags_def bit_simps)

lemma flag_test: "w AND LOCKED_BIT \<noteq> 0 \<longleftrightarrow> bit w 0" "w AND WAITERS_BIT \<noteq> 0 \<longleftrightarrow> bit w 1"
  "w AND MARKED_BIT \<noteq> 0 \<longleftrightarrow> bit w 2"
  by (auto simp: and_zero_iff bit_simps)

text \<open>
  C31. Packing, on the code's constants. Every pointer to objects of 8-byte alignment, and with the
  assertions on no other, can be stored; whatever flags are then set, \<open>get\<close> returns the pointer, each test of
  a flag sees that flag and none of the others, and clearing a flag, as \<open>unlock\<close> does, leaves the pointer
  and the others alone.
\<close>
theorem tagged_roundtrip:
  "((\<exists>w. tagged_of_ptr True ptr = Some w) \<longleftrightarrow> 8 dvd unat ptr) \<and>
   (tagged_of_ptr checked ptr = Some w \<and> 8 dvd unat ptr \<longrightarrow>
     tagged_get (w OR tagged_flags lo wa ma) = ptr \<and>
     ((w OR tagged_flags lo wa ma) AND LOCKED_BIT \<noteq> 0 \<longleftrightarrow> lo) \<and>
     ((w OR tagged_flags lo wa ma) AND WAITERS_BIT \<noteq> 0 \<longleftrightarrow> wa) \<and>
     ((w OR tagged_flags lo wa ma) AND MARKED_BIT \<noteq> 0 \<longleftrightarrow> ma) \<and>
     (w OR tagged_flags lo wa ma) AND NOT LOCKED_BIT = w OR tagged_flags False wa ma \<and>
     (w OR tagged_flags lo wa ma) AND NOT WAITERS_BIT = w OR tagged_flags lo False ma)"
proof (intro conjI impI)
  show "(\<exists>w. tagged_of_ptr True ptr = Some w) \<longleftrightarrow> 8 dvd unat ptr"
    by (simp add: tagged_of_ptr_def aligned_bits flag_mask_0)
next
  assume a: "tagged_of_ptr checked ptr = Some w \<and> 8 dvd unat ptr"
  then have w: "w = ptr" by (simp add: tagged_of_ptr_def split: if_splits)
  have low: "\<not> bit ptr 0" "\<not> bit ptr 1" "\<not> bit ptr 2" using a by (simp_all add: aligned_bits)
  show "tagged_get (w OR tagged_flags lo wa ma) = ptr"
    unfolding w using a by (intro bit_word_eqI) (auto simp: tagged_get_def POINTER_MASK_def bit_simps aligned_bits)
  show "(w OR tagged_flags lo wa ma) AND NOT LOCKED_BIT = w OR tagged_flags False wa ma"
    unfolding w using low by (intro bit_word_eqI) (auto simp: bit_simps intro!: gr0I)
  show "(w OR tagged_flags lo wa ma) AND NOT WAITERS_BIT = w OR tagged_flags lo False ma"
    unfolding w using low by (intro bit_word_eqI) (auto simp: bit_simps)
  show "(w OR tagged_flags lo wa ma) AND LOCKED_BIT \<noteq> 0 \<longleftrightarrow> lo" "(w OR tagged_flags lo wa ma) AND WAITERS_BIT \<noteq> 0 \<longleftrightarrow> wa"
    "(w OR tagged_flags lo wa ma) AND MARKED_BIT \<noteq> 0 \<longleftrightarrow> ma"
    using low by (simp_all add: flag_test bit_simps w)
qed

theorem tagged_roundtrip_witness:
  "tagged_of_ptr True 0x7f0000001238 = Some 0x7f0000001238 \<and>
   tagged_get (0x7f0000001238 OR tagged_flags True False True) = 0x7f0000001238 \<and>
   (0x7f0000001238 OR tagged_flags True False True) AND WAITERS_BIT = 0 \<and>
   (0x7f0000001238 OR tagged_flags True False True) AND NOT LOCKED_BIT = 0x7f0000001238 OR tagged_flags False False True"
proof -
  have w: "tagged_of_ptr True 0x7f0000001238 = Some 0x7f0000001238"
    by (simp add: tagged_of_ptr_def FLAG_MASK_def)
  moreover have "8 dvd unat (0x7f0000001238 :: u64)" by simp
  ultimately show ?thesis
    using tagged_roundtrip [of "0x7f0000001238" True "0x7f0000001238" True False True] by blast
qed

section \<open>The operations\<close>

record tp_mem = pl_mem +
  tp_word :: "usize \<Rightarrow> u64"

datatype tp_result = TpNothing | TpBool bool | TpPtr u64

text \<open>
  The points of a thread that works on the tagged pointer at an address; the loads of a
  compare-and-swap loop carry the value they found.
\<close>

datatype tp_point =
    TpOut tp_result
  | TpGet usize
  | TpLoad usize
  | TpCas usize u64
  | TpTryLoad usize
  | TpTryCas usize u64
  | TpSpin usize nat
  | TpSpinCas usize nat u64
  | TpWaitLoad usize
  | TpWaitCas usize u64
  | TpPark usize pl_pc
  | TpValidOr usize
  | TpUnlockLoad usize
  | TpUnlockCas usize u64
  | TpUnpark usize pl_pc
  | TpExchange usize u64
  | TpCompare usize u64 u64

text \<open>A thread also carries the addresses of the tagged pointers it has locked.\<close>

type_synonym tp_pc = "usize list \<times> tp_point"

datatype tp_op =
    TpGetOp usize | TpLockOp usize | TpTryLockOp usize | TpUnlockOp usize
  | TpExchangeOp usize u64 | TpCompareOp usize u64 u64

text \<open>
  The assertions on the arguments are the guards of the exchanging operations. \<open>allow\<close> says
  whether \<open>exchange\<close> is used at all.
\<close>

fun tp_start :: "bool \<Rightarrow> tp_op \<Rightarrow> tp_pc \<Rightarrow> tp_pc option" where
  "tp_start allow op (hs, l) = (case l of
     TpOut _ \<Rightarrow>
       (case op of
          TpGetOp a \<Rightarrow> Some (hs, TpGet a)
        | TpLockOp a \<Rightarrow> Some (hs, TpLoad a)
        | TpTryLockOp a \<Rightarrow> Some (hs, TpTryLoad a)
        | TpUnlockOp a \<Rightarrow> if a \<in> set hs then Some (remove1 a hs, TpUnlockLoad a) else None
        | TpExchangeOp a new_ptr \<Rightarrow>
            if allow \<and> new_ptr AND FLAG_MASK = 0 then Some (hs, TpExchange a new_ptr) else None
        | TpCompareOp a expected desired \<Rightarrow>
            if expected AND FLAG_MASK = 0 \<and> desired AND FLAG_MASK = 0
            then Some (hs, TpCompare a expected desired) else None)
   | _ \<Rightarrow> None)"

definition tp_cas :: "usize \<Rightarrow> u64 \<Rightarrow> u64 \<Rightarrow> tp_mem \<Rightarrow> bool \<times> tp_mem" where
  "tp_cas a expected new_state m =
     (let (ok, c, _) = atomic_compare_exchange (tp_word m a) expected new_state MO_acquire MO_relaxed
      in (ok, m\<lparr>tp_word := (tp_word m)(a := c)\<rparr>))"

definition tp_spin_next :: "usize \<Rightarrow> nat \<Rightarrow> tp_point" where
  "tp_spin_next a i = (if Suc i < SPIN_INITIAL then TpSpin a (Suc i) else TpWaitLoad a)"

definition tp_taken :: "usize list \<Rightarrow> usize \<Rightarrow> tp_result \<Rightarrow> tp_pc" where
  "tp_taken hs a r = (a # hs, TpOut r)"

text \<open>The first half of the validation under the bucket lock, and the callback of \<open>unpark_one\<close>.\<close>

definition tp_validate :: "usize \<Rightarrow> u64 \<Rightarrow> tp_point" where
  "tp_validate a cur =
     (if cur AND LOCKED_BIT = 0 then TpPark a (pl_validated False)
      else if cur AND WAITERS_BIT = 0 then TpValidOr a
      else TpPark a (pl_validated True))"

definition tp_callback :: "usize \<Rightarrow> UnparkResult \<Rightarrow> tp_mem \<Rightarrow> tp_mem" where
  "tp_callback a r m =
     (if r \<noteq> HasMoreWaiters
      then m\<lparr>tp_word := (tp_word m)(a := snd (atomic_fetch_and (tp_word m a) (NOT WAITERS_BIT) MO_relaxed))\<rparr>
      else m)"

fun tp_exec_point :: "tid \<Rightarrow> tp_mem \<Rightarrow> usize list \<Rightarrow> tp_point \<Rightarrow> (tp_mem \<times> tp_pc \<times> neff) option" where
  "tp_exec_point t m hs (TpOut r) = None"
| "tp_exec_point t m hs (TpGet a) =
     Some (m, (hs, TpOut (TpPtr (tagged_get (atomic_load (tp_word m a) MO_acquire)))), NNone)"
| "tp_exec_point t m hs (TpLoad a) =
     (let cur = atomic_load (tp_word m a) MO_relaxed
      in Some (m, (hs, if cur AND LOCKED_BIT \<noteq> 0 then TpSpin a 0 else TpCas a cur), NNone))"
| "tp_exec_point t m hs (TpCas a cur) =
     (case tp_cas a cur (cur OR LOCKED_BIT) m of
        (True, m') \<Rightarrow> Some (m', tp_taken hs a TpNothing, NNone)
      | (False, m') \<Rightarrow> Some (m', (hs, TpLoad a), NNone))"
| "tp_exec_point t m hs (TpTryLoad a) =
     (let cur = atomic_load (tp_word m a) MO_relaxed
      in Some (m, (hs, if cur AND LOCKED_BIT \<noteq> 0 then TpOut (TpBool False) else TpTryCas a cur), NNone))"
| "tp_exec_point t m hs (TpTryCas a cur) =
     (case tp_cas a cur (cur OR LOCKED_BIT) m of
        (True, m') \<Rightarrow> Some (m', tp_taken hs a (TpBool True), NNone)
      | (False, m') \<Rightarrow> Some (m', (hs, TpOut (TpBool False)), NNone))"
| "tp_exec_point t m hs (TpSpin a i) =
     (let cur = atomic_load (tp_word m a) MO_relaxed
      in Some (m, (hs, if cur AND LOCKED_BIT = 0 then TpSpinCas a i cur else tp_spin_next a i), NNone))"
| "tp_exec_point t m hs (TpSpinCas a i cur) =
     (case tp_cas a cur (cur OR LOCKED_BIT) m of
        (True, m') \<Rightarrow> Some (m', tp_taken hs a TpNothing, NNone)
      | (False, m') \<Rightarrow> Some (m', (hs, tp_spin_next a i), NNone))"
| "tp_exec_point t m hs (TpWaitLoad a) =
     (let cur = atomic_load (tp_word m a) MO_relaxed
      in Some (m, (hs, if cur AND LOCKED_BIT = 0 then TpWaitCas a cur else TpPark a PkLock), NNone))"
| "tp_exec_point t m hs (TpWaitCas a cur) =
     (case tp_cas a cur (cur OR LOCKED_BIT) m of
        (True, m') \<Rightarrow> Some (m', tp_taken hs a TpNothing, NNone)
      | (False, m') \<Rightarrow> Some (m', (hs, TpWaitLoad a), NNone))"
| "tp_exec_point t m hs (TpPark a p) =
     (if p = PkValidate then Some (m, (hs, tp_validate a (atomic_load (tp_word m a) MO_relaxed)), NNone)
      else if p = PkDone True \<or> p = PkDone False then Some (m, (hs, TpSpin a 0), NNone)
      else (case pl_exec a t m p of
        None \<Rightarrow> None
      | Some (m', p', k) \<Rightarrow> Some (m', (hs, TpPark a p'), k)))"
| "tp_exec_point t m hs (TpValidOr a) =
     Some (m\<lparr>tp_word := (tp_word m)(a := snd (atomic_fetch_or (tp_word m a) WAITERS_BIT MO_relaxed))\<rparr>,
           (hs, TpPark a (pl_validated True)), NNone)"
| "tp_exec_point t m hs (TpUnlockLoad a) =
     Some (m, (hs, TpUnlockCas a (atomic_load (tp_word m a) MO_relaxed)), NNone)"
| "tp_exec_point t m hs (TpUnlockCas a cur) =
     (case tp_cas a cur (cur AND NOT LOCKED_BIT) m of
        (True, m') \<Rightarrow> Some (m', (hs, if cur AND WAITERS_BIT \<noteq> 0 then TpUnpark a UoLock else TpOut TpNothing), NNone)
      | (False, m') \<Rightarrow> Some (m', (hs, TpUnlockLoad a), NNone))"
| "tp_exec_point t m hs (TpUnpark a p) = (case p of
     UoCallback target r \<Rightarrow> Some (tp_callback a r m, (hs, TpUnpark a (pl_called target r)), NNone)
   | UoDone r \<Rightarrow> Some (m, (hs, TpOut TpNothing), NNone)
   | _ \<Rightarrow> (case pl_exec a t m p of
       None \<Rightarrow> None
     | Some (m', p', k) \<Rightarrow> Some (m', (hs, TpUnpark a p'), k)))"
| "tp_exec_point t m hs (TpExchange a new_tagged) =
     (let (old_tagged, w) = atomic_exchange (tp_word m a) new_tagged MO_acq_rel
      in Some (m\<lparr>tp_word := (tp_word m)(a := w)\<rparr>, (hs, TpOut (TpPtr (old_tagged AND POINTER_MASK))), NNone))"
| "tp_exec_point t m hs (TpCompare a expected desired) =
     (case tp_cas a expected desired m of (ok, m') \<Rightarrow> Some (m', (hs, TpOut (TpBool ok)), NNone))"

definition tp_exec :: "tid \<Rightarrow> tp_mem \<Rightarrow> tp_pc \<Rightarrow> (tp_mem \<times> tp_pc \<times> neff) option" where
  "tp_exec t m l = tp_exec_point t m (fst l) (snd l)"

definition tp_step :: "bool \<Rightarrow> tp_op nact \<Rightarrow> (tp_mem, tp_pc) fsys \<Rightarrow> (tp_mem, tp_pc) fsys option" where
  "tp_step allow = node_step tp_exec (tp_start allow)"

definition tp_mem0 :: "(usize \<Rightarrow> u64) \<Rightarrow> tp_mem" where
  "tp_mem0 ptrs = \<lparr>bk_lock = \<lambda>_. 0, bk_queue = \<lambda>_. [], wake_flag = \<lambda>_. 0, tp_word = ptrs\<rparr>"

definition tp_init :: "(usize \<Rightarrow> u64) \<Rightarrow> nat \<Rightarrow> (tp_mem, tp_pc) fsys" where
  "tp_init ptrs n = sys_init (tp_mem0 ptrs) ([], TpOut TpNothing) n"

abbreviation tp_reachable :: "bool \<Rightarrow> (usize \<Rightarrow> u64) \<Rightarrow> nat \<Rightarrow> (tp_mem, tp_pc) fsys \<Rightarrow> bool" where
  "tp_reachable allow ptrs n \<equiv> reachable (tp_step allow) (tp_init ptrs n)"

fun tp_view :: "tp_pc \<Rightarrow> pl_view" where
  "tp_view (hs, TpPark a p) = Some (a, p)"
| "tp_view (hs, TpValidOr a) = Some (a, PkValidate)"
| "tp_view (hs, TpUnpark a p) = Some (a, p)"
| "tp_view _ = None"

lemma tp_cas_lot:
  assumes "tp_cas a expected new_state m = (ok, m')"
  shows "bk_lock m' = bk_lock m" "bk_queue m' = bk_queue m" "wake_flag m' = wake_flag m"
    "tp_word m' = (tp_word m)(a := if ok then new_state else tp_word m a)" "ok \<longleftrightarrow> tp_word m a = expected"
  using assms by (auto simp: tp_cas_def Let_def atomic_compare_exchange_def split: if_splits)

lemma tp_callback_lot [simp]:
  "bk_lock (tp_callback a r m) = bk_lock m" "bk_queue (tp_callback a r m) = bk_queue m"
  "wake_flag (tp_callback a r m) = wake_flag m"
  "tp_word (tp_callback a r m) =
     (if r \<noteq> HasMoreWaiters then (tp_word m)(a := tp_word m a AND NOT WAITERS_BIT) else tp_word m)"
  by (simp_all add: tp_callback_def)

lemma tp_cas_False: "tp_cas a expected new_state m = (False, m') \<longleftrightarrow> m' = m \<and> tp_word m a \<noteq> expected"
  by (auto simp: tp_cas_def Let_def atomic_compare_exchange_def split: if_splits)

lemma tp_cas_True: "tp_cas a expected new_state m = (True, m') \<longleftrightarrow>
    tp_word m a = expected \<and> m' = m\<lparr>tp_word := (tp_word m)(a := new_state)\<rparr>"
  by (auto simp: tp_cas_def Let_def atomic_compare_exchange_def split: if_splits)

text \<open>The compare-and-swap points that take a lock, and the points of \<open>unlock\<close> that still hold it.\<close>

fun tp_taking :: "tp_point \<Rightarrow> (usize \<times> u64) option" where
  "tp_taking (TpCas a cur) = Some (a, cur)"
| "tp_taking (TpTryCas a cur) = Some (a, cur)"
| "tp_taking (TpSpinCas a i cur) = Some (a, cur)"
| "tp_taking (TpWaitCas a cur) = Some (a, cur)"
| "tp_taking _ = None"

fun tp_unlocking :: "tp_point \<Rightarrow> usize option" where
  "tp_unlocking (TpUnlockLoad a) = Some a"
| "tp_unlocking (TpUnlockCas a _) = Some a"
| "tp_unlocking _ = None"

text \<open>
  What a step may leave a thread at without having changed the memory: \<open>quiet\<close> steps move between
  the client's own points.
\<close>

definition tp_quiet :: "tp_point \<Rightarrow> tp_point \<Rightarrow> bool" where
  "tp_quiet l q \<longleftrightarrow> tp_view ([], l) = None \<and> tp_view ([], q) = None \<and> tp_unlocking q = tp_unlocking l \<and>
     (\<forall>a cur. tp_taking q = Some (a, cur) \<longrightarrow> cur AND LOCKED_BIT = 0) \<and>
     (\<forall>a x. q \<noteq> TpExchange a x) \<and> (\<forall>a x y. q \<noteq> TpCompare a x y)"

lemma tp_view_held: "tp_view (hs, l) = tp_view ([], l)"
  by (cases l) simp_all

lemma tp_exec_taking:
  assumes "tp_exec t m (hs, l) = Some (m', l', k)" and "tp_taking l = Some (a, cur)"
  shows "k = NNone \<and> ((tp_word m a = cur \<and> m' = m\<lparr>tp_word := (tp_word m)(a := cur OR LOCKED_BIT)\<rparr> \<and>
      (\<exists>r. l' = (a # hs, TpOut r))) \<or> (m' = m \<and> (\<exists>q. tp_quiet l q \<and> l' = (hs, q))))"
  using assms unfolding tp_exec_def
  by (cases l) (auto simp: tp_cas_True tp_cas_False tp_quiet_def tp_taken_def tp_spin_next_def
      split: prod.splits bool.splits)

lemma tp_exec_own:
  assumes "tp_exec t m (hs, l) = Some (m', l', k)"
    and "l \<in> {TpGet a, TpLoad a, TpTryLoad a, TpSpin a i, TpUnlockLoad a}"
  shows "k = NNone \<and> m' = m \<and> (\<exists>q. tp_quiet l q \<and> l' = (hs, q))"
  using assms unfolding tp_exec_def
  by (auto simp: Let_def tp_quiet_def tp_spin_next_def)

lemma tp_exec_cases [consumes 1,
    case_names quiet take enter park return validate valid_or unlock unpark callback exchange compare]:
  assumes "tp_exec t m (hs, l) = Some (m', l', k)"
  obtains (quiet) q where "tp_quiet l q" "m' = m" "l' = (hs, q)" "k = NNone"
  | (take) a cur r where "tp_taking l = Some (a, cur)" "tp_word m a = cur"
      "m' = m\<lparr>tp_word := (tp_word m)(a := cur OR LOCKED_BIT)\<rparr>" "l' = (a # hs, TpOut r)" "k = NNone"
  | (enter) a where "l = TpWaitLoad a" "m' = m" "l' = (hs, TpPark a PkLock)" "k = NNone"
  | (park) a p p' where "l = TpPark a p" "pl_exec a t m p = Some (m', p', k)" "l' = (hs, TpPark a p')"
  | (return) a p q where "l = TpPark a p \<or> l = TpUnpark a p" "pl_resting (Some (a, p))" "m' = m" "l' = (hs, q)"
      "k = NNone" "q = TpSpin a 0 \<or> q = TpOut TpNothing"
  | (validate) a where "l = TpPark a PkValidate" "m' = m" "l' = (hs, tp_validate a (tp_word m a))" "k = NNone"
  | (valid_or) a where "l = TpValidOr a" "m' = m\<lparr>tp_word := (tp_word m)(a := tp_word m a OR WAITERS_BIT)\<rparr>"
      "l' = (hs, TpPark a PkInsert)" "k = NNone"
  | (unlock) a cur where "l = TpUnlockCas a cur" "tp_word m a = cur"
      "m' = m\<lparr>tp_word := (tp_word m)(a := cur AND NOT LOCKED_BIT)\<rparr>"
      "l' = (hs, if cur AND WAITERS_BIT \<noteq> 0 then TpUnpark a UoLock else TpOut TpNothing)" "k = NNone"
  | (unpark) a p p' where "l = TpUnpark a p" "pl_exec a t m p = Some (m', p', k)" "l' = (hs, TpUnpark a p')"
  | (callback) a target r where "l = TpUnpark a (UoCallback target r)" "m' = tp_callback a r m"
      "l' = (hs, TpUnpark a (pl_called target r))" "k = NNone"
  | (exchange) a new_tagged where "l = TpExchange a new_tagged" "m' = m\<lparr>tp_word := (tp_word m)(a := new_tagged)\<rparr>"
      "l' = (hs, TpOut (TpPtr (tp_word m a AND POINTER_MASK)))" "k = NNone"
  | (compare) a expected desired ok where "l = TpCompare a expected desired" "tp_cas a expected desired m = (ok, m')"
      "l' = (hs, TpOut (TpBool ok))" "k = NNone"
proof (cases "tp_taking l")
  case (Some x)
  then obtain a cur where "tp_taking l = Some (a, cur)" by (cases x) auto
  with tp_exec_taking [OF assms this] show thesis using quiet take by blast
next
  case None
  show thesis
  proof (cases l)
    case (TpGet a)
    then have "k = NNone \<and> m' = m \<and> (\<exists>q. tp_quiet l q \<and> l' = (hs, q))"
      by (intro tp_exec_own [OF assms, of a 0]) simp
    then show thesis using quiet by blast
  next
    case (TpLoad a)
    then have "k = NNone \<and> m' = m \<and> (\<exists>q. tp_quiet l q \<and> l' = (hs, q))"
      by (intro tp_exec_own [OF assms, of a 0]) simp
    then show thesis using quiet by blast
  next
    case (TpTryLoad a)
    then have "k = NNone \<and> m' = m \<and> (\<exists>q. tp_quiet l q \<and> l' = (hs, q))"
      by (intro tp_exec_own [OF assms, of a 0]) simp
    then show thesis using quiet by blast
  next
    case (TpSpin a i)
    then have "k = NNone \<and> m' = m \<and> (\<exists>q. tp_quiet l q \<and> l' = (hs, q))"
      by (intro tp_exec_own [OF assms, of a i]) simp
    then show thesis using quiet by blast
  next
    case (TpUnlockLoad a)
    then have "k = NNone \<and> m' = m \<and> (\<exists>q. tp_quiet l q \<and> l' = (hs, q))"
      by (intro tp_exec_own [OF assms, of a 0]) simp
    then show thesis using quiet by blast
  next
    case (TpWaitLoad a)
    then have "m' = m \<and> k = NNone \<and> (l' = (hs, TpPark a PkLock) \<or> (\<exists>q. tp_quiet l q \<and> l' = (hs, q)))"
      using assms by (auto simp: tp_exec_def Let_def tp_quiet_def)
    with TpWaitLoad show thesis using quiet enter by blast
  next
    case (TpPark a p)
    consider "p = PkValidate" | ok where "p = PkDone ok" | "p \<noteq> PkValidate" "\<forall>ok. p \<noteq> PkDone ok" by blast
    then show thesis
    proof cases
      case 1
      with TpPark assms have "m' = m" "l' = (hs, tp_validate a (tp_word m a))" "k = NNone"
        by (auto simp: tp_exec_def)
      with 1 TpPark show thesis by (intro validate [of a]) simp_all
    next
      case (2 ok)
      with assms TpPark have "l' = (hs, TpSpin a 0)" "m' = m" "k = NNone" by (cases ok; simp add: tp_exec_def)+
      with 2 TpPark show thesis by (intro return [of a p "TpSpin a 0"]) simp_all
    next
      case 3
      with assms TpPark obtain p' where "pl_exec a t m p = Some (m', p', k)" "l' = (hs, TpPark a p')"
        by (auto simp: tp_exec_def split: option.splits)
      with TpPark show thesis by (rule park)
    qed
  next
    case (TpUnpark a p)
    consider target r where "p = UoCallback target r" | r where "p = UoDone r"
      | "\<forall>target r. p \<noteq> UoCallback target r" "\<forall>r. p \<noteq> UoDone r" by blast
    then show thesis
    proof cases
      case (1 target r)
      with TpUnpark assms show thesis by (intro callback [of a target r]) (simp_all add: tp_exec_def)
    next
      case (2 r)
      with assms TpUnpark have "l' = (hs, TpOut TpNothing)" "m' = m" "k = NNone" by (simp_all add: tp_exec_def)
      with 2 TpUnpark show thesis by (intro return [of a p "TpOut TpNothing"]) simp_all
    next
      case 3
      with assms TpUnpark obtain p' where "pl_exec a t m p = Some (m', p', k)" "l' = (hs, TpUnpark a p')"
        by (cases p) (auto simp: tp_exec_def split: option.splits)
      with TpUnpark show thesis by (rule unpark)
    qed
  next
    case (TpUnlockCas a cur)
    show thesis
    proof (cases "tp_word m a = cur")
      case True
      then have "tp_cas a cur (cur AND NOT LOCKED_BIT) m = (True, m\<lparr>tp_word := (tp_word m)(a := cur AND NOT LOCKED_BIT)\<rparr>)"
        by (simp add: tp_cas_True)
      with TpUnlockCas True assms show thesis by (intro unlock [of a cur]) (auto simp: tp_exec_def)
    next
      case False
      then have "tp_cas a cur (cur AND NOT LOCKED_BIT) m = (False, m)" by (simp add: tp_cas_False)
      with TpUnlockCas assms show thesis by (intro quiet [of "TpUnlockLoad a"]) (auto simp: tp_exec_def tp_quiet_def)
    qed
  next
    case (TpValidOr a)
    with assms show thesis by (intro valid_or [of a]) (simp_all add: tp_exec_def pl_validated_def)
  next
    case (TpExchange a new_tagged)
    with assms show thesis by (intro exchange [of a new_tagged]) (simp_all add: tp_exec_def)
  next
    case (TpCompare a expected desired)
    obtain ok m1 where c: "tp_cas a expected desired m = (ok, m1)" by (cases "tp_cas a expected desired m") auto
    with assms TpCompare show thesis by (intro compare [of a expected desired ok]) (simp_all add: tp_exec_def)
  next
    case (TpOut r)
    with assms show thesis by (simp add: tp_exec_def)
  qed (use None in simp_all)
qed

lemma tp_start_cases:
  assumes "tp_start allow op (hs, l) = Some l'"
  obtains r q where "l = TpOut r" "l' = (hs, q)" "tp_view ([], q) = None" "tp_unlocking q = None" "tp_taking q = None"
      "\<And>a x. q = TpExchange a x \<Longrightarrow> allow \<and> x AND FLAG_MASK = 0"
      "\<And>a x y. q = TpCompare a x y \<Longrightarrow> x AND FLAG_MASK = 0 \<and> y AND FLAG_MASK = 0"
  | r a where "l = TpOut r" "a \<in> set hs" "l' = (remove1 a hs, TpUnlockLoad a)"
proof (cases l)
  case (TpOut r)
  show thesis
  proof (cases op)
    case (TpGetOp a)
    with TpOut assms show thesis by (intro that(1) [of r "TpGet a"]) simp_all
  next
    case (TpLockOp a)
    with TpOut assms show thesis by (intro that(1) [of r "TpLoad a"]) simp_all
  next
    case (TpTryLockOp a)
    with TpOut assms show thesis by (intro that(1) [of r "TpTryLoad a"]) simp_all
  next
    case (TpUnlockOp a)
    with TpOut assms show thesis by (intro that(2) [of r a]) (simp_all split: if_splits)
  next
    case (TpExchangeOp a x)
    with TpOut assms show thesis by (intro that(1) [of r "TpExchange a x"]) (simp_all split: if_splits)
  next
    case (TpCompareOp a x y)
    with TpOut assms show thesis by (intro that(1) [of r "TpCompare a x y"]) (simp_all split: if_splits)
  qed
qed (use assms in simp_all)

interpretation tp: parking_client tp_exec "tp_start allow" tp_view "tp_mem0 ptrs" "([], TpOut TpNothing)" for allow ptrs
proof
  fix t m l m' l' k assume ex: "tp_exec t m l = Some (m', l', k)"
  obtain hs p where l: "l = (hs, p)" by (cases l) auto
  let ?lot = "\<exists>a p p'. tp_view l = Some (a, p) \<and> pl_exec a t m p = Some (m', p', k) \<and> tp_view l' = Some (a, p')"
  let ?own = "pl_client_move (tp_view l) (tp_view l') \<and> k = NNone \<and> bk_lock m' = bk_lock m \<and>
    bk_queue m' = bk_queue m \<and> wake_flag m' = wake_flag m"
  from ex [unfolded l] show "?lot \<or> ?own"
  proof (cases rule: tp_exec_cases)
    case (quiet q)
    then show ?thesis by (simp add: l tp_quiet_def pl_client_move_def tp_view_held [of hs])
  next
    case (take a cur r)
    have "tp_view (hs, p) = None" using take(1) by (cases p) simp_all
    with take show ?thesis by (simp add: l pl_client_move_def)
  next
    case (validate a)
    then show ?thesis by (auto simp: l tp_validate_def pl_client_move_def)
  next
    case (valid_or a)
    then have "pl_client_move (tp_view l) (tp_view l')"
      by (auto simp: l pl_client_move_def pl_validated_def intro: exI [of _ True])
    with valid_or show ?thesis by simp
  next
    case (unlock a cur)
    then show ?thesis by (simp add: l pl_client_move_def)
  next
    case (callback a target r)
    then show ?thesis by (auto simp: l pl_client_move_def)
  next
    case (compare a expected desired ok)
    with tp_cas_lot [OF compare(2)] show ?thesis by (simp add: l pl_client_move_def)
  qed (auto simp: l pl_client_move_def)
next
  fix op l l' assume st: "tp_start allow op l = Some l'"
  obtain hs p where l: "l = (hs, p)" by (cases l) auto
  from st [unfolded l] show "pl_client_move (tp_view l) (tp_view l')"
    by (cases rule: tp_start_cases) (auto simp: l pl_client_move_def tp_view_held [of hs])
qed (simp_all add: tp_mem0_def)

section \<open>The pointer under the lock operations\<close>

lemma tp_bit_ops [bit_simps]:
  "bit (w OR LOCKED_BIT) n \<longleftrightarrow> bit w n \<or> n = 0" "bit (w AND NOT LOCKED_BIT) n \<longleftrightarrow> bit w n \<and> n \<noteq> 0"
  "bit (w OR WAITERS_BIT) n \<longleftrightarrow> bit w n \<or> n = 1" "bit (w AND NOT WAITERS_BIT) n \<longleftrightarrow> bit w n \<and> n \<noteq> 1"
  by (auto simp: bit_simps dest: bit_imp_le_length)

definition tp_same_pointer :: "u64 \<Rightarrow> u64 \<Rightarrow> bool" where
  "tp_same_pointer w w' \<longleftrightarrow> (\<forall>n. 2 \<le> n \<longrightarrow> bit w' n = bit w n)"

lemma tp_same_pointer_get: "tp_same_pointer w w' \<Longrightarrow>
    tagged_get w' = tagged_get w \<and> w' AND MARKED_BIT = w AND MARKED_BIT"
  by (intro conjI bit_word_eqI) (auto simp: tp_same_pointer_def tagged_get_def POINTER_MASK_def bit_simps)

lemma pl_exec_word: "pl_exec a t m p = Some (m', p', k) \<Longrightarrow> tp_word m' = tp_word m"
  by (cases p) (auto simp: lock_bucket_def unlock_bucket_def Let_def
        split: if_splits prod.splits bool.splits option.splits list.splits)

lemma tp_exec_pointer:
  assumes "tp_exec t m (hs, l) = Some (m', l', k)"
    and "\<And>a x. l \<noteq> TpExchange a x" "\<And>a x y. l \<noteq> TpCompare a x y"
  shows "tp_same_pointer (tp_word m b) (tp_word m' b)"
  using assms(1)
  by (cases rule: tp_exec_cases)
    (use assms(2,3) in \<open>auto simp: tp_same_pointer_def pl_exec_word bit_simps dest: bit_imp_le_length\<close>)

section \<open>The invariant\<close>

definition tp_holds :: "usize \<Rightarrow> tp_pc \<Rightarrow> bool" where
  "tp_holds a l \<longleftrightarrow> a \<in> set (fst l) \<or> tp_unlocking (snd l) = Some a"

text \<open>What is known at a point, in any use, and in a use without \<open>exchange\<close>.\<close>

definition tp_local :: "bool \<Rightarrow> tp_pc \<Rightarrow> bool" where
  "tp_local allow l \<longleftrightarrow>
     (\<forall>a cur. tp_taking (snd l) = Some (a, cur) \<longrightarrow> cur AND LOCKED_BIT = 0) \<and>
     (\<forall>a x. snd l = TpExchange a x \<longrightarrow> allow \<and> x AND FLAG_MASK = 0) \<and>
     (\<forall>a x y. snd l = TpCompare a x y \<longrightarrow> x AND FLAG_MASK = 0 \<and> y AND FLAG_MASK = 0) \<and>
     (\<not> allow \<longrightarrow> distinct (fst l) \<and> (\<forall>a. tp_unlocking (snd l) = Some a \<longrightarrow> a \<notin> set (fst l)))"

definition tp_inv :: "bool \<Rightarrow> tp_mem \<Rightarrow> tp_pc list \<Rightarrow> bool" where
  "tp_inv allow m ls \<longleftrightarrow> (\<forall>t < length ls. tp_local allow (ls ! t)) \<and>
     (\<not> allow \<longrightarrow> (\<forall>a. cnt (tp_holds a) ls = of_bool (bit (tp_word m a) 0)))"

text \<open>The lock bit counts the holders.\<close>

lemma tp_exec_lock:
  assumes ex: "tp_exec t m l = Some (m', l', k)" and loc: "tp_local allow l"
    and free: "\<not> allow \<Longrightarrow> (\<And>b. \<not> bit (tp_word m b) 0 \<Longrightarrow> \<not> tp_holds b l)"
  shows "tp_local allow l'"
    and "\<not> allow \<Longrightarrow> of_bool (bit (tp_word m' a) 0) + of_bool (tp_holds a l) =
      of_bool (bit (tp_word m a) 0) + (of_bool (tp_holds a l') :: nat)"
proof -
  obtain hs p where l: "l = (hs, p)" by (cases l) auto
  have "tp_local allow l' \<and> (\<not> allow \<longrightarrow> of_bool (bit (tp_word m' a) 0) + of_bool (tp_holds a l) =
      of_bool (bit (tp_word m a) 0) + (of_bool (tp_holds a l') :: nat))"
    using ex [unfolded l]
  proof (cases rule: tp_exec_cases)
    case (quiet q)
    with loc l show ?thesis by (auto simp: tp_local_def tp_quiet_def tp_holds_def)
  next
    case (take b cur r)
    then have "\<not> bit (tp_word m b) 0" using loc l by (auto simp: tp_local_def and_bit_0)
    moreover from this have "\<not> allow \<Longrightarrow> \<not> tp_holds b l" using free by blast
    moreover have "tp_unlocking p = None" using take(1) by (cases p) simp_all
    ultimately show ?thesis using take loc l by (auto simp: tp_local_def tp_holds_def bit_simps)
  next
    case (unlock b cur)
    then have "\<not> allow \<Longrightarrow> bit (tp_word m b) 0" using free l by (auto simp: tp_holds_def)
    with unlock loc l show ?thesis by (auto simp: tp_local_def tp_holds_def bit_simps)
  next
    case (park b q q')
    with loc l show ?thesis by (auto simp: tp_local_def tp_holds_def pl_exec_word)
  next
    case (unpark b q q')
    with loc l show ?thesis by (auto simp: tp_local_def tp_holds_def pl_exec_word)
  next
    case (compare b expected desired ok)
    with loc l tp_cas_lot [OF compare(2)] show ?thesis by (auto simp: tp_local_def tp_holds_def flag_mask_0)
  next
    case (exchange b x)
    with loc l show ?thesis by (auto simp: tp_local_def tp_holds_def)
  next
    case (validate b)
    with loc l show ?thesis by (auto simp: tp_local_def tp_holds_def tp_validate_def)
  next
    case (return b q q')
    with loc l show ?thesis by (auto simp: tp_local_def tp_holds_def)
  qed (use loc l in \<open>auto simp: tp_local_def tp_holds_def bit_simps\<close>)
  then show "tp_local allow l'" and "\<not> allow \<Longrightarrow> of_bool (bit (tp_word m' a) 0) + of_bool (tp_holds a l) =
      of_bool (bit (tp_word m a) 0) + (of_bool (tp_holds a l') :: nat)" by blast+
qed

lemma tp_invariant:
  assumes reach: "tp_reachable allow ptrs n s" and al: "\<And>a. ptrs a AND FLAG_MASK = 0"
  shows "length (pcs s) = n" and "tp_inv allow (shm s) (pcs s)"
proof -
  have "length (pcs s) = n \<and> pl_inv (shm s) (waitq s) (map tp_view (pcs s)) \<and> tp_inv allow (shm s) (pcs s)"
  proof (rule tp.system_invariant [where I = "tp_inv allow", OF reach [unfolded tp_step_def tp_init_def]])
    show "tp_inv allow (tp_mem0 ptrs) (replicate n ([], TpOut TpNothing))"
      using al by (simp add: tp_inv_def tp_local_def tp_mem0_def cnt_simps tp_holds_def flag_mask_0)
  next
    fix m ls t op l
    assume I: "tp_inv allow m ls" and t: "length ls = n" "t < n" and op: "tp_start allow op (ls ! t) = Some l"
    obtain hs p where p: "ls ! t = (hs, p)" by (cases "ls ! t") auto
    have loc: "tp_local allow (hs, p)" using I t p unfolding tp_inv_def by force
    have st: "tp_start allow op (hs, p) = Some l" using op p by simp
    then have new: "tp_local allow l \<and> (\<forall>a. tp_holds a l = tp_holds a (hs, p) \<or> allow)"
      using loc by (cases rule: tp_start_cases) (auto simp: tp_local_def tp_holds_def)
    have "cnt (tp_holds a) (ls[t := l]) = cnt (tp_holds a) ls" if "\<not> allow" for a
      using new that t p by (intro cnt_update_same) auto
    with new I t show "tp_inv allow m (ls[t := l])" by (auto simp: tp_inv_def nth_list_update)
  next
    fix m q ls t m' l k
    assume I: "tp_inv allow m ls" and t: "length ls = n" "t < n" and ex: "tp_exec t m (ls ! t) = Some (m', l, k)"
    have tl: "t < length ls" using t by simp
    have loc: "tp_local allow (ls ! t)" using I tl by (simp add: tp_inv_def)
    have free: "\<not> tp_holds b (ls ! t)" if "\<not> allow" "\<not> bit (tp_word m b) 0" for b
    proof -
      have "cnt (tp_holds b) ls = 0" using I that by (simp add: tp_inv_def)
      with tl show ?thesis by (simp add: cnt_0_iff)
    qed
    have "cnt (tp_holds a) (ls[t := l]) = of_bool (bit (tp_word m' a) 0)" if na: "\<not> allow" for a
      using tp_exec_lock(2) [OF ex loc free na, of a] cnt_update [OF tl, of "tp_holds a" l] I na
      by (simp add: tp_inv_def)
    moreover have "\<forall>u < length (ls[t := l]). tp_local allow (ls[t := l] ! u)"
      using I tp_exec_lock(1) [OF ex loc free] by (intro all_nth_update) (simp_all add: tp_inv_def)
    ultimately show "tp_inv allow m' (ls[t := l])" by (simp add: tp_inv_def)
  qed
  then show "length (pcs s) = n" "tp_inv allow (shm s) (pcs s)" by blast+
qed

section \<open>Properties\<close>

text \<open>Thread 0 holds the lock of the pointer at address 8; thread 1 has parked behind it.\<close>

definition tp_ptrs :: "usize \<Rightarrow> u64" where
  "tp_ptrs a = 4096"

lemma tp_ptrs_aligned: "tp_ptrs a AND FLAG_MASK = 0"
  by (simp add: tp_ptrs_def FLAG_MASK_def)

definition tp_state :: "bool \<Rightarrow> tp_op nact list \<Rightarrow> (tp_mem, tp_pc) fsys" where
  "tp_state allow as = the (run (tp_step allow) as (tp_init tp_ptrs 2))"

lemma tp_state_reachable:
  assumes "\<not> Option.is_none (run (tp_step allow) as (tp_init tp_ptrs 2))"
  shows "tp_reachable allow tp_ptrs 2 (tp_state allow as)"
proof -
  have "run (tp_step allow) as (tp_init tp_ptrs 2) = Some (tp_state allow as)"
    using assms by (simp add: tp_state_def Option.is_none_def)
  then show ?thesis by (rule run_reachable)
qed

definition tp_locked_demo :: "tp_op nact list" where
  "tp_locked_demo = [NInvoke 0 (TpLockOp 8), NStep 0, NStep 0]"

text \<open>
  The schedule of the lost wake-up: thread 1 has seen the lock taken and no waiters, under the
  bucket lock; thread 0 unlocks, sees no waiters either and returns; thread 1 sets the flag, enters
  the queue and sleeps.
\<close>

definition tp_lost_demo :: "tp_op nact list" where
  "tp_lost_demo = tp_locked_demo @ [NInvoke 1 (TpLockOp 8)] @ replicate 14 (NStep 1) @
     [NInvoke 0 (TpUnlockOp 8), NStep 0, NStep 0] @ replicate 5 (NStep 1)"

definition tp_lost :: "(tp_mem, tp_pc) fsys" where
  "tp_lost = tp_state False tp_lost_demo"

lemma tp_lost_reachable: "tp_reachable False tp_ptrs 2 tp_lost"
  unfolding tp_lost_def by (rule tp_state_reachable) code_simp

lemma tp_lost_values:
  "pcs tp_lost = [([], TpOut TpNothing), ([], TpPark 8 PkAsleep)]" "tp_word (shm tp_lost) 8 = 4096 OR WAITERS_BIT"
  "wake_flag (shm tp_lost) (Suc 0) = 0"
  by code_simp+

definition tp_locked :: "(tp_mem, tp_pc) fsys" where
  "tp_locked = tp_state True (tp_locked_demo @ [NInvoke 1 (TpExchangeOp 8 8192)])"

definition tp_comparing :: "(tp_mem, tp_pc) fsys" where
  "tp_comparing = tp_state False (tp_locked_demo @ [NInvoke 0 (TpCompareOp 8 4096 8192)])"

lemma tp_locked_reachable: "tp_reachable True tp_ptrs 2 tp_locked"
  unfolding tp_locked_def by (rule tp_state_reachable) code_simp

lemma tp_comparing_reachable: "tp_reachable False tp_ptrs 2 tp_comparing"
  unfolding tp_comparing_def by (rule tp_state_reachable) code_simp

lemma tp_demo_values:
  "pcs tp_locked = [([8], TpOut TpNothing), ([], TpExchange 8 8192)]" "waitq tp_locked = []"
  "pcs tp_comparing = [([8], TpCompare 8 4096 8192), ([], TpOut TpNothing)]" "waitq tp_comparing = []"
  "tp_word (shm tp_comparing) 8 = 4096 OR LOCKED_BIT"
  by code_simp+

text \<open>
  C19. Mutual exclusion: as long as nobody calls \<open>exchange\<close>, the lock in a tagged pointer is held by
  at most one thread, and its bit is set while it is held, whatever \<open>compare_exchange\<close> does.
\<close>
theorem tagged_mutual_exclusion:
  assumes reach: "tp_reachable False ptrs n s" and al: "\<And>a. ptrs a AND FLAG_MASK = 0"
    and i: "i < n" "a \<in> set (fst (pcs s ! i))" and j: "j < n" "a \<in> set (fst (pcs s ! j))"
  shows "i = j \<and> tp_word (shm s) a AND LOCKED_BIT \<noteq> 0"
proof -
  have len: "length (pcs s) = n" and I: "tp_inv False (shm s) (pcs s)" using tp_invariant [OF reach al] by blast+
  then have c: "cnt (tp_holds a) (pcs s) = of_bool (bit (tp_word (shm s) a) 0)" by (simp add: tp_inv_def)
  have "0 < cnt (tp_holds a) (pcs s)" using i len by (intro cnt_pos) (auto simp: tp_holds_def)
  with c have "tp_word (shm s) a AND LOCKED_BIT \<noteq> 0" by (auto simp: and_bit_0)
  moreover have "i = j" using cnt_le1_unique [of "tp_holds a" "pcs s" i j] c i j len by (simp add: tp_holds_def)
  ultimately show ?thesis by simp
qed

theorem tagged_mutual_exclusion_witness:
  "(0 :: nat) = 0 \<and> tp_word (shm tp_comparing) 8 AND LOCKED_BIT \<noteq> 0"
  by (rule tagged_mutual_exclusion [OF tp_comparing_reachable tp_ptrs_aligned]) (simp_all add: tp_demo_values)

text \<open>
  The lock operations leave the pointer alone: no step, from any state, changes the pointer or
  the user's mark of any tagged pointer, except those of \<open>exchange\<close> and \<open>compare_exchange\<close>.
\<close>
theorem tagged_locks_keep_pointer:
  assumes stp: "tp_step allow (NStep t) s = Some s'"
    and "\<And>a x. snd (pcs s ! t) \<noteq> TpExchange a x" and "\<And>a x y. snd (pcs s ! t) \<noteq> TpCompare a x y"
  shows "tagged_get (tp_word (shm s') b) = tagged_get (tp_word (shm s) b) \<and>
    tp_word (shm s') b AND MARKED_BIT = tp_word (shm s) b AND MARKED_BIT"
proof -
  obtain w l k where "tp_exec t (shm s) (pcs s ! t) = Some (w, l, k)" "shm s' = w"
    using stp unfolding tp_step_def by (auto elim!: node_stepE)
  then have "tp_same_pointer (tp_word (shm s) b) (tp_word (shm s') b)"
    using tp_exec_pointer [of t "shm s" "fst (pcs s ! t)" "snd (pcs s ! t)" w l k b] assms(2,3) by simp
  then show ?thesis by (rule tp_same_pointer_get)
qed

theorem tagged_locks_keep_pointer_witness:
  "\<exists>s'. tp_step False (NStep 1) (tp_lost\<lparr>waitq := []\<rparr>) = Some s' \<and> tagged_get (tp_word (shm s') 8) = 4096"
proof -
  let ?s = "tp_lost\<lparr>waitq := []\<rparr>"
  obtain s' where stp: "tp_step False (NStep 1) ?s = Some s'"
    using tp_lost_values by (simp add: tp_step_def node_step_def awake_def tp_exec_def)
  have "tagged_get (tp_word (shm s') 8) = tagged_get (tp_word (shm ?s) 8) \<and>
      tp_word (shm s') 8 AND MARKED_BIT = tp_word (shm ?s) 8 AND MARKED_BIT"
    by (rule tagged_locks_keep_pointer [OF stp]) (simp_all add: tp_lost_values)
  moreover have "tagged_get (tp_word (shm ?s) 8) = 4096"
    by (simp add: tp_lost_values tagged_get_def POINTER_MASK_def FLAG_MASK_def WAITERS_BIT_def)
  ultimately show ?thesis using stp by simp
qed

text \<open>
  C18. A lost wake-up: there is a reachable state in which the lock is free, the other thread has
  returned from \<open>unlock\<close>, and a thread that called \<open>lock\<close> is parked; however often it wakes up
  spuriously and whatever it does, it never takes the free lock.
\<close>
theorem tagged_lost_wakeup:
  assumes "run (tp_step False) as tp_lost = Some s" and "set as \<subseteq> {NStep 1, NSpurious 1}"
  shows "tp_reachable False tp_ptrs 2 tp_lost \<and> tp_word (shm s) 8 AND LOCKED_BIT = 0 \<and>
    (\<exists>p. snd (pcs s ! 1) = TpPark 8 p \<and> pl_queued p)"
proof -
  let ?J = "\<lambda>s. length (pcs s) = 2 \<and> tp_word (shm s) 8 AND LOCKED_BIT = 0 \<and> wake_flag (shm s) 1 = 0 \<and>
    (\<exists>p. pcs s ! 1 = ([], TpPark 8 p) \<and> p \<in> {PkFlag, PkWait, PkAsleep})"
  have "?J s" if "run (tp_step False) as r = Some s" "set as \<subseteq> {NStep 1, NSpurious 1}" "?J r" for r
    using that
  proof (induction as arbitrary: r)
    case Nil
    then show ?case by simp
  next
    case (Cons x as)
    then obtain r' where stp: "tp_step False x r = Some r'" and run: "run (tp_step False) as r' = Some s"
      by (auto split: option.splits)
    have x: "x = NStep 1 \<or> x = NSpurious 1" and rest: "set as \<subseteq> {NStep 1, NSpurious 1}" using Cons.prems(2) by auto
    have "?J r'"
      using stp x Cons.prems(3) unfolding tp_step_def
      by (elim node_stepE) (auto simp: tp_exec_def split: if_splits)
    with Cons.IH [OF run rest] show ?case by blast
  qed
  moreover have "?J tp_lost"
    by (simp add: tp_lost_values and_bit_0 bit_simps)
  ultimately have "?J s" using assms by blast
  then show ?thesis using tp_lost_reachable by auto
qed

theorem tagged_lost_wakeup_witness:
  "\<exists>s. run (tp_step False) [NSpurious 1, NStep 1, NStep 1, NStep 1] tp_lost = Some s \<and>
     tp_word (shm s) 8 AND LOCKED_BIT = 0 \<and> (\<exists>p. snd (pcs s ! 1) = TpPark 8 p \<and> pl_queued p)"
proof -
  let ?r = "run (tp_step False) [NSpurious 1, NStep 1, NStep 1, NStep 1] tp_lost"
  have "\<not> Option.is_none ?r" by code_simp
  then obtain s where s: "?r = Some s" by (auto simp: Option.is_none_def)
  from tagged_lost_wakeup [OF s] s show ?thesis by auto
qed

text \<open>
  \<open>exchange\<close> drops the lock: a step of \<open>exchange\<close> on a tagged pointer that another thread holds
  clears the lock bit and leaves that thread inside its critical section.
\<close>
theorem tagged_exchange_drops_lock:
  assumes reach: "tp_reachable allow ptrs n s" and al: "\<And>a. ptrs a AND FLAG_MASK = 0"
    and t: "t < n" "snd (pcs s ! t) = TpExchange a new_ptr"
    and u: "u < n" "u \<noteq> t" "a \<in> set (fst (pcs s ! u))" and stp: "tp_step allow (NStep t) s = Some s'"
  shows "tp_word (shm s') a AND LOCKED_BIT = 0 \<and> a \<in> set (fst (pcs s' ! u)) \<and> tagged_get (tp_word (shm s') a) = new_ptr"
proof -
  have len: "length (pcs s) = n" and I: "tp_inv allow (shm s) (pcs s)" using tp_invariant [OF reach al] by blast+
  then have "tp_local allow (pcs s ! t)" using t by (simp add: tp_inv_def)
  then have f: "new_ptr AND FLAG_MASK = 0" using t by (simp add: tp_local_def)
  obtain hs where p: "pcs s ! t = (hs, TpExchange a new_ptr)" using t(2) by (cases "pcs s ! t") simp
  have "tp_word (shm s') a = new_ptr" "pcs s' ! u = pcs s ! u"
    using stp p u unfolding tp_step_def
    by (auto elim!: node_stepE simp: tp_exec_def Let_def atomic_exchange_def)
  moreover have "tagged_get new_ptr = new_ptr"
    using f by (intro bit_word_eqI) (auto simp: tagged_get_def POINTER_MASK_def flag_mask_0 bit_simps)
  ultimately show ?thesis using f u by (simp add: flag_mask_0 and_bit_0)
qed

theorem tagged_exchange_drops_lock_witness:
  "\<exists>s'. tp_step True (NStep 1) tp_locked = Some s' \<and> tp_word (shm s') 8 AND LOCKED_BIT = 0 \<and>
     8 \<in> set (fst (pcs s' ! 0)) \<and> tagged_get (tp_word (shm s') 8) = 8192"
proof -
  obtain s' where stp: "tp_step True (NStep 1) tp_locked = Some s'"
    using tp_demo_values by (simp add: tp_step_def node_step_def awake_def tp_exec_def Let_def split: prod.splits)
  have "tp_word (shm s') 8 AND LOCKED_BIT = 0 \<and> 8 \<in> set (fst (pcs s' ! 0)) \<and> tagged_get (tp_word (shm s') 8) = 8192"
    by (rule tagged_exchange_drops_lock [OF tp_locked_reachable tp_ptrs_aligned _ _ _ _ _ stp])
      (simp_all add: tp_demo_values)
  with stp show ?thesis by blast
qed

text \<open>
  \<open>compare_exchange\<close> compares the whole word: on a tagged pointer with any flag set, in
  particular a locked one, it fails and changes nothing, even if the pointer is the expected one.
\<close>
theorem tagged_compare_exchange_fails_on_flags:
  assumes reach: "tp_reachable allow ptrs n s" and al: "\<And>a. ptrs a AND FLAG_MASK = 0"
    and t: "t < n" "snd (pcs s ! t) = TpCompare a expected desired"
    and flag: "tp_word (shm s) a AND FLAG_MASK \<noteq> 0" and stp: "tp_step allow (NStep t) s = Some s'"
  shows "snd (pcs s' ! t) = TpOut (TpBool False) \<and> tp_word (shm s') = tp_word (shm s)"
proof -
  have len: "length (pcs s) = n" and I: "tp_inv allow (shm s) (pcs s)" using tp_invariant [OF reach al] by blast+
  then have "tp_local allow (pcs s ! t)" using t by (simp add: tp_inv_def)
  then have "expected AND FLAG_MASK = 0" using t by (simp add: tp_local_def)
  with flag have ne: "tp_word (shm s) a \<noteq> expected" by auto
  then have c: "tp_cas a expected desired (shm s) = (False, shm s)" by (simp add: tp_cas_False)
  obtain hs where "pcs s ! t = (hs, TpCompare a expected desired)" using t(2) by (cases "pcs s ! t") simp
  with c stp t(1) len show ?thesis unfolding tp_step_def by (auto elim!: node_stepE simp: tp_exec_def)
qed

theorem tagged_compare_exchange_fails_on_flags_witness:
  "\<exists>s'. tp_step False (NStep 0) tp_comparing = Some s' \<and> snd (pcs s' ! 0) = TpOut (TpBool False) \<and>
     tagged_get (tp_word (shm tp_comparing) 8) = 4096"
proof -
  obtain s' where stp: "tp_step False (NStep 0) tp_comparing = Some s'"
    using tp_demo_values by (cases "tp_cas 8 4096 8192 (shm tp_comparing)")
      (simp add: tp_step_def node_step_def awake_def tp_exec_def)
  have "snd (pcs s' ! 0) = TpOut (TpBool False) \<and> tp_word (shm s') = tp_word (shm tp_comparing)"
    by (rule tagged_compare_exchange_fails_on_flags [where a = 8 and expected = 4096 and desired = 8192,
          OF tp_comparing_reachable tp_ptrs_aligned _ _ _ stp])
      (simp_all add: tp_demo_values FLAG_MASK_def LOCKED_BIT_def)
  moreover have "tagged_get (tp_word (shm tp_comparing) 8) = 4096"
    by (simp add: tp_demo_values tagged_get_def POINTER_MASK_def FLAG_MASK_def LOCKED_BIT_def)
  ultimately show ?thesis using stp by blast
qed

end
