(* ===== verification/Locks.thy ===== *)
theory Locks
  imports Lock_Spec
begin

text \<open>
  The generic wrappers of \<^verbatim>\<open>psync_locks.h\<close> (\<open>LockGuard\<close>, \<open>UniqueLock\<close>) and \<open>batch_execute\<close> of
  \<^verbatim>\<open>psync_batch.h\<close>; \<open>SharedLock\<close> and the other guards are in \<open>Guards\<close>. The mutex is the template parameter \<open>MutexType\<close>: what a wrapper asks
  of it is the locale \<open>basic_lockable\<close>, interpreted on the abstract exclusive lock and on the
  shared side of the abstract reader/writer lock. Shown: a wrapper owns what it has locked and
  nothing else, through every operation, moves and swaps included; its destructor leaves no mutex
  locked behind.
\<close>

section \<open>What a wrapper asks of a mutex\<close>

text \<open>
  The calls of one thread on the mutexes it names: the wrappers call \<open>lock\<close>, \<open>try_lock\<close> and
  \<open>unlock\<close> (\<open>lock_shared\<close> and so on for \<open>SharedLock\<close>), each on a mutex given by its address. A call
  that does not return, or is outside the mutex's contract, is \<open>None\<close>.
\<close>

type_synonym mutex_ptr = nat

record 'm lock_ops =
  op_lock :: "mutex_ptr \<Rightarrow> 'm \<Rightarrow> 'm option"
  op_try_lock :: "mutex_ptr \<Rightarrow> 'm \<Rightarrow> (bool \<times> 'm) option"
  op_unlock :: "mutex_ptr \<Rightarrow> 'm \<Rightarrow> 'm option"

text \<open>
  The contract, in terms of the number of times this thread holds a mutex: a lock or a successful
  try adds one, an unlock takes one away and is possible while one is left.
\<close>

locale basic_lockable =
  fixes ops :: "'m lock_ops" and held :: "'m \<Rightarrow> mutex_ptr \<Rightarrow> nat"
  assumes lock_held: "op_lock ops p m = Some m' \<Longrightarrow> held m' = (held m)(p := Suc (held m p))"
    and try_held: "op_try_lock ops p m = Some (ok, m') \<Longrightarrow>
      held m' = (if ok then (held m)(p := Suc (held m p)) else held m)"
    and unlock_held: "op_unlock ops p m = Some m' \<Longrightarrow> 0 < held m p \<and> held m' = (held m)(p := held m p - 1)"
    and unlock_possible: "0 < held m p \<Longrightarrow> \<exists>m'. op_unlock ops p m = Some m'"

section \<open>UniqueLock\<close>

text \<open>The functions of the mutex are the fields of \<open>ops\<close>.\<close>

record wrapper =
  w_mutex :: "mutex_ptr option"
  w_owns :: bool

definition ul_default :: wrapper where
  "ul_default = \<lparr>w_mutex = None, w_owns = False\<rparr>"

definition ul_construct :: "'m lock_ops \<Rightarrow> mutex_ptr \<Rightarrow> 'm \<Rightarrow> (wrapper \<times> 'm) option" where
  "ul_construct ops m st = (case op_lock ops m st of
     None \<Rightarrow> None
   | Some st' \<Rightarrow> Some (\<lparr>w_mutex = Some m, w_owns = True\<rparr>, st'))"

definition ul_defer :: "mutex_ptr \<Rightarrow> wrapper" where
  "ul_defer m = \<lparr>w_mutex = Some m, w_owns = False\<rparr>"

definition ul_try_to_lock :: "'m lock_ops \<Rightarrow> mutex_ptr \<Rightarrow> 'm \<Rightarrow> (wrapper \<times> 'm) option" where
  "ul_try_to_lock ops m st = (case op_try_lock ops m st of
     None \<Rightarrow> None
   | Some (ok, st') \<Rightarrow> Some (\<lparr>w_mutex = Some m, w_owns = ok\<rparr>, st'))"

definition ul_adopt :: "mutex_ptr \<Rightarrow> wrapper" where
  "ul_adopt m = \<lparr>w_mutex = Some m, w_owns = True\<rparr>"

definition ul_destroy :: "'m lock_ops \<Rightarrow> wrapper \<Rightarrow> 'm \<Rightarrow> 'm option" where
  "ul_destroy ops w st = (case w_mutex w of
     Some m \<Rightarrow> if w_owns w then op_unlock ops m st else Some st
   | None \<Rightarrow> Some st)"

text \<open>The move constructor: the new wrapper and what is left of the other one.\<close>

definition ul_move :: "wrapper \<Rightarrow> wrapper \<times> wrapper" where
  "ul_move other = (\<lparr>w_mutex = w_mutex other, w_owns = w_owns other\<rparr>, other\<lparr>w_mutex := None, w_owns := False\<rparr>)"

text \<open>The move assignment to another object; \<open>same\<close> is the test \<open>this == &other\<close>.\<close>

definition ul_move_assign :: "'m lock_ops \<Rightarrow> bool \<Rightarrow> wrapper \<Rightarrow> wrapper \<Rightarrow> 'm \<Rightarrow> (wrapper \<times> wrapper \<times> 'm) option" where
  "ul_move_assign ops same this other st =
     (if same then Some (this, other, st)
      else (case (case w_mutex this of
               Some m \<Rightarrow> if w_owns this then op_unlock ops m st else Some st
             | None \<Rightarrow> Some st) of
        None \<Rightarrow> None
      | Some st' \<Rightarrow> Some (\<lparr>w_mutex = w_mutex other, w_owns = w_owns other\<rparr>,
                       other\<lparr>w_mutex := None, w_owns := False\<rparr>, st')))"

definition ul_lock :: "'m lock_ops \<Rightarrow> wrapper \<Rightarrow> 'm \<Rightarrow> (wrapper \<times> 'm) option" where
  "ul_lock ops w st = (case w_mutex w of
     Some m \<Rightarrow>
       if \<not> w_owns w then
         (case op_lock ops m st of None \<Rightarrow> None | Some st' \<Rightarrow> Some (w\<lparr>w_owns := True\<rparr>, st'))
       else Some (w, st)
   | None \<Rightarrow> Some (w, st))"

definition ul_try_lock :: "'m lock_ops \<Rightarrow> wrapper \<Rightarrow> 'm \<Rightarrow> (bool \<times> wrapper \<times> 'm) option" where
  "ul_try_lock ops w st = (case w_mutex w of
     Some m \<Rightarrow>
       if \<not> w_owns w then
         (case op_try_lock ops m st of None \<Rightarrow> None | Some (ok, st') \<Rightarrow> Some (ok, w\<lparr>w_owns := ok\<rparr>, st'))
       else Some (False, w, st)
   | None \<Rightarrow> Some (False, w, st))"

definition ul_unlock :: "'m lock_ops \<Rightarrow> wrapper \<Rightarrow> 'm \<Rightarrow> (wrapper \<times> 'm) option" where
  "ul_unlock ops w st = (case w_mutex w of
     Some m \<Rightarrow>
       if w_owns w then
         (case op_unlock ops m st of None \<Rightarrow> None | Some st' \<Rightarrow> Some (w\<lparr>w_owns := False\<rparr>, st'))
       else Some (w, st)
   | None \<Rightarrow> Some (w, st))"

definition ul_release :: "wrapper \<Rightarrow> mutex_ptr option \<times> wrapper" where
  "ul_release w = (w_mutex w, w\<lparr>w_mutex := None, w_owns := False\<rparr>)"

definition ul_swap :: "wrapper \<Rightarrow> wrapper \<Rightarrow> wrapper \<times> wrapper" where
  "ul_swap w other = (\<lparr>w_mutex = w_mutex other, w_owns = w_owns other\<rparr>, \<lparr>w_mutex = w_mutex w, w_owns = w_owns w\<rparr>)"

section \<open>LockGuard, BatchGuard and batch_execute\<close>

text \<open>
  The scoped guards lock in the constructor and unlock in the destructor. \<open>batch_execute\<close> runs a
  function on the state in between; if it throws, the guard is destroyed all the same.
\<close>

definition guard_construct :: "'m lock_ops \<Rightarrow> mutex_ptr \<Rightarrow> 'm \<Rightarrow> (mutex_ptr \<times> 'm) option" where
  "guard_construct ops m st = map_option (\<lambda>st'. (m, st')) (op_lock ops m st)"

definition guard_adopt :: "mutex_ptr \<Rightarrow> mutex_ptr" where
  "guard_adopt m = m"

definition guard_destroy :: "'m lock_ops \<Rightarrow> mutex_ptr \<Rightarrow> 'm \<Rightarrow> 'm option" where
  "guard_destroy ops g st = op_unlock ops g st"

datatype 'r outcome = Returned 'r | Thrown

definition batch_execute ::
    "'m lock_ops \<Rightarrow> mutex_ptr \<Rightarrow> ('m \<times> 'd \<Rightarrow> 'r outcome \<times> 'd) \<Rightarrow> 'm \<times> 'd \<Rightarrow> ('r outcome \<times> 'm \<times> 'd) option" where
  "batch_execute ops m func s = (case guard_construct ops m (fst s) of
     None \<Rightarrow> None
   | Some (g, st) \<Rightarrow>
       (let (r, d) = func (st, snd s) in
        map_option (\<lambda>st'. (r, st', d)) (guard_destroy ops g st)))"

section \<open>A thread and its wrappers\<close>

text \<open>
  A thread has wrapper objects, numbered in the order of their construction; destroying one takes
  it off the list. \<open>wl_loose\<close> is auxiliary: the mutexes the thread has locked and no wrapper owns
  any more, because they were released; \<open>adopt_lock\<close> may be used for those.
\<close>

record 'm wl_state =
  wl_wrappers :: "wrapper list"
  wl_loose :: "mutex_ptr \<Rightarrow> nat"
  wl_mutexes :: 'm

datatype wl_op =
    WDefault | WConstruct mutex_ptr | WDefer mutex_ptr | WTryToLock mutex_ptr | WAdopt mutex_ptr
  | WDestroy nat | WMove nat | WMoveAssign nat nat | WLock nat | WTryLock nat | WUnlock nat | WRelease nat
  | WSwap nat nat

definition wl_add :: "(wrapper \<times> 'm) option \<Rightarrow> 'm wl_state \<Rightarrow> 'm wl_state option" where
  "wl_add r s = map_option (\<lambda>(w, st). s\<lparr>wl_wrappers := wl_wrappers s @ [w], wl_mutexes := st\<rparr>) r"

definition wl_set :: "nat \<Rightarrow> (wrapper \<times> 'm) option \<Rightarrow> 'm wl_state \<Rightarrow> 'm wl_state option" where
  "wl_set i r s = map_option (\<lambda>(w, st). s\<lparr>wl_wrappers := (wl_wrappers s)[i := w], wl_mutexes := st\<rparr>) r"

definition w_owner :: "wrapper \<Rightarrow> mutex_ptr option" where
  "w_owner w = (if w_owns w then w_mutex w else None)"

fun wl_step :: "'m lock_ops \<Rightarrow> wl_op \<Rightarrow> 'm wl_state \<Rightarrow> 'm wl_state option" where
  "wl_step ops WDefault s = wl_add (Some (ul_default, wl_mutexes s)) s"
| "wl_step ops (WConstruct m) s = wl_add (ul_construct ops m (wl_mutexes s)) s"
| "wl_step ops (WDefer m) s = wl_add (Some (ul_defer m, wl_mutexes s)) s"
| "wl_step ops (WTryToLock m) s = wl_add (ul_try_to_lock ops m (wl_mutexes s)) s"
| "wl_step ops (WAdopt m) s =
     (if 0 < wl_loose s m
      then wl_add (Some (ul_adopt m, wl_mutexes s)) (s\<lparr>wl_loose := (wl_loose s)(m := wl_loose s m - 1)\<rparr>)
      else None)"
| "wl_step ops (WDestroy i) s =
     (if i < length (wl_wrappers s)
      then map_option (\<lambda>st. s\<lparr>wl_wrappers := take i (wl_wrappers s) @ drop (Suc i) (wl_wrappers s), wl_mutexes := st\<rparr>)
             (ul_destroy ops (wl_wrappers s ! i) (wl_mutexes s))
      else None)"
| "wl_step ops (WMove i) s =
     (if i < length (wl_wrappers s)
      then (let (w, other) = ul_move (wl_wrappers s ! i)
            in Some (s\<lparr>wl_wrappers := (wl_wrappers s)[i := other] @ [w]\<rparr>))
      else None)"
| "wl_step ops (WMoveAssign i j) s =
     (if i < length (wl_wrappers s) \<and> j < length (wl_wrappers s)
      then map_option (\<lambda>(w, other, st). s\<lparr>wl_wrappers := (if i = j then wl_wrappers s else (wl_wrappers s)[i := w, j := other]),
                                         wl_mutexes := st\<rparr>)
             (ul_move_assign ops (i = j) (wl_wrappers s ! i) (wl_wrappers s ! j) (wl_mutexes s))
      else None)"
| "wl_step ops (WLock i) s =
     (if i < length (wl_wrappers s) then wl_set i (ul_lock ops (wl_wrappers s ! i) (wl_mutexes s)) s else None)"
| "wl_step ops (WTryLock i) s =
     (if i < length (wl_wrappers s)
      then wl_set i (map_option snd (ul_try_lock ops (wl_wrappers s ! i) (wl_mutexes s))) s else None)"
| "wl_step ops (WUnlock i) s =
     (if i < length (wl_wrappers s) then wl_set i (ul_unlock ops (wl_wrappers s ! i) (wl_mutexes s)) s else None)"
| "wl_step ops (WRelease i) s =
     (if i < length (wl_wrappers s)
      then (let w = wl_wrappers s ! i; (p, w') = ul_release w;
                loose = (case p of
                   Some m \<Rightarrow> if w_owns w then (wl_loose s)(m := Suc (wl_loose s m)) else wl_loose s
                 | None \<Rightarrow> wl_loose s)
            in Some (s\<lparr>wl_wrappers := (wl_wrappers s)[i := w'], wl_loose := loose\<rparr>))
      else None)"
| "wl_step ops (WSwap i j) s =
     (if i < length (wl_wrappers s) \<and> j < length (wl_wrappers s)
      then (let (w, other) = ul_swap (wl_wrappers s ! i) (wl_wrappers s ! j)
            in Some (s\<lparr>wl_wrappers := (wl_wrappers s)[i := w, j := other]\<rparr>))
      else None)"

definition wl_init :: "'m \<Rightarrow> 'm wl_state" where
  "wl_init st = \<lparr>wl_wrappers = [], wl_loose = \<lambda>_. 0, wl_mutexes = st\<rparr>"

section \<open>Ownership\<close>

lemma cnt_append: "cnt P (xs @ ys) = cnt P xs + cnt P ys"
  by (simp add: cnt_def)

lemma cnt_single: "cnt P [x] = of_bool (P x)"
  by (simp add: cnt_def)

lemma cnt_delete: "i < length xs \<Longrightarrow> cnt P xs = cnt P (take i xs @ drop (Suc i) xs) + of_bool (P (xs ! i))"
  by (subst id_take_nth_drop [of i xs]) (simp_all add: cnt_def)

text \<open>Two entries that are replaced together.\<close>

lemma cnt_update_two:
  assumes "i < length xs" "j < length xs" "i \<noteq> j"
  shows "cnt P (xs[i := x, j := y]) + of_bool (P (xs ! i)) + of_bool (P (xs ! j)) =
    cnt P xs + of_bool (P x) + of_bool (P y)"
  using cnt_update [of i xs P x] cnt_update [of j "xs[i := x]" P y] assms by simp

lemma wrapper_eta [simp]: "\<lparr>w_mutex = w_mutex w, w_owns = w_owns w\<rparr> = w"
  by (cases w) simp

lemma set_update_two: "set (xs[i := x, j := y]) \<subseteq> insert y (insert x (set xs))"
  using set_update_subset_insert [of "xs[i := x]" j y] set_update_subset_insert [of xs i x] by auto

definition owned :: "mutex_ptr \<Rightarrow> wrapper list \<Rightarrow> nat" where
  "owned p ws = cnt (\<lambda>w. w_owner w = Some p) ws"

context basic_lockable
begin

text \<open>The thread holds exactly what its wrappers own and what it has loose; a wrapper that owns has a mutex.\<close>

definition wl_inv :: "'m wl_state \<Rightarrow> bool" where
  "wl_inv s \<longleftrightarrow> (\<forall>p. held (wl_mutexes s) p = owned p (wl_wrappers s) + wl_loose s p) \<and>
     (\<forall>w \<in> set (wl_wrappers s). w_owns w \<longrightarrow> w_mutex w \<noteq> None)"

lemma wl_inv_add: "wl_inv s \<Longrightarrow> wl_add r s = Some s' \<Longrightarrow>
    (\<And>w st. r = Some (w, st) \<Longrightarrow> (w_owns w \<longrightarrow> w_mutex w \<noteq> None) \<and>
      (\<forall>p. held st p = held (wl_mutexes s) p + of_bool (w_owner w = Some p))) \<Longrightarrow> wl_inv s'"
  by (auto simp: wl_add_def wl_inv_def owned_def cnt_append cnt_single)

lemma wl_inv_set:
  assumes I: "wl_inv s" and set: "wl_set i r s = Some s'" and i: "i < length (wl_wrappers s)"
    and w: "\<And>w st. r = Some (w, st) \<Longrightarrow> (w_owns w \<longrightarrow> w_mutex w \<noteq> None) \<and>
      (\<forall>p. held st p + of_bool (w_owner (wl_wrappers s ! i) = Some p) =
        held (wl_mutexes s) p + of_bool (w_owner w = Some p))"
  shows "wl_inv s'"
proof -
  obtain x st where r: "r = Some (x, st)" and s': "s' = s\<lparr>wl_wrappers := (wl_wrappers s)[i := x], wl_mutexes := st\<rparr>"
    using set by (auto simp: wl_set_def)
  have "held st p = owned p ((wl_wrappers s)[i := x]) + wl_loose s p" for p
  proof -
    have "held st p + of_bool (w_owner (wl_wrappers s ! i) = Some p) =
        held (wl_mutexes s) p + of_bool (w_owner x = Some p)" using w [OF r] by blast
    moreover have "held (wl_mutexes s) p = owned p (wl_wrappers s) + wl_loose s p" using I by (simp add: wl_inv_def)
    ultimately show ?thesis
      using cnt_update [OF i, of "\<lambda>w. w_owner w = Some p" x] unfolding owned_def by linarith
  qed
  moreover have "\<forall>y \<in> set ((wl_wrappers s)[i := x]). w_owns y \<longrightarrow> w_mutex y \<noteq> None"
    using w [OF r] I set_update_subset_insert [of "wl_wrappers s" i x] by (auto simp: wl_inv_def)
  ultimately show ?thesis using s' by (simp add: wl_inv_def)
qed

text \<open>What the single operations do to the mutexes and to the ownership.\<close>

lemma ul_destroy_held:
  assumes "ul_destroy ops w st = Some st'" and "w_owns w \<longrightarrow> w_mutex w \<noteq> None"
  shows "held st p = held st' p + of_bool (w_owner w = Some p)"
  using assms by (auto simp: ul_destroy_def w_owner_def split: option.splits if_splits dest: unlock_held)

lemma ul_destroy_possible:
  assumes "wl_inv s" and "w \<in> set (wl_wrappers s)"
  shows "\<exists>st. ul_destroy ops w (wl_mutexes s) = Some st"
proof (cases "w_owner w")
  case None
  then show ?thesis by (auto simp: ul_destroy_def w_owner_def split: option.splits if_splits)
next
  case (Some p)
  then have "0 < owned p (wl_wrappers s)"
    using assms(2) by (auto simp: owned_def in_set_conv_nth intro: cnt_pos)
  then have "0 < held (wl_mutexes s) p" using assms(1) by (simp add: wl_inv_def)
  from unlock_possible [OF this] Some show ?thesis
    by (auto simp: ul_destroy_def w_owner_def split: option.splits if_splits)
qed

lemma wl_inv_step:
  assumes I: "wl_inv s" and stp: "wl_step ops x s = Some s'"
  shows "wl_inv s'"
proof (cases x)
  case WDefault
  with stp show ?thesis by (auto simp: ul_default_def w_owner_def intro!: wl_inv_add [OF I])
next
  case (WConstruct m)
  with stp show ?thesis
    by (auto simp: ul_construct_def w_owner_def lock_held split: option.splits intro!: wl_inv_add [OF I])
next
  case (WDefer m)
  with stp show ?thesis by (auto simp: ul_defer_def w_owner_def intro!: wl_inv_add [OF I])
next
  case (WTryToLock m)
  with stp show ?thesis
    by (auto simp: ul_try_to_lock_def w_owner_def try_held split: option.splits intro!: wl_inv_add [OF I])
next
  case (WAdopt m)
  with stp I show ?thesis
    by (auto simp: wl_add_def wl_inv_def ul_adopt_def owned_def cnt_append cnt_single w_owner_def split: if_splits)
next
  case (WDestroy i)
  then obtain st where i: "i < length (wl_wrappers s)"
    and d: "ul_destroy ops (wl_wrappers s ! i) (wl_mutexes s) = Some st"
    and s': "s' = s\<lparr>wl_wrappers := take i (wl_wrappers s) @ drop (Suc i) (wl_wrappers s), wl_mutexes := st\<rparr>"
    using stp by (auto split: if_splits)
  have ok: "w_owns (wl_wrappers s ! i) \<longrightarrow> w_mutex (wl_wrappers s ! i) \<noteq> None" using I i by (simp add: wl_inv_def)
  have "held st p = owned p (take i (wl_wrappers s) @ drop (Suc i) (wl_wrappers s)) + wl_loose s p" for p
  proof -
    have "held (wl_mutexes s) p = owned p (wl_wrappers s) + wl_loose s p" using I by (simp add: wl_inv_def)
    then show ?thesis
      using ul_destroy_held [OF d ok, of p] cnt_delete [OF i, of "\<lambda>w. w_owner w = Some p"]
      unfolding owned_def by linarith
  qed
  then show ?thesis using I s' by (auto simp: wl_inv_def dest: in_set_takeD in_set_dropD)
next
  case (WLock i)
  then have i: "i < length (wl_wrappers s)"
    and set: "wl_set i (ul_lock ops (wl_wrappers s ! i) (wl_mutexes s)) s = Some s'"
    using stp by (auto split: if_splits)
  have ok: "w_owns (wl_wrappers s ! i) \<longrightarrow> w_mutex (wl_wrappers s ! i) \<noteq> None" using I i by (simp add: wl_inv_def)
  show ?thesis
    by (rule wl_inv_set [OF I set i]) (use ok in \<open>auto simp: ul_lock_def w_owner_def lock_held split: option.splits if_splits\<close>)
next
  case (WTryLock i)
  then have i: "i < length (wl_wrappers s)"
    and set: "wl_set i (map_option snd (ul_try_lock ops (wl_wrappers s ! i) (wl_mutexes s))) s = Some s'"
    using stp by (auto split: if_splits)
  have ok: "w_owns (wl_wrappers s ! i) \<longrightarrow> w_mutex (wl_wrappers s ! i) \<noteq> None" using I i by (simp add: wl_inv_def)
  show ?thesis
    by (rule wl_inv_set [OF I set i]) (use ok in \<open>auto simp: ul_try_lock_def w_owner_def try_held split: option.splits if_splits\<close>)
next
  case (WUnlock i)
  then have i: "i < length (wl_wrappers s)"
    and set: "wl_set i (ul_unlock ops (wl_wrappers s ! i) (wl_mutexes s)) s = Some s'"
    using stp by (auto split: if_splits)
  have ok: "w_owns (wl_wrappers s ! i) \<longrightarrow> w_mutex (wl_wrappers s ! i) \<noteq> None" using I i by (simp add: wl_inv_def)
  show ?thesis
    by (rule wl_inv_set [OF I set i]) (use ok in \<open>auto simp: ul_unlock_def w_owner_def split: option.splits if_splits dest: unlock_held\<close>)
next
  case (WMove i)
  let ?w = "wl_wrappers s ! i"
  let ?old = "?w\<lparr>w_mutex := None, w_owns := False\<rparr>" and ?new = "\<lparr>w_mutex = w_mutex ?w, w_owns = w_owns ?w\<rparr>"
  have i: "i < length (wl_wrappers s)" and s': "s' = s\<lparr>wl_wrappers := (wl_wrappers s)[i := ?old] @ [?new]\<rparr>"
    using stp WMove by (auto simp: ul_move_def split: if_splits)
  have "owned p ((wl_wrappers s)[i := ?old] @ [?new]) = owned p (wl_wrappers s)" for p
  proof -
    have "w_owner ?new = w_owner ?w" "w_owner ?old = None" by (simp_all add: w_owner_def)
    then show ?thesis
      using cnt_update [OF i, of "\<lambda>w. w_owner w = Some p" ?old] by (simp add: owned_def cnt_append cnt_single)
  qed
  moreover have "w_owns ?w \<longrightarrow> w_mutex ?w \<noteq> None" using I i by (simp add: wl_inv_def)
  ultimately show ?thesis
    using I s' set_update_subset_insert [of "wl_wrappers s" i ?old] by (auto simp: wl_inv_def)
next
  case (WMoveAssign i j)
  show ?thesis
  proof (cases "i = j")
    case True
    with stp WMoveAssign I show ?thesis by (auto simp: ul_move_assign_def split: if_splits)
  next
    case False
    let ?w = "wl_wrappers s ! i" and ?o = "wl_wrappers s ! j"
    let ?old = "?o\<lparr>w_mutex := None, w_owns := False\<rparr>" and ?new = "\<lparr>w_mutex = w_mutex ?o, w_owns = w_owns ?o\<rparr>"
    obtain st where i: "i < length (wl_wrappers s)" "j < length (wl_wrappers s)"
      and d: "ul_destroy ops ?w (wl_mutexes s) = Some st"
      and s': "s' = s\<lparr>wl_wrappers := (wl_wrappers s)[i := ?new, j := ?old], wl_mutexes := st\<rparr>"
      using stp WMoveAssign False by (auto simp: ul_move_assign_def ul_destroy_def split: if_splits option.splits)
    have ok: "w_owns ?w \<longrightarrow> w_mutex ?w \<noteq> None" "w_owns ?o \<longrightarrow> w_mutex ?o \<noteq> None" using I i by (simp_all add: wl_inv_def)
    have "held st p = owned p ((wl_wrappers s)[i := ?new, j := ?old]) + wl_loose s p" for p
    proof -
      have "held (wl_mutexes s) p = owned p (wl_wrappers s) + wl_loose s p" using I by (simp add: wl_inv_def)
      moreover have "w_owner ?new = w_owner ?o" "w_owner ?old = None" by (simp_all add: w_owner_def)
      ultimately show ?thesis
        using ul_destroy_held [OF d ok(1), of p] cnt_update_two [OF i False, of "\<lambda>w. w_owner w = Some p" ?new ?old]
        unfolding owned_def by simp
    qed
    moreover have "set ((wl_wrappers s)[i := ?new, j := ?old]) \<subseteq> insert ?old (insert ?new (set (wl_wrappers s)))"
      by (rule set_update_two)
    ultimately show ?thesis using I s' ok(2) unfolding wl_inv_def by fastforce
  qed
next
  case (WRelease i)
  let ?w = "wl_wrappers s ! i"
  let ?new = "?w\<lparr>w_mutex := None, w_owns := False\<rparr>"
  have i: "i < length (wl_wrappers s)" using stp WRelease by (auto split: if_splits)
  have ok: "w_owns ?w \<longrightarrow> w_mutex ?w \<noteq> None" using I i by (simp add: wl_inv_def)
  have s': "wl_wrappers s' = (wl_wrappers s)[i := ?new]" "wl_mutexes s' = wl_mutexes s"
    "wl_loose s' p = wl_loose s p + of_bool (w_owner ?w = Some p)" for p
    using stp WRelease i by (auto simp: ul_release_def Let_def w_owner_def split: option.splits)
  have "held (wl_mutexes s') p = owned p (wl_wrappers s') + wl_loose s' p" for p
  proof -
    have "w_owner ?new = None" by (simp add: w_owner_def)
    then show ?thesis
      using s' I cnt_update [OF i, of "\<lambda>w. w_owner w = Some p" ?new] by (simp add: wl_inv_def owned_def)
  qed
  moreover have "set (wl_wrappers s') \<subseteq> insert ?new (set (wl_wrappers s))"
    unfolding s'(1) by (rule set_update_subset_insert)
  ultimately show ?thesis using I unfolding wl_inv_def by fastforce
next
  case (WSwap i j)
  let ?w = "wl_wrappers s ! i" and ?o = "wl_wrappers s ! j"
  have i: "i < length (wl_wrappers s)" "j < length (wl_wrappers s)"
    and s': "s' = s\<lparr>wl_wrappers := (wl_wrappers s)[i := ?o, j := ?w]\<rparr>"
    using stp WSwap by (auto simp: ul_swap_def Let_def split: if_splits)
  have "owned p ((wl_wrappers s)[i := ?o, j := ?w]) = owned p (wl_wrappers s)" for p
  proof (cases "i = j")
    case False
    with cnt_update_two [OF i False, of "\<lambda>w. w_owner w = Some p" ?o ?w] show ?thesis by (simp add: owned_def)
  qed simp
  moreover have "set ((wl_wrappers s)[i := ?o, j := ?w]) \<subseteq> insert ?w (insert ?o (set (wl_wrappers s)))"
    by (rule set_update_two)
  then have "set ((wl_wrappers s)[i := ?o, j := ?w]) \<subseteq> set (wl_wrappers s)" using i by auto
  ultimately show ?thesis using I s' by (auto simp: wl_inv_def)
qed

lemma wl_inv_run: "run (wl_step ops) as s = Some s' \<Longrightarrow> wl_inv s \<Longrightarrow> wl_inv s'"
  by (induction as arbitrary: s) (auto split: option.splits intro: wl_inv_step)

lemma wl_inv_init: "(\<And>p. held st p = 0) \<Longrightarrow> wl_inv (wl_init st)"
  by (simp add: wl_inv_def wl_init_def owned_def cnt_def)

text \<open>\<open>batch_execute\<close> gives the lock back, whether the function returns or throws.\<close>

lemma batch_execute_balanced:
  assumes "batch_execute ops m func (st, d) = Some (r, st', d')"
  shows "held st' = held st"
    and "\<exists>st1. op_lock ops m st = Some st1 \<and> 0 < held st1 m \<and> func (st1, d) = (r, d')"
  using assms
  by (auto simp: batch_execute_def guard_construct_def guard_destroy_def Let_def
      split: option.splits prod.splits dest!: lock_held unlock_held)

lemma batch_execute_returns: "op_lock ops m st = Some st1 \<Longrightarrow> batch_execute ops m func (st, d) \<noteq> None"
  using unlock_possible [of st1 m] lock_held [of m st st1]
  by (auto simp: batch_execute_def guard_construct_def guard_destroy_def Let_def split: option.splits prod.splits)

end

section \<open>The mutexes of the library under the wrappers\<close>

text \<open>
  The exclusive locks as one thread \<open>t\<close> calls them, each an abstract lock (which \<open>Mutex\<close>,
  \<open>SpinLock\<close> and \<open>MicroLock\<close> refine); and the shared side of the reader/writer locks (which
  \<open>SharedMutex\<close> refines, and whose functions do the same to the word, in \<open>shared_read_alone\<close>): a thread
  that reads may read again, and a writer that holds the lock or waits for it keeps readers out. A call that
  would wait is \<open>None\<close>. The other threads stand still meanwhile.
\<close>

definition excl_ops :: "tid \<Rightarrow> (mutex_ptr \<Rightarrow> tid option) lock_ops" where
  "excl_ops t = \<lparr>
     op_lock = (\<lambda>p m. map_option (\<lambda>x. m(p := x)) (lock_spec (Acquire t) (m p))),
     op_try_lock = (\<lambda>p m. case lock_spec (Acquire t) (m p) of
       Some x \<Rightarrow> Some (True, m(p := x)) | None \<Rightarrow> Some (False, m)),
     op_unlock = (\<lambda>p m. map_option (\<lambda>x. m(p := x)) (lock_spec (Release t) (m p)))\<rparr>"

definition excl_held :: "tid \<Rightarrow> (mutex_ptr \<Rightarrow> tid option) \<Rightarrow> mutex_ptr \<Rightarrow> nat" where
  "excl_held t m p = of_bool (m p = Some t)"

definition shared_ops :: "tid \<Rightarrow> (mutex_ptr \<Rightarrow> rw_state) lock_ops" where
  "shared_ops t = \<lparr>
     op_lock = (\<lambda>p m. map_option (\<lambda>x. m(p := x)) (rw_spec (AcquireRead t) (m p))),
     op_try_lock = (\<lambda>p m. case rw_spec (AcquireRead t) (m p) of
       Some x \<Rightarrow> Some (True, m(p := x)) | None \<Rightarrow> Some (False, m)),
     op_unlock = (\<lambda>p m. map_option (\<lambda>x. m(p := x)) (rw_spec (ReleaseRead t) (m p)))\<rparr>"

definition shared_held :: "tid \<Rightarrow> (mutex_ptr \<Rightarrow> rw_state) \<Rightarrow> mutex_ptr \<Rightarrow> nat" where
  "shared_held t m p = count (rw_readers (m p)) t"

lemma lock_spec_cases:
  "lock_spec (Acquire t) x = Some y \<longleftrightarrow> x = None \<and> y = Some t"
  "lock_spec (Release t) x = Some y \<longleftrightarrow> x = Some t \<and> y = None"
  by (cases x; auto)+

lemma rw_spec_cases:
  "rw_spec (AcquireRead t) x = Some y \<longleftrightarrow> rw_read_ok x \<and> y = x\<lparr>rw_readers := add_mset t (rw_readers x)\<rparr>"
  "rw_spec (ReleaseRead t) x = Some y \<longleftrightarrow> 0 < count (rw_readers x) t \<and> y = x\<lparr>rw_readers := rw_readers x - {#t#}\<rparr>"
  by (auto simp: count_greater_zero_iff)

interpretation ul: basic_lockable "excl_ops t" "excl_held t" for t
  by unfold_locales
    (auto simp: excl_ops_def excl_held_def lock_spec_cases split: option.splits if_splits intro!: ext)

interpretation sl: basic_lockable "shared_ops t" "shared_held t" for t
  by unfold_locales
    (auto simp: shared_ops_def shared_held_def rw_spec_cases split: option.splits if_splits intro!: ext)

section \<open>Properties\<close>

text \<open>
  C24. Ownership: after any sequence of operations on its wrappers, moves, swaps and failed attempts
  included, a thread that began with none of the mutexes holds a mutex exactly if one wrapper owns
  it or it was released from one; no two wrappers own the same mutex; and the destructor of every
  wrapper can run.
\<close>
theorem unique_lock_ownership:
  assumes run: "run (wl_step (excl_ops t)) as (wl_init m0) = Some s" and m0: "\<And>p. m0 p \<noteq> Some t"
  shows "of_bool (wl_mutexes s p = Some t) = owned p (wl_wrappers s) + wl_loose s p \<and> owned p (wl_wrappers s) \<le> 1 \<and>
    (w \<in> set (wl_wrappers s) \<longrightarrow> (\<exists>m. ul_destroy (excl_ops t) w (wl_mutexes s) = Some m))"
proof -
  have I: "ul.wl_inv t s" using ul.wl_inv_run [OF run] m0 by (simp add: ul.wl_inv_init excl_held_def)
  then have "of_bool (wl_mutexes s p = Some t) = owned p (wl_wrappers s) + wl_loose s p"
    by (simp add: ul.wl_inv_def excl_held_def)
  moreover from this have "owned p (wl_wrappers s) \<le> 1" by (cases "wl_mutexes s p = Some t") simp_all
  ultimately show ?thesis using ul.ul_destroy_possible [OF I] by blast
qed

text \<open>Locking 5, trying 6, which another thread holds, moving the first wrapper and swapping.\<close>

definition wl_demo :: "wl_op list" where
  "wl_demo = [WConstruct 5, WTryToLock 6, WMove 0, WSwap 1 2, WDefault, WMoveAssign 3 1]"

definition wl_demo_mutexes :: "mutex_ptr \<Rightarrow> tid option" where
  "wl_demo_mutexes p = (if p = 6 then Some 1 else None)"

definition wl_demo_state :: "(mutex_ptr \<Rightarrow> tid option) wl_state" where
  "wl_demo_state = the (run (wl_step (excl_ops 0)) wl_demo (wl_init wl_demo_mutexes))"

lemma wl_demo_runs: "run (wl_step (excl_ops 0)) wl_demo (wl_init wl_demo_mutexes) = Some wl_demo_state"
proof -
  have "\<not> Option.is_none (run (wl_step (excl_ops 0)) wl_demo (wl_init wl_demo_mutexes))" by code_simp
  then show ?thesis by (auto simp: wl_demo_state_def Option.is_none_def)
qed

lemma wl_demo_free: "wl_demo_mutexes p \<noteq> Some 0"
  by (simp add: wl_demo_mutexes_def)

lemma wl_demo_holds: "wl_mutexes wl_demo_state 5 = Some 0"
  by code_simp

theorem unique_lock_ownership_witness:
  "owned 5 (wl_wrappers wl_demo_state) + wl_loose wl_demo_state 5 = 1 \<and> wl_mutexes wl_demo_state 5 = Some 0"
  using unique_lock_ownership [OF wl_demo_runs wl_demo_free, of 5 ul_default] wl_demo_holds by simp

text \<open>
  Scoped locking: a \<open>batch_execute\<close> waits exactly while the lock cannot be had; then it runs its
  function with the lock held and everything else as it was, passes on what the function returned or
  that it threw, and leaves every mutex as it found it. The same on the shared side, where the lock can be
  had while no writer holds it or waits for it, by a thread that reads already too.
\<close>
theorem batch_execute_scoped:
  "batch_execute (excl_ops t) p func (m, d) =
     (if m p = None then (let (r, d') = func (m(p := Some t), d) in Some (r, m, d')) else None) \<and>
   batch_execute (shared_ops t) p func' (rw, d) =
     (if rw_writer (rw p) = None \<and> rw_waiting (rw p) = {#}
      then (let (r, d') = func' (rw(p := (rw p)\<lparr>rw_readers := add_mset t (rw_readers (rw p))\<rparr>), d) in Some (r, rw, d'))
      else None)"
  by (cases "m p"; cases "rw p")
    (auto simp: batch_execute_def guard_construct_def guard_destroy_def excl_ops_def shared_ops_def rw_ok_defs
      fun_upd_idem_iff Let_def split: prod.splits option.splits)

end
