(* ===== verification/Guards.thy ===== *)
theory Guards
  imports Locks
begin

text \<open>
  \<open>SharedLock\<close> of \<^verbatim>\<open>psync_locks.h\<close> and the scoped guards of \<^verbatim>\<open>psync_shared.h\<close>,
  \<^verbatim>\<open>psync_microlock.h\<close>, \<^verbatim>\<open>psync_tagged_ptr.h\<close> and \<^verbatim>\<open>psync_batch.h\<close>. Shown: a \<open>SharedLock\<close> is a
  \<open>UniqueLock\<close> on the shared side of its mutex, with the ownership law that follows; and any nesting of
  guards around code that may throw leaves every mutex as it found it.
\<close>

section \<open>Mutexes with a shared side\<close>

record 'm shared_lock_ops = "'m lock_ops" +
  op_lock_shared :: "mutex_ptr \<Rightarrow> 'm \<Rightarrow> 'm option"
  op_try_lock_shared :: "mutex_ptr \<Rightarrow> 'm \<Rightarrow> (bool \<times> 'm) option"
  op_unlock_shared :: "mutex_ptr \<Rightarrow> 'm \<Rightarrow> 'm option"

definition shared_side :: "('m, 'x) shared_lock_ops_scheme \<Rightarrow> 'm lock_ops" where
  "shared_side ops = \<lparr>op_lock = op_lock_shared ops, op_try_lock = op_try_lock_shared ops, op_unlock = op_unlock_shared ops\<rparr>"

section \<open>SharedLock\<close>

definition sl_default :: wrapper where
  "sl_default = \<lparr>w_mutex = None, w_owns = False\<rparr>"

definition sl_construct :: "'m shared_lock_ops \<Rightarrow> mutex_ptr \<Rightarrow> 'm \<Rightarrow> (wrapper \<times> 'm) option" where
  "sl_construct ops m st = (case op_lock_shared ops m st of
     None \<Rightarrow> None
   | Some st' \<Rightarrow> Some (\<lparr>w_mutex = Some m, w_owns = True\<rparr>, st'))"

definition sl_defer :: "mutex_ptr \<Rightarrow> wrapper" where
  "sl_defer m = \<lparr>w_mutex = Some m, w_owns = False\<rparr>"

definition sl_try_to_lock :: "'m shared_lock_ops \<Rightarrow> mutex_ptr \<Rightarrow> 'm \<Rightarrow> (wrapper \<times> 'm) option" where
  "sl_try_to_lock ops m st = (case op_try_lock_shared ops m st of
     None \<Rightarrow> None
   | Some (ok, st') \<Rightarrow> Some (\<lparr>w_mutex = Some m, w_owns = ok\<rparr>, st'))"

definition sl_adopt :: "mutex_ptr \<Rightarrow> wrapper" where
  "sl_adopt m = \<lparr>w_mutex = Some m, w_owns = True\<rparr>"

definition sl_destroy :: "'m shared_lock_ops \<Rightarrow> wrapper \<Rightarrow> 'm \<Rightarrow> 'm option" where
  "sl_destroy ops w st = (case w_mutex w of
     Some m \<Rightarrow> if w_owns w then op_unlock_shared ops m st else Some st
   | None \<Rightarrow> Some st)"

definition sl_move :: "wrapper \<Rightarrow> wrapper \<times> wrapper" where
  "sl_move other = (\<lparr>w_mutex = w_mutex other, w_owns = w_owns other\<rparr>, other\<lparr>w_mutex := None, w_owns := False\<rparr>)"

definition sl_move_assign ::
    "'m shared_lock_ops \<Rightarrow> bool \<Rightarrow> wrapper \<Rightarrow> wrapper \<Rightarrow> 'm \<Rightarrow> (wrapper \<times> wrapper \<times> 'm) option" where
  "sl_move_assign ops same this other st =
     (if same then Some (this, other, st)
      else (case (case w_mutex this of
               Some m \<Rightarrow> if w_owns this then op_unlock_shared ops m st else Some st
             | None \<Rightarrow> Some st) of
        None \<Rightarrow> None
      | Some st' \<Rightarrow> Some (\<lparr>w_mutex = w_mutex other, w_owns = w_owns other\<rparr>,
                       other\<lparr>w_mutex := None, w_owns := False\<rparr>, st')))"

definition sl_lock :: "'m shared_lock_ops \<Rightarrow> wrapper \<Rightarrow> 'm \<Rightarrow> (wrapper \<times> 'm) option" where
  "sl_lock ops w st = (case w_mutex w of
     Some m \<Rightarrow>
       if \<not> w_owns w then
         (case op_lock_shared ops m st of None \<Rightarrow> None | Some st' \<Rightarrow> Some (w\<lparr>w_owns := True\<rparr>, st'))
       else Some (w, st)
   | None \<Rightarrow> Some (w, st))"

definition sl_try_lock :: "'m shared_lock_ops \<Rightarrow> wrapper \<Rightarrow> 'm \<Rightarrow> (bool \<times> wrapper \<times> 'm) option" where
  "sl_try_lock ops w st = (case w_mutex w of
     Some m \<Rightarrow>
       if \<not> w_owns w then
         (case op_try_lock_shared ops m st of None \<Rightarrow> None | Some (ok, st') \<Rightarrow> Some (ok, w\<lparr>w_owns := ok\<rparr>, st'))
       else Some (False, w, st)
   | None \<Rightarrow> Some (False, w, st))"

definition sl_unlock :: "'m shared_lock_ops \<Rightarrow> wrapper \<Rightarrow> 'm \<Rightarrow> (wrapper \<times> 'm) option" where
  "sl_unlock ops w st = (case w_mutex w of
     Some m \<Rightarrow>
       if w_owns w then
         (case op_unlock_shared ops m st of None \<Rightarrow> None | Some st' \<Rightarrow> Some (w\<lparr>w_owns := False\<rparr>, st'))
       else Some (w, st)
   | None \<Rightarrow> Some (w, st))"

definition sl_release :: "wrapper \<Rightarrow> mutex_ptr option \<times> wrapper" where
  "sl_release w = (w_mutex w, w\<lparr>w_mutex := None, w_owns := False\<rparr>)"

definition sl_swap :: "wrapper \<Rightarrow> wrapper \<Rightarrow> wrapper \<times> wrapper" where
  "sl_swap w other = (\<lparr>w_mutex = w_mutex other, w_owns = w_owns other\<rparr>, \<lparr>w_mutex = w_mutex w, w_owns = w_owns w\<rparr>)"

text \<open>A thread with \<open>SharedLock\<close> objects: the same operations, each by its \<open>SharedLock\<close> version.\<close>

fun sw_step :: "'m shared_lock_ops \<Rightarrow> wl_op \<Rightarrow> 'm wl_state \<Rightarrow> 'm wl_state option" where
  "sw_step ops WDefault s = wl_add (Some (sl_default, wl_mutexes s)) s"
| "sw_step ops (WConstruct m) s = wl_add (sl_construct ops m (wl_mutexes s)) s"
| "sw_step ops (WDefer m) s = wl_add (Some (sl_defer m, wl_mutexes s)) s"
| "sw_step ops (WTryToLock m) s = wl_add (sl_try_to_lock ops m (wl_mutexes s)) s"
| "sw_step ops (WAdopt m) s =
     (if 0 < wl_loose s m
      then wl_add (Some (sl_adopt m, wl_mutexes s)) (s\<lparr>wl_loose := (wl_loose s)(m := wl_loose s m - 1)\<rparr>)
      else None)"
| "sw_step ops (WDestroy i) s =
     (if i < length (wl_wrappers s)
      then map_option (\<lambda>st. s\<lparr>wl_wrappers := take i (wl_wrappers s) @ drop (Suc i) (wl_wrappers s), wl_mutexes := st\<rparr>)
             (sl_destroy ops (wl_wrappers s ! i) (wl_mutexes s))
      else None)"
| "sw_step ops (WMove i) s =
     (if i < length (wl_wrappers s)
      then (let (w, other) = sl_move (wl_wrappers s ! i)
            in Some (s\<lparr>wl_wrappers := (wl_wrappers s)[i := other] @ [w]\<rparr>))
      else None)"
| "sw_step ops (WMoveAssign i j) s =
     (if i < length (wl_wrappers s) \<and> j < length (wl_wrappers s)
      then map_option (\<lambda>(w, other, st). s\<lparr>wl_wrappers := (if i = j then wl_wrappers s else (wl_wrappers s)[i := w, j := other]),
                                         wl_mutexes := st\<rparr>)
             (sl_move_assign ops (i = j) (wl_wrappers s ! i) (wl_wrappers s ! j) (wl_mutexes s))
      else None)"
| "sw_step ops (WLock i) s =
     (if i < length (wl_wrappers s) then wl_set i (sl_lock ops (wl_wrappers s ! i) (wl_mutexes s)) s else None)"
| "sw_step ops (WTryLock i) s =
     (if i < length (wl_wrappers s)
      then wl_set i (map_option snd (sl_try_lock ops (wl_wrappers s ! i) (wl_mutexes s))) s else None)"
| "sw_step ops (WUnlock i) s =
     (if i < length (wl_wrappers s) then wl_set i (sl_unlock ops (wl_wrappers s ! i) (wl_mutexes s)) s else None)"
| "sw_step ops (WRelease i) s =
     (if i < length (wl_wrappers s)
      then (let w = wl_wrappers s ! i; (p, w') = sl_release w;
                loose = (case p of
                   Some m \<Rightarrow> if w_owns w then (wl_loose s)(m := Suc (wl_loose s m)) else wl_loose s
                 | None \<Rightarrow> wl_loose s)
            in Some (s\<lparr>wl_wrappers := (wl_wrappers s)[i := w'], wl_loose := loose\<rparr>))
      else None)"
| "sw_step ops (WSwap i j) s =
     (if i < length (wl_wrappers s) \<and> j < length (wl_wrappers s)
      then (let (w, other) = sl_swap (wl_wrappers s ! i) (wl_wrappers s ! j)
            in Some (s\<lparr>wl_wrappers := (wl_wrappers s)[i := w, j := other]\<rparr>))
      else None)"

named_theorems shared_lock_defs \<open>SharedLock as a UniqueLock on the shared side\<close>

lemma shared_side_sel [simp]:
  "op_lock (shared_side ops) = op_lock_shared ops"
  "op_try_lock (shared_side ops) = op_try_lock_shared ops"
  "op_unlock (shared_side ops) = op_unlock_shared ops"
  by (simp_all add: shared_side_def)

lemma shared_lock_is_unique_lock [shared_lock_defs]:
  "sl_default = ul_default" "sl_construct ops = ul_construct (shared_side ops)" "sl_defer = ul_defer"
  "sl_try_to_lock ops = ul_try_to_lock (shared_side ops)" "sl_adopt = ul_adopt"
  "sl_destroy ops = ul_destroy (shared_side ops)" "sl_move = ul_move"
  "sl_move_assign ops = ul_move_assign (shared_side ops)" "sl_lock ops = ul_lock (shared_side ops)"
  "sl_try_lock ops = ul_try_lock (shared_side ops)" "sl_unlock ops = ul_unlock (shared_side ops)"
  "sl_release = ul_release" "sl_swap = ul_swap"
  by (simp_all add: fun_eq_iff sl_default_def ul_default_def sl_construct_def ul_construct_def
      sl_defer_def ul_defer_def sl_try_to_lock_def ul_try_to_lock_def sl_adopt_def ul_adopt_def sl_destroy_def
      ul_destroy_def sl_move_def ul_move_def sl_move_assign_def ul_move_assign_def sl_lock_def ul_lock_def
      sl_try_lock_def ul_try_lock_def sl_unlock_def ul_unlock_def sl_release_def ul_release_def sl_swap_def ul_swap_def
      cong: option.case_cong if_cong)

lemma sw_step_eq: "sw_step ops = wl_step (shared_side ops)"
proof (intro ext)
  fix x s
  show "sw_step ops x s = wl_step (shared_side ops) x s"
    by (cases x) (simp_all add: shared_lock_defs)
qed

section \<open>The reader/writer mutexes of the library\<close>

text \<open>
  Both sides of the abstract reader/writer lock, as thread \<open>t\<close> calls them while the others stand still: \<open>lock\<close>
  overtakes writers that wait, \<open>lock_shared\<close> does not, and a thread that reads may read again. A call that would
  wait is \<open>None\<close>. The functions of \<open>SharedMutex\<close> do the same to its word, while its fields do not overflow
  (\<open>shared_read_alone\<close>, \<open>shared_write_alone\<close> and the two for the releases).
\<close>

definition rw_ops :: "tid \<Rightarrow> (mutex_ptr \<Rightarrow> rw_state) shared_lock_ops" where
  "rw_ops t = \<lparr>
     op_lock = (\<lambda>p m. map_option (\<lambda>x. m(p := x)) (rw_write t (m p))),
     op_try_lock = (\<lambda>p m. case rw_spec (AcquireWrite t) (m p) of
       Some x \<Rightarrow> Some (True, m(p := x)) | None \<Rightarrow> Some (False, m)),
     op_unlock = (\<lambda>p m. map_option (\<lambda>x. m(p := x)) (rw_spec (ReleaseWrite t) (m p))),
     op_lock_shared = (\<lambda>p m. map_option (\<lambda>x. m(p := x)) (rw_spec (AcquireRead t) (m p))),
     op_try_lock_shared = (\<lambda>p m. case rw_spec (AcquireRead t) (m p) of
       Some x \<Rightarrow> Some (True, m(p := x)) | None \<Rightarrow> Some (False, m)),
     op_unlock_shared = (\<lambda>p m. map_option (\<lambda>x. m(p := x)) (rw_spec (ReleaseRead t) (m p)))\<rparr>"

lemma shared_side_rw: "shared_side (rw_ops t) = shared_ops t"
  by (simp add: shared_side_def rw_ops_def shared_ops_def)

text \<open>The exclusive side, for a \<open>UniqueLock\<close> on such a mutex.\<close>

definition exclusive_side :: "('m, 'x) shared_lock_ops_scheme \<Rightarrow> 'm lock_ops" where
  "exclusive_side ops = \<lparr>op_lock = op_lock ops, op_try_lock = op_try_lock ops, op_unlock = op_unlock ops\<rparr>"

definition writer_held :: "tid \<Rightarrow> (mutex_ptr \<Rightarrow> rw_state) \<Rightarrow> mutex_ptr \<Rightarrow> nat" where
  "writer_held t m p = of_bool (rw_writer (m p) = Some t)"

lemma rw_spec_write_cases:
  "rw_write t x = Some y \<longleftrightarrow> rw_write_ok x \<and> y = x\<lparr>rw_writer := Some t\<rparr>"
  "rw_spec (AcquireWrite t) x = Some y \<longleftrightarrow> rw_write_ok x \<and> rw_waiting x = {#} \<and> y = x\<lparr>rw_writer := Some t\<rparr>"
  "rw_spec (ReleaseWrite t) x = Some y \<longleftrightarrow> rw_writer x = Some t \<and> y = x\<lparr>rw_writer := None\<rparr>"
  by (auto simp: rw_write_eq)

interpretation xl: basic_lockable "exclusive_side (rw_ops t)" "writer_held t" for t
  by unfold_locales
    (auto simp: exclusive_side_def rw_ops_def writer_held_def rw_spec_write_cases rw_ok_defs simp del: rw_spec.simps
      split: option.splits if_splits intro!: ext)

section \<open>The scoped guards\<close>

text \<open>
  One pair of definitions per guard class: the constructor, which locks and keeps the reference, and
  the destructor. A guard can be neither copied nor moved, so its reference is all of its state.
\<close>

definition batch_guard_construct :: "'m shared_lock_ops \<Rightarrow> mutex_ptr \<Rightarrow> 'm \<Rightarrow> (mutex_ptr \<times> 'm) option" where
  "batch_guard_construct ops lock st = map_option (\<lambda>st'. (lock, st')) (op_lock ops lock st)"

definition batch_guard_destroy :: "'m shared_lock_ops \<Rightarrow> mutex_ptr \<Rightarrow> 'm \<Rightarrow> 'm option" where
  "batch_guard_destroy ops g st = op_unlock ops g st"

definition shared_batch_guard_construct :: "'m shared_lock_ops \<Rightarrow> mutex_ptr \<Rightarrow> 'm \<Rightarrow> (mutex_ptr \<times> 'm) option" where
  "shared_batch_guard_construct ops mutex st = map_option (\<lambda>st'. (mutex, st')) (op_lock_shared ops mutex st)"

definition shared_batch_guard_destroy :: "'m shared_lock_ops \<Rightarrow> mutex_ptr \<Rightarrow> 'm \<Rightarrow> 'm option" where
  "shared_batch_guard_destroy ops g st = op_unlock_shared ops g st"

definition exclusive_batch_guard_construct :: "'m shared_lock_ops \<Rightarrow> mutex_ptr \<Rightarrow> 'm \<Rightarrow> (mutex_ptr \<times> 'm) option" where
  "exclusive_batch_guard_construct ops mutex st = map_option (\<lambda>st'. (mutex, st')) (op_lock ops mutex st)"

definition exclusive_batch_guard_destroy :: "'m shared_lock_ops \<Rightarrow> mutex_ptr \<Rightarrow> 'm \<Rightarrow> 'm option" where
  "exclusive_batch_guard_destroy ops g st = op_unlock ops g st"

definition shared_lock_guard_construct :: "'m shared_lock_ops \<Rightarrow> mutex_ptr \<Rightarrow> 'm \<Rightarrow> (mutex_ptr \<times> 'm) option" where
  "shared_lock_guard_construct ops mutex st = map_option (\<lambda>st'. (mutex, st')) (op_lock_shared ops mutex st)"

definition shared_lock_guard_destroy :: "'m shared_lock_ops \<Rightarrow> mutex_ptr \<Rightarrow> 'm \<Rightarrow> 'm option" where
  "shared_lock_guard_destroy ops g st = op_unlock_shared ops g st"

definition unique_lock_guard_construct :: "'m shared_lock_ops \<Rightarrow> mutex_ptr \<Rightarrow> 'm \<Rightarrow> (mutex_ptr \<times> 'm) option" where
  "unique_lock_guard_construct ops mutex st = map_option (\<lambda>st'. (mutex, st')) (op_lock ops mutex st)"

definition unique_lock_guard_destroy :: "'m shared_lock_ops \<Rightarrow> mutex_ptr \<Rightarrow> 'm \<Rightarrow> 'm option" where
  "unique_lock_guard_destroy ops g st = op_unlock ops g st"

definition micro_lock_guard_construct :: "'m shared_lock_ops \<Rightarrow> mutex_ptr \<Rightarrow> 'm \<Rightarrow> (mutex_ptr \<times> 'm) option" where
  "micro_lock_guard_construct ops lock st = map_option (\<lambda>st'. (lock, st')) (op_lock ops lock st)"

definition micro_lock_guard_destroy :: "'m shared_lock_ops \<Rightarrow> mutex_ptr \<Rightarrow> 'm \<Rightarrow> 'm option" where
  "micro_lock_guard_destroy ops g st = op_unlock ops g st"

definition tagged_lock_guard_construct :: "'m shared_lock_ops \<Rightarrow> mutex_ptr \<Rightarrow> 'm \<Rightarrow> (mutex_ptr \<times> 'm) option" where
  "tagged_lock_guard_construct ops ptr st = map_option (\<lambda>st'. (ptr, st')) (op_lock ops ptr st)"

definition tagged_lock_guard_destroy :: "'m shared_lock_ops \<Rightarrow> mutex_ptr \<Rightarrow> 'm \<Rightarrow> 'm option" where
  "tagged_lock_guard_destroy ops g st = op_unlock ops g st"

datatype guard_class =
    GBatchGuard | GSharedBatchGuard | GExclusiveBatchGuard | GSharedLockGuard | GUniqueLockGuard
  | GMicroLockGuard | GTaggedLockGuard

fun class_construct :: "'m shared_lock_ops \<Rightarrow> guard_class \<Rightarrow> mutex_ptr \<Rightarrow> 'm \<Rightarrow> (mutex_ptr \<times> 'm) option" where
  "class_construct ops GBatchGuard = batch_guard_construct ops"
| "class_construct ops GSharedBatchGuard = shared_batch_guard_construct ops"
| "class_construct ops GExclusiveBatchGuard = exclusive_batch_guard_construct ops"
| "class_construct ops GSharedLockGuard = shared_lock_guard_construct ops"
| "class_construct ops GUniqueLockGuard = unique_lock_guard_construct ops"
| "class_construct ops GMicroLockGuard = micro_lock_guard_construct ops"
| "class_construct ops GTaggedLockGuard = tagged_lock_guard_construct ops"

fun class_destroy :: "'m shared_lock_ops \<Rightarrow> guard_class \<Rightarrow> mutex_ptr \<Rightarrow> 'm \<Rightarrow> 'm option" where
  "class_destroy ops GBatchGuard = batch_guard_destroy ops"
| "class_destroy ops GSharedBatchGuard = shared_batch_guard_destroy ops"
| "class_destroy ops GExclusiveBatchGuard = exclusive_batch_guard_destroy ops"
| "class_destroy ops GSharedLockGuard = shared_lock_guard_destroy ops"
| "class_destroy ops GUniqueLockGuard = unique_lock_guard_destroy ops"
| "class_destroy ops GMicroLockGuard = micro_lock_guard_destroy ops"
| "class_destroy ops GTaggedLockGuard = tagged_lock_guard_destroy ops"

text \<open>
  Code under guards: an action on the data, which sees which mutexes are held and may throw; two
  pieces in sequence; a scope with a guard; a handler. A scope destroys its guard on the way out,
  also when its body throws.
\<close>

datatype ('m, 'd) block =
    Act "'m \<Rightarrow> 'd \<Rightarrow> unit outcome \<times> 'd"
  | Then "('m, 'd) block" "('m, 'd) block"
  | Scoped guard_class mutex_ptr "('m, 'd) block"
  | Try "('m, 'd) block" "('m, 'd) block"

fun exec_block :: "'m shared_lock_ops \<Rightarrow> ('m, 'd) block \<Rightarrow> 'm \<Rightarrow> 'd \<Rightarrow> (unit outcome \<times> 'm \<times> 'd) option" where
  "exec_block ops (Act f) m d = (let (r, d') = f m d in Some (r, m, d'))"
| "exec_block ops (Then b c) m d = (case exec_block ops b m d of
     Some (Returned _, m', d') \<Rightarrow> exec_block ops c m' d'
   | r \<Rightarrow> r)"
| "exec_block ops (Scoped k p b) m d = (case class_construct ops k p m of
     None \<Rightarrow> None
   | Some (g, m1) \<Rightarrow> (case exec_block ops b m1 d of
       None \<Rightarrow> None
     | Some (r, m2, d') \<Rightarrow> map_option (\<lambda>m'. (r, m', d')) (class_destroy ops k g m2)))"
| "exec_block ops (Try b c) m d = (case exec_block ops b m d of
     Some (Thrown, m', d') \<Rightarrow> exec_block ops c m' d'
   | r \<Rightarrow> r)"

text \<open>The two helpers for a shared mutex: each has one guard around its function.\<close>

definition batch_execute_shared ::
    "'m shared_lock_ops \<Rightarrow> mutex_ptr \<Rightarrow> ('m \<Rightarrow> 'd \<Rightarrow> unit outcome \<times> 'd) \<Rightarrow> 'm \<Rightarrow> 'd \<Rightarrow> (unit outcome \<times> 'm \<times> 'd) option" where
  "batch_execute_shared ops mutex func m d = exec_block ops (Scoped GSharedLockGuard mutex (Act func)) m d"

definition batch_execute_exclusive ::
    "'m shared_lock_ops \<Rightarrow> mutex_ptr \<Rightarrow> ('m \<Rightarrow> 'd \<Rightarrow> unit outcome \<times> 'd) \<Rightarrow> 'm \<Rightarrow> 'd \<Rightarrow> (unit outcome \<times> 'm \<times> 'd) option" where
  "batch_execute_exclusive ops mutex func m d = exec_block ops (Scoped GUniqueLockGuard mutex (Act func)) m d"

section \<open>Scopes are balanced\<close>

definition reads :: "guard_class \<Rightarrow> bool" where
  "reads k \<longleftrightarrow> k = GSharedBatchGuard \<or> k = GSharedLockGuard"

lemmas guard_defs =
  batch_guard_construct_def batch_guard_destroy_def shared_batch_guard_construct_def shared_batch_guard_destroy_def
  exclusive_batch_guard_construct_def exclusive_batch_guard_destroy_def shared_lock_guard_construct_def
  shared_lock_guard_destroy_def unique_lock_guard_construct_def unique_lock_guard_destroy_def
  micro_lock_guard_construct_def micro_lock_guard_destroy_def tagged_lock_guard_construct_def tagged_lock_guard_destroy_def

text \<open>What a guard needs of its mutex, and the state of the mutex while a guard of thread \<open>t\<close> lives.\<close>

definition guard_free :: "guard_class \<Rightarrow> rw_state \<Rightarrow> bool" where
  "guard_free k x \<longleftrightarrow> rw_writer x = None \<and> (if reads k then rw_waiting x = {#} else rw_readers x = {#})"

definition guard_held :: "tid \<Rightarrow> guard_class \<Rightarrow> rw_state \<Rightarrow> rw_state" where
  "guard_held t k x = (if reads k then x\<lparr>rw_readers := add_mset t (rw_readers x)\<rparr> else x\<lparr>rw_writer := Some t\<rparr>)"

lemma class_construct_rw:
  "class_construct (rw_ops t) k p m = (if guard_free k (m p) then Some (p, m(p := guard_held t k (m p))) else None)"
  by (cases k)
    (auto simp: guard_defs rw_ops_def guard_free_def guard_held_def reads_def rw_write_eq rw_ok_defs)

lemma class_destroy_rw: "guard_free k (m p) \<Longrightarrow> class_destroy (rw_ops t) k p (m(p := guard_held t k (m p))) = Some m"
  by (cases k; cases "m p")
    (auto simp: guard_defs rw_ops_def guard_free_def guard_held_def reads_def fun_upd_idem_iff)

lemma exec_block_balanced: "exec_block (rw_ops t) b m d = Some (r, m', d') \<Longrightarrow> m' = m"
proof (induction b arbitrary: m d r m' d')
  case (Act f)
  then show ?case by (auto split: prod.splits)
next
  case (Then b c)
  from Then.prems show ?case
    by (auto split: option.splits outcome.splits dest!: Then.IH)
next
  case (Scoped k p b)
  from Scoped.prems obtain x where free: "guard_free k (m p)"
    and body: "exec_block (rw_ops t) b (m(p := guard_held t k (m p))) d = Some (r, x, d')"
    and out: "class_destroy (rw_ops t) k p x = Some m'"
    by (auto simp: class_construct_rw simp del: fun_upd_apply split: option.splits if_splits)
  from out have "Some m = Some m'" unfolding Scoped.IH [OF body] class_destroy_rw [of k m p, OF free] .
  then show ?case by simp
next
  case (Try b c)
  from Try.prems show ?case
    by (auto split: option.splits outcome.splits dest!: Try.IH)
qed

lemma exec_scoped:
  "exec_block (rw_ops t) (Scoped k p b) m d =
     (if guard_free k (m p)
      then map_option (\<lambda>(r, _, d'). (r, m, d')) (exec_block (rw_ops t) b (m(p := guard_held t k (m p))) d)
      else None)"
  by (auto simp: class_construct_rw class_destroy_rw split: option.splits dest!: exec_block_balanced)

section \<open>Properties\<close>

text \<open>
  C35. Every scoped guard, around any code, further guards, handlers and exceptions included, the other
  threads standing still: a shared guard waits exactly while a writer holds its mutex or waits for it, an
  exclusive one exactly while anybody holds it. Otherwise the scope runs the code with the mutex held in the
  guard's mode, once more for a thread that reads already, and every other mutex as it was; it passes on the
  outcome, and leaves all mutexes as it found them.
\<close>
theorem guards_scoped:
  "exec_block (rw_ops t) (Scoped k p b) m d =
     (if guard_free k (m p)
      then map_option (\<lambda>(r, _, d'). (r, m, d')) (exec_block (rw_ops t) b (m(p := guard_held t k (m p))) d)
      else None)"
  by (rule exec_scoped)

text \<open>
  Guards of one thread inside one another, on the same mutex: shared ones run, with the mutex read twice; where
  one of the two is exclusive, the inner one waits for its own thread.
\<close>

theorem guards_nested:
  "exec_block (rw_ops t) (Scoped k p (Scoped k' p b)) m d =
     (if reads k \<and> reads k' \<and> guard_free k (m p)
      then map_option (\<lambda>(r, _, d'). (r, m, d'))
             (exec_block (rw_ops t) b (m(p := (m p)\<lparr>rw_readers := add_mset t (add_mset t (rw_readers (m p)))\<rparr>)) d)
      else None)"
  by (auto simp: exec_scoped guard_free_def guard_held_def option.map_comp o_def split_beta
      intro!: option.map_cong simp del: exec_block.simps(3))

text \<open>The helpers for a shared mutex: readers share it with each other, the exclusive one has it alone.\<close>

lemma batch_execute_modes:
  "batch_execute_shared (rw_ops t) p func m d =
     (if rw_writer (m p) = None \<and> rw_waiting (m p) = {#}
      then (let (r, d') = func (m(p := (m p)\<lparr>rw_readers := add_mset t (rw_readers (m p))\<rparr>)) d in Some (r, m, d'))
      else None)"
  "batch_execute_exclusive (rw_ops t) p func m d =
     (if rw_writer (m p) = None \<and> rw_readers (m p) = {#}
      then (let (r, d') = func (m(p := (m p)\<lparr>rw_writer := Some t\<rparr>)) d in Some (r, m, d')) else None)"
  by (simp_all add: batch_execute_shared_def batch_execute_exclusive_def exec_scoped guard_free_def guard_held_def reads_def
      Let_def split_beta del: exec_block.simps(3))

text \<open>
  Ownership of shared locks: after any sequence of operations on its \<open>SharedLock\<close> objects a thread
  that began as no reader of any mutex is a reader of a mutex as many times as objects own it or it was released
  from one, and each destructor can run. Several objects may own the same mutex.
\<close>
theorem shared_lock_ownership:
  assumes run: "run (sw_step (rw_ops t)) as (wl_init m0) = Some s" and m0: "\<And>p. t \<notin># rw_readers (m0 p)"
  shows "count (rw_readers (wl_mutexes s p)) t = owned p (wl_wrappers s) + wl_loose s p \<and>
    (w \<in> set (wl_wrappers s) \<longrightarrow> (\<exists>m. sl_destroy (rw_ops t) w (wl_mutexes s) = Some m))"
proof -
  have "run (wl_step (shared_ops t)) as (wl_init m0) = Some s"
    using run by (simp add: sw_step_eq shared_side_rw)
  then have I: "sl.wl_inv t s" using sl.wl_inv_run m0 by (simp add: sl.wl_inv_init shared_held_def not_in_iff)
  then have "count (rw_readers (wl_mutexes s p)) t = owned p (wl_wrappers s) + wl_loose s p"
    by (simp add: sl.wl_inv_def shared_held_def)
  then show ?thesis
    using sl.ul_destroy_possible [OF I] by (simp add: shared_lock_defs shared_side_rw)
qed

text \<open>Reading 5 twice, failing on 6, which a writer holds, moving and swapping.\<close>

definition sl_demo :: "wl_op list" where
  "sl_demo = [WConstruct 5, WConstruct 5, WTryToLock 6, WMove 0, WSwap 1 2]"

definition sl_demo_mutexes :: "mutex_ptr \<Rightarrow> rw_state" where
  "sl_demo_mutexes p = (if p = 6 then rw_free\<lparr>rw_writer := Some 1\<rparr> else rw_free)"

definition sl_demo_state :: "(mutex_ptr \<Rightarrow> rw_state) wl_state" where
  "sl_demo_state = the (run (sw_step (rw_ops 0)) sl_demo (wl_init sl_demo_mutexes))"

lemma sl_demo_runs: "run (sw_step (rw_ops 0)) sl_demo (wl_init sl_demo_mutexes) = Some sl_demo_state"
proof -
  have "\<not> Option.is_none (run (sw_step (rw_ops 0)) sl_demo (wl_init sl_demo_mutexes))" by code_simp
  then show ?thesis by (auto simp: sl_demo_state_def Option.is_none_def)
qed

lemma sl_demo_free: "0 \<notin># rw_readers (sl_demo_mutexes p)"
  by (simp add: sl_demo_mutexes_def rw_free_def)

lemma sl_demo_reads: "count (rw_readers (wl_mutexes sl_demo_state 5)) 0 = 2"
  by code_simp

theorem shared_lock_ownership_witness:
  "owned 5 (wl_wrappers sl_demo_state) + wl_loose sl_demo_state 5 = 2"
  using shared_lock_ownership [OF sl_demo_runs sl_demo_free, of 5 sl_default] sl_demo_reads by simp

text \<open>
  \<open>SharedLock\<close> is \<open>UniqueLock\<close> with the functions of the shared side in place of the exclusive ones:
  every sequence of operations has the same result and the same effect.
\<close>
theorem shared_lock_equivalent: "run (sw_step ops) as s = run (wl_step (shared_side ops)) as s"
  by (simp add: sw_step_eq)

text \<open>The same ownership for a \<open>UniqueLock\<close> on the exclusive side of such a mutex.\<close>

theorem exclusive_lock_ownership:
  assumes "run (wl_step (exclusive_side (rw_ops t))) as (wl_init m0) = Some s" "\<And>p. rw_writer (m0 p) \<noteq> Some t"
  shows "of_bool (rw_writer (wl_mutexes s p) = Some t) = owned p (wl_wrappers s) + wl_loose s p"
proof -
  have "xl.wl_inv t s" using xl.wl_inv_run [OF assms(1)] assms(2) by (simp add: xl.wl_inv_init writer_held_def)
  then show ?thesis by (simp add: xl.wl_inv_def writer_held_def)
qed

end
