(* ===== verification/Epoch.thy ===== *)
theory Epoch
  imports Futex
begin

text \<open>
  \<^verbatim>\<open>psync_epoch.h\<close>: epoch-based reclamation, one step per access to the shared words, with the
  clients it is for: readers that collect references inside a critical section, and writers that
  unlink a node and retire it. Shown: under sequentially consistent memory and as long as no
  thread had to share slot 0, no reader holds a reference to a node that was deleted.
\<close>

section \<open>The manager and its clients\<close>

definition kInactiveEpoch :: u64 where "kInactiveEpoch = 0xFFFFFFFFFFFFFFFF"
definition kMaxThreads :: nat where "kMaxThreads = 128"

text \<open>
  Nodes are numbers. \<open>ep_active\<close> and \<open>ep_used\<close> are the thread slots; \<open>ep_retired\<close> the retired
  nodes with their epochs, newest first, as the list the pointers from \<open>retired_head_\<close> run
  through. \<open>ep_linked\<close> are the nodes of the clients' structure. Auxiliary: \<open>g_epoch\<close> counts the
  epochs without wrap-around, \<open>g_label\<close> is the epoch a node was retired with, \<open>g_freed\<close> the
  deleted nodes, \<open>g_shared\<close> whether a registration fell back to slot 0.
\<close>

record ep_mem =
  ep_global :: u64
  ep_active :: "u64 list"
  ep_used :: "bool list"
  ep_retired :: "(nat \<times> u64) list"
  ep_linked :: "nat \<Rightarrow> bool"
  g_epoch :: nat
  g_label :: "nat \<Rightarrow> nat option"
  g_freed :: "nat \<Rightarrow> bool"
  g_shared :: bool

text \<open>
  The points: registration (\<open>EpReg\<close>, at a slot of the loop), \<open>unregister_thread\<close>, \<open>enter\<close>, \<open>exit\<close>, a
  client's read and unlink, \<open>retire\<close>, and \<open>try_reclaim\<close> (\<open>EpUse\<close> and \<open>EpScan\<close> at a slot of the scan,
  with \<open>current\<close> and \<open>min_epoch\<close>).
\<close>

datatype ep_point =
    EpOut
  | EpReg nat
  | EpUnregActive
  | EpUnregUsed
  | EpEnterLoad
  | EpEnterStore u64
  | EpExit
  | EpRead nat
  | EpUnlink nat
  | EpRetLoad nat
  | EpRetInsert nat u64
  | EpRecLoad
  | EpUse nat u64 u64
  | EpScan nat u64 u64
  | EpAdvance u64 u64
  | EpFree u64

text \<open>
  A thread has its slot, whether it is inside a critical section, and the nodes it has references
  to there.
\<close>

record ep_pc =
  ep_slot :: "nat option"
  ep_inside :: bool
  ep_refs :: "nat list"
  ep_at :: ep_point

datatype ep_op =
  EpRegister | EpUnregister | EpEnter | EpLeave | EpReadNode nat | EpUnlinkNode nat | EpTryReclaim

text \<open>
  What the clients respect: a slot is asked for once, and entered by the thread that has it; nodes
  are read inside; references are given up before \<open>exit\<close>. Any thread may unlink, retire and reclaim.
\<close>

definition ep_start :: "ep_op \<Rightarrow> ep_pc \<Rightarrow> ep_pc option" where
  "ep_start op l =
     (if ep_at l \<noteq> EpOut then None
      else case op of
        EpRegister \<Rightarrow> if ep_slot l = None then Some (l\<lparr>ep_at := EpReg 0\<rparr>) else None
      | EpUnregister \<Rightarrow>
          if ep_slot l \<noteq> None \<and> \<not> ep_inside l then Some (l\<lparr>ep_at := EpUnregActive\<rparr>) else None
      | EpEnter \<Rightarrow>
          if ep_slot l \<noteq> None \<and> \<not> ep_inside l then Some (l\<lparr>ep_at := EpEnterLoad\<rparr>) else None
      | EpLeave \<Rightarrow> if ep_inside l then Some (l\<lparr>ep_refs := [], ep_at := EpExit\<rparr>) else None
      | EpReadNode p \<Rightarrow> if ep_inside l then Some (l\<lparr>ep_at := EpRead p\<rparr>) else None
      | EpUnlinkNode p \<Rightarrow> Some (l\<lparr>ep_at := EpUnlink p\<rparr>)
      | EpTryReclaim \<Rightarrow> Some (l\<lparr>ep_at := EpRecLoad\<rparr>))"

definition ep_out :: "ep_pc \<Rightarrow> ep_pc" where
  "ep_out l = l\<lparr>ep_at := EpOut\<rparr>"

text \<open>\<open>slot < kMaxThreads\<close> is the test of the code; a slot it does not pass makes the call do nothing.\<close>

definition ep_set_active :: "nat option \<Rightarrow> u64 \<Rightarrow> ep_mem \<Rightarrow> ep_mem" where
  "ep_set_active slot e m = (case slot of
     Some i \<Rightarrow> if i < kMaxThreads then m\<lparr>ep_active := (ep_active m)[i := e]\<rparr> else m
   | None \<Rightarrow> m)"

definition ep_set_used :: "nat option \<Rightarrow> bool \<Rightarrow> ep_mem \<Rightarrow> ep_mem" where
  "ep_set_used slot b m = (case slot of
     Some i \<Rightarrow> if i < kMaxThreads then m\<lparr>ep_used := (ep_used m)[i := b]\<rparr> else m
   | None \<Rightarrow> m)"

text \<open>The deletion loop, under the mutex: what was retired before \<open>min_epoch\<close> is taken out and deleted.\<close>

definition ep_free_before :: "u64 \<Rightarrow> ep_mem \<Rightarrow> ep_mem" where
  "ep_free_before min_epoch m = m\<lparr>
     ep_retired := filter (\<lambda>(p, e). \<not> e < min_epoch) (ep_retired m),
     g_freed := (\<lambda>p. g_freed m p \<or> (\<exists>e \<in> set (map snd (filter (\<lambda>x. fst x = p) (ep_retired m))). e < min_epoch))\<rparr>"

definition ep_scan_next :: "nat \<Rightarrow> u64 \<Rightarrow> u64 \<Rightarrow> ep_point" where
  "ep_scan_next i current min_epoch =
     (if Suc i < kMaxThreads then EpUse (Suc i) current min_epoch else EpAdvance current min_epoch)"

definition ep_exec :: "ep_mem \<Rightarrow> ep_pc \<Rightarrow> (ep_mem \<times> ep_pc \<times> keff) option" where
  "ep_exec m l = (case ep_at l of
     EpOut \<Rightarrow> None
   | EpReg i \<Rightarrow>
       if i < kMaxThreads then
         (if \<not> ep_used m ! i
          then Some (m\<lparr>ep_used := (ep_used m)[i := True]\<rparr>, ep_out (l\<lparr>ep_slot := Some i\<rparr>), KNone)
          else Some (m, l\<lparr>ep_at := EpReg (Suc i)\<rparr>, KNone))
       else Some (m\<lparr>g_shared := True\<rparr>, ep_out (l\<lparr>ep_slot := Some 0\<rparr>), KNone)
   | EpUnregActive \<Rightarrow> Some (ep_set_active (ep_slot l) kInactiveEpoch m, l\<lparr>ep_at := EpUnregUsed\<rparr>, KNone)
   | EpUnregUsed \<Rightarrow> Some (ep_set_used (ep_slot l) False m, ep_out (l\<lparr>ep_slot := None\<rparr>), KNone)
   | EpEnterLoad \<Rightarrow> Some (m, l\<lparr>ep_at := EpEnterStore (ep_global m)\<rparr>, KNone)
   | EpEnterStore e \<Rightarrow> Some (ep_set_active (ep_slot l) e m, ep_out (l\<lparr>ep_inside := True\<rparr>), KNone)
   | EpExit \<Rightarrow> Some (ep_set_active (ep_slot l) kInactiveEpoch m, ep_out (l\<lparr>ep_inside := False\<rparr>), KNone)
   | EpRead p \<Rightarrow>
       if ep_linked m p then Some (m, ep_out (l\<lparr>ep_refs := p # ep_refs l\<rparr>), KNone)
       else Some (m, ep_out l, KNone)
   | EpUnlink p \<Rightarrow>
       if ep_linked m p then Some (m\<lparr>ep_linked := (ep_linked m)(p := False)\<rparr>, l\<lparr>ep_at := EpRetLoad p\<rparr>, KNone)
       else Some (m, ep_out l, KNone)
   | EpRetLoad p \<Rightarrow>
       Some (m\<lparr>g_label := (g_label m)(p := Some (g_epoch m))\<rparr>, l\<lparr>ep_at := EpRetInsert p (ep_global m)\<rparr>, KNone)
   | EpRetInsert p e \<Rightarrow> Some (m\<lparr>ep_retired := (p, e) # ep_retired m\<rparr>, ep_out l, KNone)
   | EpRecLoad \<Rightarrow> Some (m, l\<lparr>ep_at := EpUse 0 (ep_global m) (ep_global m)\<rparr>, KNone)
   | EpUse i current min_epoch \<Rightarrow>
       Some (m, l\<lparr>ep_at := if ep_used m ! i then EpScan i current min_epoch
                           else ep_scan_next i current min_epoch\<rparr>, KNone)
   | EpScan i current min_epoch \<Rightarrow>
       (let e = ep_active m ! i
        in Some (m, l\<lparr>ep_at := ep_scan_next i current
             (if e \<noteq> kInactiveEpoch \<and> e < min_epoch then e else min_epoch)\<rparr>, KNone))
   | EpAdvance current min_epoch \<Rightarrow>
       Some (if min_epoch = current then m\<lparr>ep_global := ep_global m + 1, g_epoch := Suc (g_epoch m)\<rparr> else m,
             l\<lparr>ep_at := EpFree min_epoch\<rparr>, KNone)
   | EpFree min_epoch \<Rightarrow> Some (ep_free_before min_epoch m, ep_out l, KNone))"

definition ep_step :: "ep_op act \<Rightarrow> (ep_mem, ep_pc) fsys \<Rightarrow> (ep_mem, ep_pc) fsys option" where
  "ep_step = sys_step ep_exec ep_start"

definition ep_mem0 :: "(nat \<Rightarrow> bool) \<Rightarrow> ep_mem" where
  "ep_mem0 nodes = \<lparr>ep_global = 1, ep_active = replicate kMaxThreads kInactiveEpoch,
     ep_used = replicate kMaxThreads False, ep_retired = [], ep_linked = nodes,
     g_epoch = 1, g_label = \<lambda>_. None, g_freed = \<lambda>_. False, g_shared = False\<rparr>"

definition ep_thread0 :: ep_pc where
  "ep_thread0 = \<lparr>ep_slot = None, ep_inside = False, ep_refs = [], ep_at = EpOut\<rparr>"

definition ep_init :: "(nat \<Rightarrow> bool) \<Rightarrow> nat \<Rightarrow> (ep_mem, ep_pc) fsys" where
  "ep_init nodes n = sys_init (ep_mem0 nodes) ep_thread0 n"

abbreviation ep_reachable :: "(nat \<Rightarrow> bool) \<Rightarrow> nat \<Rightarrow> (ep_mem, ep_pc) fsys \<Rightarrow> bool" where
  "ep_reachable nodes n \<equiv> reachable ep_step (ep_init nodes n)"

lemma ep_exec_plain: "ep_exec m l = Some (m', l', k) \<Longrightarrow> k = KNone"
  by (cases "ep_at l") (auto simp: ep_exec_def Let_def split: if_splits)

interpretation ep: futex_client ep_exec ep_start "\<lambda>_. False" ep_thread0
  by unfold_locales (auto dest: ep_exec_plain)

section \<open>The invariant\<close>

text \<open>The invariant speaks of runs without a fallback and without wrap-around of the epoch.\<close>

definition ep_ok :: "ep_mem \<Rightarrow> bool" where
  "ep_ok m \<longleftrightarrow> \<not> g_shared m \<and> g_epoch m < 2 ^ 64 - 1"

text \<open>
  The nodes: linked, on their way from \<open>unlink\<close> to the load of their epoch (by one thread), or
  labelled; a labelled one is on its way into the list (by one thread), in it once, or deleted, no
  two of these; the labels are the epochs in the list.
\<close>

definition ep_listed :: "ep_mem \<Rightarrow> nat \<Rightarrow> nat" where
  "ep_listed m p = length (filter (\<lambda>x. fst x = p) (ep_retired m))"

definition ep_nodes :: "ep_mem \<Rightarrow> ep_pc list \<Rightarrow> bool" where
  "ep_nodes m ls \<longleftrightarrow> length (ep_active m) = kMaxThreads \<and> length (ep_used m) = kMaxThreads \<and>
     (\<forall>p. cnt (\<lambda>l. ep_at l = EpRetLoad p) ls + of_bool (ep_linked m p) + of_bool (g_label m p \<noteq> None) \<le> (1 :: nat)) \<and>
     (\<forall>p. cnt (\<lambda>l. \<exists>e. ep_at l = EpRetInsert p e) ls + ep_listed m p + of_bool (g_freed m p) \<le> of_bool (g_label m p \<noteq> None)) \<and>
     (\<forall>x \<in> set (ep_retired m). g_label m (fst x) = Some (unat (snd x)))"

text \<open>What a point says of its own values.\<close>

definition ep_point_ok :: "ep_mem \<Rightarrow> ep_pc \<Rightarrow> bool" where
  "ep_point_ok m l \<longleftrightarrow> (case ep_at l of
     EpOut \<Rightarrow> True
   | EpReg i \<Rightarrow> ep_slot l = None \<and> \<not> ep_inside l
   | EpUnregActive \<Rightarrow> ep_slot l \<noteq> None \<and> \<not> ep_inside l
   | EpUnregUsed \<Rightarrow> ep_slot l \<noteq> None \<and> \<not> ep_inside l
   | EpEnterLoad \<Rightarrow> ep_slot l \<noteq> None \<and> \<not> ep_inside l
   | EpEnterStore e \<Rightarrow> ep_slot l \<noteq> None \<and> \<not> ep_inside l \<and> unat e \<le> g_epoch m
   | EpExit \<Rightarrow> ep_inside l \<and> ep_refs l = []
   | EpRead p \<Rightarrow> ep_inside l
   | EpUnlink p \<Rightarrow> True
   | EpRetLoad p \<Rightarrow> True
   | EpRetInsert p e \<Rightarrow> g_label m p = Some (unat e)
   | EpRecLoad \<Rightarrow> True
   | EpUse i c e \<Rightarrow> i < kMaxThreads \<and> unat e \<le> unat c \<and> unat c \<le> g_epoch m
   | EpScan i c e \<Rightarrow> i < kMaxThreads \<and> unat e \<le> unat c \<and> unat c \<le> g_epoch m
   | EpAdvance c e \<Rightarrow> unat e \<le> unat c \<and> unat c \<le> g_epoch m
   | EpFree e \<Rightarrow> unat e \<le> g_epoch m)"

text \<open>
  A reader's slot says an epoch that is not after the label of any node it has a reference to; and
  none of these is deleted.
\<close>

definition ep_reader_ok :: "ep_mem \<Rightarrow> ep_pc \<Rightarrow> bool" where
  "ep_reader_ok m l \<longleftrightarrow>
     (\<forall>i. ep_slot l = Some i \<longrightarrow> i < kMaxThreads \<and> ep_used m ! i) \<and>
     (if ep_inside l
      then (\<exists>i. ep_slot l = Some i \<and> unat (ep_active m ! i) \<le> g_epoch m \<and>
        (\<forall>p \<in> set (ep_refs l). \<not> g_freed m p \<and> (\<forall>e. g_label m p = Some e \<longrightarrow> unat (ep_active m ! i) \<le> e)))
      else ep_refs l = [])"

text \<open>What a scan has found out about the slots it has visited.\<close>

definition ep_visited :: "ep_pc \<Rightarrow> nat \<Rightarrow> u64 option" where
  "ep_visited v j = (case ep_at v of
     EpUse i c e \<Rightarrow> if j < i then Some e else None
   | EpScan i c e \<Rightarrow> if j < i then Some e else None
   | EpAdvance c e \<Rightarrow> Some e
   | EpFree e \<Rightarrow> Some e
   | _ \<Rightarrow> None)"

definition ep_pair :: "ep_mem \<Rightarrow> ep_pc \<Rightarrow> ep_pc \<Rightarrow> bool" where
  "ep_pair m u v \<longleftrightarrow> (\<forall>j w. ep_inside u \<and> ep_slot u = Some j \<and> ep_visited v j = Some w \<longrightarrow>
     (\<forall>p \<in> set (ep_refs u). \<forall>e. g_label m p = Some e \<longrightarrow> unat w \<le> e))"

definition ep_apart :: "ep_pc \<Rightarrow> ep_pc \<Rightarrow> bool" where
  "ep_apart u v \<longleftrightarrow> (ep_slot u \<noteq> None \<longrightarrow> ep_slot u \<noteq> ep_slot v)"

definition ep_inv :: "ep_mem \<Rightarrow> ep_pc list \<Rightarrow> bool" where
  "ep_inv m ls \<longleftrightarrow> ep_global m = word_of_nat (g_epoch m) \<and>
     (ep_ok m \<longrightarrow> ep_nodes m ls \<and>
       (\<forall>t < length ls. ep_point_ok m (ls ! t) \<and> ep_reader_ok m (ls ! t)) \<and>
       (\<forall>u < length ls. \<forall>v < length ls. ep_pair m (ls ! u) (ls ! v) \<and> (u \<noteq> v \<longrightarrow> ep_apart (ls ! u) (ls ! v))))"

section \<open>The steps keep the invariant\<close>

lemmas ep_inv_defs = ep_point_ok_def ep_reader_ok_def ep_pair_def ep_apart_def ep_visited_def

lemma ep_set_simps [simp]:
  "ep_global (ep_set_active s e m) = ep_global m" "ep_used (ep_set_active s e m) = ep_used m"
  "ep_retired (ep_set_active s e m) = ep_retired m" "ep_linked (ep_set_active s e m) = ep_linked m"
  "g_epoch (ep_set_active s e m) = g_epoch m" "g_label (ep_set_active s e m) = g_label m"
  "g_freed (ep_set_active s e m) = g_freed m" "g_shared (ep_set_active s e m) = g_shared m"
  "length (ep_active (ep_set_active s e m)) = length (ep_active m)"
  "ep_global (ep_set_used s b m) = ep_global m" "ep_active (ep_set_used s b m) = ep_active m"
  "ep_retired (ep_set_used s b m) = ep_retired m" "ep_linked (ep_set_used s b m) = ep_linked m"
  "g_epoch (ep_set_used s b m) = g_epoch m" "g_label (ep_set_used s b m) = g_label m"
  "g_freed (ep_set_used s b m) = g_freed m" "g_shared (ep_set_used s b m) = g_shared m"
  "length (ep_used (ep_set_used s b m)) = length (ep_used m)"
  by (simp_all add: ep_set_active_def ep_set_used_def split: option.split)

lemma ep_free_simps [simp]:
  "ep_global (ep_free_before w m) = ep_global m" "ep_used (ep_free_before w m) = ep_used m"
  "ep_active (ep_free_before w m) = ep_active m" "ep_linked (ep_free_before w m) = ep_linked m"
  "g_epoch (ep_free_before w m) = g_epoch m" "g_label (ep_free_before w m) = g_label m"
  "g_shared (ep_free_before w m) = g_shared m"
  "ep_retired (ep_free_before w m) = filter (\<lambda>(p, e). \<not> e < w) (ep_retired m)"
  by (simp_all add: ep_free_before_def)

lemma ep_freed: "g_freed (ep_free_before w m) p \<longleftrightarrow> g_freed m p \<or> (\<exists>e. (p, e) \<in> set (ep_retired m) \<and> e < w)"
  by (force simp: ep_free_before_def)

lemma ep_set_active_other: "s \<noteq> Some j \<Longrightarrow> ep_active (ep_set_active s e m) ! j = ep_active m ! j"
  by (cases s) (auto simp: ep_set_active_def)

lemma ep_set_active_own: "j < kMaxThreads \<Longrightarrow> j < length (ep_active m) \<Longrightarrow>
    ep_active (ep_set_active (Some j) e m) ! j = e"
  by (simp add: ep_set_active_def)

lemma ep_set_used_other: "s \<noteq> Some j \<Longrightarrow> ep_used (ep_set_used s b m) ! j = ep_used m ! j"
  by (cases s) (auto simp: ep_set_used_def)

lemma nth_True_update: "xs ! i \<Longrightarrow> \<not> xs ! j \<Longrightarrow> xs[j := True] ! i"
  by (cases "i = j") auto

lemma ep_out_simps [simp]:
  "ep_slot (ep_out l) = ep_slot l" "ep_inside (ep_out l) = ep_inside l" "ep_refs (ep_out l) = ep_refs l"
  "ep_at (ep_out l) = EpOut"
  by (simp_all add: ep_out_def)

lemma ep_exec_mono:
  assumes "ep_exec m l = Some (m', l', k)"
  shows "g_epoch m \<le> g_epoch m'" "ep_ok m' \<Longrightarrow> ep_ok m"
    "ep_global m = word_of_nat (g_epoch m) \<Longrightarrow> ep_global m' = word_of_nat (g_epoch m')"
  using assms by (cases "ep_at l"; auto simp: ep_exec_def ep_ok_def Let_def split: if_splits)+

text \<open>What of \<open>ep_nodes\<close> the acting thread needs.\<close>

definition ep_mem_ok :: "ep_mem \<Rightarrow> ep_pc \<Rightarrow> bool" where
  "ep_mem_ok m l \<longleftrightarrow> length (ep_active m) = kMaxThreads \<and> length (ep_used m) = kMaxThreads \<and>
     unat (ep_global m) = g_epoch m \<and> g_epoch m < 2 ^ 64 - 1 \<and> \<not> g_shared m \<and>
     (\<forall>p. ep_linked m p \<longrightarrow> g_label m p = None) \<and>
     (\<forall>p. ep_at l = EpRetLoad p \<longrightarrow> g_label m p = None) \<and>
     (\<forall>p e. (p, e) \<in> set (ep_retired m) \<longrightarrow> g_label m p = Some (unat e)) \<and>
     (\<forall>p. g_freed m p \<longrightarrow> g_label m p \<noteq> None)"

lemma ep_mem_okI:
  assumes "ep_ok m" "ep_nodes m ls" "ep_global m = word_of_nat (g_epoch m)" "t < length ls"
  shows "ep_mem_ok m (ls ! t)"
proof -
  have one: "cnt (\<lambda>l. ep_at l = EpRetLoad p) ls + of_bool (ep_linked m p) + of_bool (g_label m p \<noteq> None) \<le> (1 :: nat)" for p
    using assms(2) by (simp add: ep_nodes_def)
  have "g_label m p = None" if "ep_linked m p" for p
    using one [of p] that by (cases "g_label m p") auto
  moreover have "g_label m p = None" if "ep_at (ls ! t) = EpRetLoad p" for p
    using one [of p] cnt_pos [of t ls "\<lambda>l. ep_at l = EpRetLoad p"] that assms(4)
    by (cases "g_label m p") auto
  moreover have "g_label m p \<noteq> None" if "g_freed m p" for p
  proof -
    have "ep_listed m p + of_bool (g_freed m p) \<le> (of_bool (g_label m p \<noteq> None) :: nat)"
      using assms(2) unfolding ep_nodes_def by (meson le_add2 le_trans add_le_mono1)
    with that show ?thesis
      by (cases "g_label m p") auto
  qed
  moreover have "unat (ep_global m) = g_epoch m"
    using assms(1,3) by (simp add: ep_ok_def unat_of_nat)
  ultimately show ?thesis
    using assms(1,2) unfolding ep_mem_ok_def ep_nodes_def ep_ok_def by fastforce
qed

lemma ep_not_freed_by:
  assumes "ep_mem_ok m l" "ep_at l = EpFree w" "\<not> g_freed m p" "\<And>e. g_label m p = Some e \<Longrightarrow> unat w \<le> e"
  shows "\<not> g_freed (ep_free_before w m) p"
  using assms by (fastforce simp: ep_freed ep_mem_ok_def word_less_nat_alt)

lemma ep_own_point:
  assumes "ep_exec m l = Some (m', l', k)" "ep_ok m'" "ep_mem_ok m l" "ep_point_ok m l"
  shows "ep_point_ok m' l'"
  using assms by (cases "ep_at l";
    auto simp: ep_exec_def ep_point_ok_def ep_mem_ok_def ep_ok_def ep_scan_next_def Let_def kMaxThreads_def
      word_less_nat_alt split: if_splits)

lemma ep_own_reader:
  assumes "ep_exec m l = Some (m', l', k)" "ep_ok m'" "ep_mem_ok m l" "ep_point_ok m l" "ep_reader_ok m l"
    "ep_pair m l l"
  shows "ep_reader_ok m' l'"
proof (cases "ep_at l")
  case (EpFree w)
  have "\<not> g_freed (ep_free_before w m) p" if "ep_inside l" "p \<in> set (ep_refs l)" for p
    by (rule ep_not_freed_by [OF assms(3) EpFree])
      (use assms(5,6) that EpFree in \<open>auto simp: ep_reader_ok_def ep_pair_def ep_visited_def\<close>)
  with EpFree assms(1,5) show ?thesis
    by (auto simp: ep_exec_def ep_reader_ok_def)
next
  case (EpReg i)
  with assms show ?thesis
    by (auto simp: ep_exec_def ep_reader_ok_def ep_point_ok_def ep_mem_ok_def ep_ok_def split: if_splits)
next
  case (EpEnterStore e)
  with assms show ?thesis
    by (auto simp: ep_exec_def ep_reader_ok_def ep_point_ok_def ep_mem_ok_def ep_set_active_own)
next
  case (EpRead p)
  with assms show ?thesis
    by (fastforce simp: ep_exec_def ep_reader_ok_def ep_point_ok_def ep_mem_ok_def split: if_splits)
next
  case (EpRetLoad p)
  with assms show ?thesis
    by (fastforce simp: ep_exec_def ep_reader_ok_def ep_point_ok_def ep_mem_ok_def split: if_splits)
next
  case EpExit
  with assms show ?thesis
    by (auto simp: ep_exec_def ep_reader_ok_def ep_point_ok_def)
next
  case (EpAdvance c w)
  with assms show ?thesis
    by (fastforce simp: ep_exec_def ep_reader_ok_def ep_point_ok_def)
qed (use assms in \<open>auto simp: ep_exec_def ep_reader_ok_def ep_point_ok_def Let_def split: if_splits\<close>)

text \<open>The step of one thread keeps what is said of another.\<close>

lemma ep_other_point:
  assumes "ep_exec m l = Some (m', l', k)" "ep_mem_ok m l" "ep_point_ok m u"
  shows "ep_point_ok m' u"
proof -
  have mono: "g_epoch m \<le> g_epoch m'"
    using assms(1) by (rule ep_exec_mono)
  have label: "g_label m p = Some e \<Longrightarrow> g_label m' p = Some e" for p e
    using assms(1,2) by (cases "ep_at l") (auto simp: ep_exec_def ep_mem_ok_def Let_def split: if_splits)
  show ?thesis
    using assms(3) mono label by (cases "ep_at u") (auto simp: ep_point_ok_def)
qed

lemma ep_other_reader:
  assumes "ep_exec m l = Some (m', l', k)" "ep_mem_ok m l" "ep_reader_ok m u" "ep_apart l u" "ep_pair m u l"
    "ep_ok m'"
  shows "ep_reader_ok m' u"
proof -
  have mono: "g_epoch m \<le> g_epoch m'"
    using assms(1) by (rule ep_exec_mono)
  have used: "ep_used m' ! i" if "ep_slot u = Some i" "ep_used m ! i" for i
    using assms(1,4) that
    by (cases "ep_at l") (auto simp: ep_exec_def ep_apart_def ep_set_used_other nth_True_update Let_def split: if_splits)
  have act: "ep_active m' ! i = ep_active m ! i" if "ep_slot u = Some i" for i
    using assms(1,4) that
    by (cases "ep_at l") (auto simp: ep_exec_def ep_apart_def ep_set_active_other Let_def split: if_splits)
  have label: "g_label m' p = Some e \<Longrightarrow> g_label m p = Some e \<or> e = g_epoch m" for p e
    using assms(1,2) by (cases "ep_at l") (auto simp: ep_exec_def ep_mem_ok_def Let_def split: if_splits)
  have free: "\<not> g_freed m' p" if "ep_inside u" "p \<in> set (ep_refs u)" "\<not> g_freed m p" "ep_slot u = Some i" for p i
  proof (cases "\<exists>w. ep_at l = EpFree w")
    case True
    then obtain w where w: "ep_at l = EpFree w"
      by blast
    have "\<not> g_freed (ep_free_before w m) p"
      by (rule ep_not_freed_by [OF assms(2) w that(3)])
         (use assms(5) that w in \<open>auto simp: ep_pair_def ep_visited_def\<close>)
    then show ?thesis
      using assms(1) w by (auto simp: ep_exec_def)
  next
    case False
    then show ?thesis
      using assms(1) that(3) by (cases "ep_at l") (auto simp: ep_exec_def Let_def split: if_splits)
  qed
  show ?thesis
  proof (cases "ep_inside u")
    case True
    then obtain i where i: "ep_slot u = Some i" "unat (ep_active m ! i) \<le> g_epoch m"
      using assms(3) by (auto simp: ep_reader_ok_def)
    have "\<not> g_freed m' p \<and> (g_label m' p = Some e \<longrightarrow> unat (ep_active m' ! i) \<le> e)"
      if "p \<in> set (ep_refs u)" for p e
      using that True i assms(3) free [OF True that _ i(1)] label [of p e] act [OF i(1)]
      by (auto simp: ep_reader_ok_def)
    then show ?thesis
      using True i mono assms(3) used act [OF i(1)] by (auto simp: ep_reader_ok_def)
  next
    case False
    then show ?thesis
      using assms(3) used by (auto simp: ep_reader_ok_def)
  qed
qed

text \<open>
  Pairs: a node gets its label at the present epoch, which no scan's minimum exceeds; a reader
  that comes to a node later found it linked, without a label.
\<close>

lemma ep_visited_le: "ep_point_ok m v \<Longrightarrow> ep_visited v j = Some w \<Longrightarrow> unat w \<le> g_epoch m"
  by (cases "ep_at v") (auto simp: ep_point_ok_def ep_visited_def split: if_splits)

lemma ep_label_step:
  assumes "ep_exec m l = Some (m', l', k)" "g_label m' p = Some e"
  shows "g_label m p = Some e \<or> e = g_epoch m"
  using assms by (cases "ep_at l") (auto simp: ep_exec_def Let_def split: if_splits)

lemma ep_pair_same:
  assumes "ep_exec m l = Some (m', l', k)" "ep_pair m u v" "ep_point_ok m v"
  shows "ep_pair m' u v"
  using assms(2) ep_visited_le [OF assms(3)] ep_label_step [OF assms(1)] unfolding ep_pair_def by blast

lemma ep_pair_new_reader:
  assumes "ep_exec m l = Some (m', l', k)" "ep_mem_ok m l" "ep_point_ok m l" "ep_reader_ok m l" "ep_pair m l v"
    "ep_point_ok m v"
  shows "ep_pair m' l' v"
proof -
  have "ep_pair m' l v"
    using ep_pair_same assms by blast
  moreover have "ep_refs l' = [] \<or> ep_inside l' = ep_inside l \<and> ep_slot l' = ep_slot l \<and> set (ep_refs l') \<subseteq> {p. g_label m' p = None} \<union> set (ep_refs l)"
    using assms by (cases "ep_at l")
      (auto simp: ep_exec_def ep_point_ok_def ep_reader_ok_def ep_mem_ok_def Let_def split: if_splits)
  ultimately show ?thesis
    by (fastforce simp: ep_pair_def)
qed

lemma ep_pair_new_scan:
  assumes "ep_exec m l = Some (m', l', k)" "ep_mem_ok m l" "ep_pair m u l" "ep_reader_ok m u" "ep_point_ok m l"
  shows "ep_pair m' u l'"
proof -
  have old: "ep_pair m' u l"
    using ep_pair_same assms by blast
  show ?thesis
  proof (cases "\<exists>i c w. ep_at l = EpUse i c w \<or> ep_at l = EpScan i c w")
    case True
    then obtain i c w where at: "ep_at l = EpUse i c w \<or> ep_at l = EpScan i c w"
      by blast
    have m: "m' = m"
      using assms(1) at by (auto simp: ep_exec_def Let_def)
    have vis: "j < i \<and> unat x \<le> unat w \<or>
        j = i \<and> \<not> ep_used m ! i \<or> j = i \<and> (ep_active m ! i = kInactiveEpoch \<or> unat x \<le> unat (ep_active m ! i))"
      if "ep_visited l' j = Some x" "j < kMaxThreads" for j x
      using assms(1) at that
      by (auto simp: ep_exec_def Let_def ep_visited_def ep_scan_next_def word_le_nat_alt word_less_nat_alt
          split: if_splits)
    show ?thesis
      unfolding m ep_pair_def
    proof (intro allI impI ballI; elim conjE)
      fix j x p e
      assume u: "ep_inside u" "ep_slot u = Some j" and v: "ep_visited l' j = Some x"
        and p: "p \<in> set (ep_refs u)" and e: "g_label m p = Some e"
      have r: "j < kMaxThreads" "ep_used m ! j" "unat (ep_active m ! j) \<le> g_epoch m" "unat (ep_active m ! j) \<le> e"
        using assms(4) u p e by (auto simp: ep_reader_ok_def)
      have ne: "ep_active m ! j \<noteq> kInactiveEpoch"
        using r(3) assms(2) by (auto simp: ep_mem_ok_def kInactiveEpoch_def)
      show "unat x \<le> e"
      proof (cases "j < i")
        case True
        then have "ep_visited l j = Some w"
          using at by (auto simp: ep_visited_def)
        then have "unat w \<le> e"
          using assms(3) u p e by (auto simp: ep_pair_def)
        then show ?thesis
          using vis [OF v r(1)] True by auto
      next
        case False
        then show ?thesis
          using vis [OF v r(1)] r ne by auto
      qed
    qed
  next
    case False
    then have "ep_visited l' j = None \<or> ep_visited l' j = ep_visited l j" for j
      using assms(1) by (cases "ep_at l") (auto simp: ep_exec_def ep_visited_def Let_def split: if_splits)
    then show ?thesis
      using old by (auto simp: ep_pair_def) (metis option.distinct(1))
  qed
qed

lemma ep_pair_self:
  assumes "ep_exec m l = Some (m', l', k)" "ep_mem_ok m l" "ep_point_ok m l" "ep_reader_ok m l" "ep_pair m l l"
  shows "ep_pair m' l' l'"
proof (cases "\<exists>i c w. ep_at l = EpUse i c w \<or> ep_at l = EpScan i c w")
  case True
  then have "ep_inside l' = ep_inside l" "ep_slot l' = ep_slot l" "ep_refs l' = ep_refs l"
    using assms(1) by (auto simp: ep_exec_def Let_def)
  then show ?thesis
    using ep_pair_new_scan [OF assms(1,2,5,4,3)] by (simp add: ep_pair_def)
next
  case False
  then have "ep_visited l' j = None \<or> ep_visited l' j = ep_visited l j" for j
    using assms(1) by (cases "ep_at l") (auto simp: ep_exec_def ep_visited_def Let_def split: if_splits)
  then show ?thesis
    using ep_pair_new_reader [OF assms(1-5,3)] by (auto simp: ep_pair_def) (metis option.distinct(1))
qed

lemma ep_apart_step:
  assumes "ep_exec m l = Some (m', l', k)" "ep_apart l u" "ep_apart u l" "ep_reader_ok m u" "ep_ok m'"
  shows "ep_apart l' u \<and> ep_apart u l'"
  using assms by (cases "ep_at l") (auto simp: ep_exec_def ep_apart_def ep_reader_ok_def ep_ok_def Let_def split: if_splits)

lemma ep_nodes_invoke: "ep_nodes m ls \<Longrightarrow> t < length ls \<Longrightarrow> ep_start op (ls ! t) = Some l \<Longrightarrow>
    ep_nodes m (ls[t := l])"
proof -
  assume n: "ep_nodes m ls" and t: "t < length ls" and l: "ep_start op (ls ! t) = Some l"
  then have "cnt (\<lambda>l. ep_at l = EpRetLoad p) (ls[t := l]) = cnt (\<lambda>l. ep_at l = EpRetLoad p) ls"
    "cnt (\<lambda>l. \<exists>e. ep_at l = EpRetInsert p e) (ls[t := l]) = cnt (\<lambda>l. \<exists>e. ep_at l = EpRetInsert p e) ls" for p
    by (intro cnt_update_same; auto simp: ep_start_def split: if_splits ep_op.splits)+
  with n show ?thesis
    by (simp add: ep_nodes_def)
qed

lemma length_filter_split: "length (filter P xs) = length (filter (\<lambda>x. P x \<and> Q x) xs) + length (filter (\<lambda>x. P x \<and> \<not> Q x) xs)"
  by (induction xs) auto

lemma ep_listed_free: "ep_listed (ep_free_before w m) p + of_bool (g_freed (ep_free_before w m) p)
    \<le> ep_listed m p + of_bool (g_freed m p)"
proof -
  let ?out = "filter (\<lambda>x. fst x = p \<and> snd x < w) (ep_retired m)"
  have "ep_listed m p = length ?out + ep_listed (ep_free_before w m) p"
    by (simp add: ep_listed_def case_prod_unfold length_filter_split [of "\<lambda>x. fst x = p" _ "\<lambda>x. snd x < w"] conj_commute)
  moreover have "g_freed (ep_free_before w m) p \<longleftrightarrow> g_freed m p \<or> ?out \<noteq> []"
    by (force simp: ep_freed filter_empty_conv)
  ultimately show ?thesis
    by (cases ?out) auto
qed

lemma ep_once_step:
  assumes "ep_exec m (ls ! t) = Some (m', l', k)" "t < length ls" "ep_mem_ok m (ls ! t)"
    and "cnt (\<lambda>l. \<exists>e. ep_at l = EpRetInsert p e) ls + ep_listed m p + of_bool (g_freed m p)
      \<le> of_bool (g_label m p \<noteq> None)"
  shows "cnt (\<lambda>l. \<exists>e. ep_at l = EpRetInsert p e) (ls[t := l']) + ep_listed m' p + of_bool (g_freed m' p)
      \<le> of_bool (g_label m' p \<noteq> None)"
proof -
  let ?P = "\<lambda>l. \<exists>e. ep_at l = EpRetInsert p e"
  consider "ep_at (ls ! t) = EpRetLoad p" | e where "ep_at (ls ! t) = EpRetInsert p e"
    | "ep_at (ls ! t) \<noteq> EpRetLoad p" "\<not> ?P (ls ! t)"
    by blast
  then show ?thesis
  proof cases
    case 1
    with assms(1,3) have "g_label m p = None" "ep_listed m' p = ep_listed m p" "g_freed m' p = g_freed m p"
      "g_label m' p \<noteq> None" "?P l'"
      by (auto simp: ep_exec_def ep_mem_ok_def ep_listed_def)
    moreover from 1 \<open>?P l'\<close> assms(2) have "cnt ?P (ls[t := l']) = Suc (cnt ?P ls)"
      by (intro cnt_enter) auto
    ultimately show ?thesis
      using assms(4) by (cases "g_freed m p") auto
  next
    case 2
    with assms(1) have "ep_listed m' p = Suc (ep_listed m p)" "g_freed m' p = g_freed m p"
      "g_label m' p = g_label m p" "\<not> ?P l'"
      by (auto simp: ep_exec_def ep_listed_def)
    moreover from 2 \<open>\<not> ?P l'\<close> assms(2) have "cnt ?P (ls[t := l']) = cnt ?P ls - 1"
      by (intro cnt_leave) auto
    moreover have "0 < cnt ?P ls"
      using 2 assms(2) by (intro cnt_pos) auto
    ultimately show ?thesis
      using assms(4) by simp
  next
    case 3
    have "cnt ?P (ls[t := l']) = cnt ?P ls"
      using assms(1,2) 3 by (intro cnt_update_same; cases "ep_at (ls ! t)")
        (auto simp: ep_exec_def ep_scan_next_def Let_def split: if_splits)
    moreover have "ep_listed m' p + of_bool (g_freed m' p) \<le> ep_listed m p + of_bool (g_freed m p)"
      "g_label m' p = g_label m p"
      using assms(1) 3 ep_listed_free [of _ m p]
      by (cases "ep_at (ls ! t)"; fastforce simp: ep_exec_def ep_listed_def Let_def split: if_splits)+
    ultimately show ?thesis
      using assms(4) by simp
  qed
qed

lemma ep_nodes_step:
  assumes "ep_exec m (ls ! t) = Some (m', l', k)" "t < length ls" "ep_nodes m ls" "ep_mem_ok m (ls ! t)"
    "ep_point_ok m (ls ! t)"
  shows "ep_nodes m' (ls[t := l'])"
proof -
  let ?c = "\<lambda>p ls. cnt (\<lambda>l. ep_at l = EpRetLoad p) ls"
  have one: "?c p ls + of_bool (ep_linked m p) + of_bool (g_label m p \<noteq> None) \<le> 1" for p
    using assms(3) by (simp add: ep_nodes_def)
  have c: "?c p (ls[t := l']) = ?c p ls" if "(ep_at l' = EpRetLoad p) = (ep_at (ls ! t) = EpRetLoad p)" for p
    using assms(2) that by (rule cnt_update_same)
  have len: "length (ep_active m') = kMaxThreads" "length (ep_used m') = kMaxThreads"
    using assms(1,4) by (cases "ep_at (ls ! t)"; auto simp: ep_exec_def ep_mem_ok_def Let_def split: if_splits)+
  have one': "?c p (ls[t := l']) + of_bool (ep_linked m' p) + of_bool (g_label m' p \<noteq> None) \<le> 1" for p
  proof (cases "\<exists>q. ep_at (ls ! t) = EpUnlink q \<and> ep_linked m q \<and> p = q \<or> ep_at (ls ! t) = EpRetLoad q \<and> p = q")
    case True
    then consider "ep_at (ls ! t) = EpUnlink p" "ep_linked m p" | "ep_at (ls ! t) = EpRetLoad p"
      by blast
    then show ?thesis
    proof cases
      case 1
      with assms(1) have l': "ep_at l' = EpRetLoad p" and m': "\<not> ep_linked m' p" "g_label m' p = g_label m p"
        by (auto simp: ep_exec_def)
      have "?c p (ls[t := l']) = Suc (?c p ls)"
        by (rule cnt_enter) (use assms(2) 1 l' in auto)
      with one [of p] 1 m' show ?thesis
        by simp
    next
      case 2
      with assms(1) have l': "ep_at l' \<noteq> EpRetLoad p" and m': "ep_linked m' p = ep_linked m p" "g_label m' p \<noteq> None"
        by (auto simp: ep_exec_def)
      have "?c p (ls[t := l']) = ?c p ls - 1"
        by (rule cnt_leave) (use assms(2) 2 l' in auto)
      moreover have "0 < ?c p ls"
        using cnt_pos [of t ls "\<lambda>l. ep_at l = EpRetLoad p"] assms(2) 2 by simp
      ultimately show ?thesis
        using one [of p] m' by (cases "ep_linked m p") auto
    qed
  next
    case False
    then have "(ep_at l' = EpRetLoad p) = (ep_at (ls ! t) = EpRetLoad p)" "ep_linked m' p = ep_linked m p"
      "g_label m' p = g_label m p"
      using assms(1) by (cases "ep_at (ls ! t)"; auto simp: ep_exec_def ep_scan_next_def Let_def split: if_splits)+
    with one [of p] c [of p] show ?thesis
      by simp
  qed
  have ret: "\<forall>x \<in> set (ep_retired m'). g_label m' (fst x) = Some (unat (snd x))"
    using assms(1,4,5)
    by (cases "ep_at (ls ! t)") (fastforce simp: ep_exec_def ep_mem_ok_def ep_point_ok_def Let_def split: if_splits)+
  have "cnt (\<lambda>l. \<exists>e. ep_at l = EpRetInsert p e) (ls[t := l']) + ep_listed m' p + of_bool (g_freed m' p)
      \<le> of_bool (g_label m' p \<noteq> None)" for p
    using ep_once_step [OF assms(1,2,4)] assms(3) by (simp add: ep_nodes_def)
  with len one' ret show ?thesis
    by (simp add: ep_nodes_def)
qed

lemma ep_inv_invoke:
  assumes "ep_inv m ls" "t < length ls" "ep_start op (ls ! t) = Some l"
  shows "ep_inv m (ls[t := l])"
proof (cases "ep_ok m")
  case True
  let ?l = "ls ! t"
  have inv: "ep_nodes m ls" "\<And>u. u < length ls \<Longrightarrow> ep_point_ok m (ls ! u) \<and> ep_reader_ok m (ls ! u)"
    "\<And>u v. u < length ls \<Longrightarrow> v < length ls \<Longrightarrow> ep_pair m (ls ! u) (ls ! v)"
    "\<And>u v. u < length ls \<Longrightarrow> v < length ls \<Longrightarrow> u \<noteq> v \<Longrightarrow> ep_apart (ls ! u) (ls ! v)"
    using assms(1) True by (auto simp: ep_inv_def)
  have same: "ep_slot l = ep_slot ?l" "ep_inside l = ep_inside ?l" "ep_refs l = [] \<or> ep_refs l = ep_refs ?l"
    "ep_visited l j = None" "ep_point_ok m l" for j
    using assms(3) inv(2) [OF assms(2)]
    by (auto simp: ep_start_def ep_visited_def ep_point_ok_def ep_reader_ok_def split: if_splits ep_op.splits)
  have "ep_reader_ok m l"
    using inv(2) [OF assms(2)] same by (auto simp: ep_reader_ok_def)
  moreover have "ep_pair m l v" if "ep_pair m ?l v" for v
    using that same by (auto simp: ep_pair_def)
  moreover have "ep_pair m u l" for u
    using same by (auto simp: ep_pair_def)
  ultimately show ?thesis
    using assms inv same ep_nodes_invoke [OF inv(1) assms(2,3)]
    by (auto simp: ep_inv_def nth_list_update ep_apart_def)
next
  case False
  with assms show ?thesis
    by (auto simp: ep_inv_def)
qed

lemma ep_inv_exec:
  assumes "ep_inv m ls" "t < length ls" "ep_exec m (ls ! t) = Some (m', l', k)"
  shows "ep_inv m' (ls[t := l'])"
proof (cases "ep_ok m'")
  case ok': True
  let ?l = "ls ! t"
  have ok: "ep_ok m"
    using ep_exec_mono(2) [OF assms(3) ok'] .
  have inv: "ep_nodes m ls" "\<And>u. u < length ls \<Longrightarrow> ep_point_ok m (ls ! u)" "\<And>u. u < length ls \<Longrightarrow> ep_reader_ok m (ls ! u)"
    "\<And>u v. u < length ls \<Longrightarrow> v < length ls \<Longrightarrow> ep_pair m (ls ! u) (ls ! v)"
    "\<And>u v. u < length ls \<Longrightarrow> v < length ls \<Longrightarrow> u \<noteq> v \<Longrightarrow> ep_apart (ls ! u) (ls ! v)"
    and g: "ep_global m = word_of_nat (g_epoch m)"
    using assms(1) ok by (auto simp: ep_inv_def)
  have mok: "ep_mem_ok m ?l"
    using ep_mem_okI [OF ok inv(1) g assms(2)] .
  note t = assms(2) and ex = assms(3)
  have "ep_nodes m' (ls[t := l'])"
    using ep_nodes_step [OF ex t inv(1) mok inv(2) [OF t]] .
  moreover have "ep_point_ok m' (ls[t := l'] ! u) \<and> ep_reader_ok m' (ls[t := l'] ! u)" if u: "u < length ls" for u
  proof (cases "u = t")
    case True
    then show ?thesis
      using ep_own_point [OF ex ok' mok inv(2) [OF t]]
        ep_own_reader [OF ex ok' mok inv(2) [OF t] inv(3) [OF t] inv(4) [OF t t]] t by simp
  next
    case False
    then have "ep_apart ?l (ls ! u)"
      using inv(5) [OF t u] by simp
    with False show ?thesis
      using ep_other_point [OF ex mok inv(2) [OF u]]
        ep_other_reader [OF ex mok inv(3) [OF u] _ inv(4) [OF u t] ok'] by simp
  qed
  moreover have "ep_pair m' (ls[t := l'] ! u) (ls[t := l'] ! v)" if uv: "u < length ls" "v < length ls" for u v
    using ep_pair_self [OF ex mok inv(2) [OF t] inv(3) [OF t] inv(4) [OF t t]]
      ep_pair_new_reader [OF ex mok inv(2) [OF t] inv(3) [OF t] inv(4) [OF t uv(2)] inv(2) [OF uv(2)]]
      ep_pair_new_scan [OF ex mok inv(4) [OF uv(1) t] inv(3) [OF uv(1)] inv(2) [OF t]]
      ep_pair_same [OF ex inv(4) [OF uv] inv(2) [OF uv(2)]] t
    by (simp add: nth_list_update)
  moreover have "ep_apart (ls[t := l'] ! u) (ls[t := l'] ! v)" if uv: "u < length ls" "v < length ls" "u \<noteq> v" for u v
  proof -
    have "ep_apart l' (ls ! w) \<and> ep_apart (ls ! w) l'" if "w < length ls" "w \<noteq> t" for w
      using ep_apart_step [OF ex _ _ inv(3) ok'] inv(5) t that by metis
    then show ?thesis
      using inv(5) uv t by (simp add: nth_list_update)
  qed
  ultimately show ?thesis
    using ep_exec_mono(3) [OF ex g] by (simp add: ep_inv_def)
next
  case False
  then show ?thesis
    using assms(1) ep_exec_mono(3) [OF assms(3)] by (auto simp: ep_inv_def)
qed

lemma ep_inv_init: "ep_inv (ep_mem0 nodes) (replicate n ep_thread0)"
  by (simp add: ep_inv_def ep_mem0_def ep_thread0_def ep_nodes_def ep_listed_def ep_point_ok_def ep_reader_ok_def ep_pair_def
      ep_apart_def cnt_replicate of_bool_def)

theorem ep_invariant:
  assumes "ep_reachable nodes n s"
  shows "ep_inv (shm s) (pcs s)"
proof (rule ep.system_invariant [where I = "\<lambda>m q ls. ep_inv m ls",
    OF assms [unfolded ep_step_def ep_init_def] ep_inv_init])
qed (auto intro: ep_inv_invoke ep_inv_exec)

section \<open>A reclamation on its own\<close>

text \<open>What \<open>try_reclaim\<close> computes: the oldest epoch among the global one and those of the readers.\<close>

definition ep_readers_from :: "nat \<Rightarrow> ep_mem \<Rightarrow> u64 set" where
  "ep_readers_from i m = set (map (\<lambda>j. ep_active m ! j)
     (filter (\<lambda>j. ep_used m ! j \<and> ep_active m ! j \<noteq> kInactiveEpoch) [i..<kMaxThreads]))"

definition ep_oldest :: "ep_mem \<Rightarrow> u64" where
  "ep_oldest m = Min (insert (ep_global m) (ep_readers_from 0 m))"

definition ep_reclaimed :: "ep_mem \<Rightarrow> ep_mem" where
  "ep_reclaimed m = ep_free_before (ep_oldest m)
     (if ep_oldest m = ep_global m then m\<lparr>ep_global := ep_global m + 1, g_epoch := Suc (g_epoch m)\<rparr> else m)"

lemma ep_readers_from_step: "i < kMaxThreads \<Longrightarrow> ep_readers_from i m =
    (if ep_used m ! i \<and> ep_active m ! i \<noteq> kInactiveEpoch then insert (ep_active m ! i) (ep_readers_from (Suc i) m)
     else ep_readers_from (Suc i) m)"
  by (simp add: ep_readers_from_def upt_conv_Cons)

lemma ep_readers_from_end: "ep_readers_from kMaxThreads m = {}"
  by (simp add: ep_readers_from_def)

lemma finite_ep_readers: "finite (ep_readers_from i m)"
  by (simp add: ep_readers_from_def)

lemma ep_scan_runs:
  assumes "i < kMaxThreads"
  shows "\<exists>k. plain_run ep_exec k m ((l :: ep_pc)\<lparr>ep_at := EpUse i c w\<rparr>) =
    Some (m, l\<lparr>ep_at := EpAdvance c (Min (insert w (ep_readers_from i m)))\<rparr>)"
  using assms
proof (induction "kMaxThreads - i" arbitrary: i w)
  case 0
  then show ?case by simp
next
  case (Suc d)
  define w' where "w' = (if ep_used m ! i \<and> ep_active m ! i \<noteq> kInactiveEpoch \<and> ep_active m ! i < w
    then ep_active m ! i else w)"
  have one: "plain_run ep_exec (if ep_used m ! i then 2 else 1) m (l\<lparr>ep_at := EpUse i c w\<rparr>) =
      Some (m, l\<lparr>ep_at := ep_scan_next i c w'\<rparr>)"
    by (auto simp: ep_exec_def w'_def Let_def numeral_2_eq_2)
  have min: "Min (insert w (ep_readers_from i m)) = Min (insert w' (ep_readers_from (Suc i) m))"
    using Suc.prems finite_ep_readers [of "Suc i" m]
    by (cases "ep_readers_from (Suc i) m = {}") (auto simp: ep_readers_from_step w'_def min_def)
  show ?case
  proof (cases "Suc i < kMaxThreads")
    case True
    have "d = kMaxThreads - Suc i"
      using Suc.hyps(2) by simp
    from Suc.hyps(1) [OF this True, of w'] obtain k where
      "plain_run ep_exec k m (l\<lparr>ep_at := EpUse (Suc i) c w'\<rparr>) =
        Some (m, l\<lparr>ep_at := EpAdvance c (Min (insert w' (ep_readers_from (Suc i) m)))\<rparr>)" ..
    with plain_run_append [OF one, of k] True min show ?thesis
      by (metis ep_scan_next_def)
  next
    case False
    then have "Suc i = kMaxThreads"
      using Suc.prems by simp
    with one min show ?thesis
      by (auto simp: ep_scan_next_def ep_readers_from_end)
  qed
qed

lemma ep_reclaim_runs:
  assumes "ep_at l = EpRecLoad"
  shows "\<exists>k. plain_run ep_exec k m l = Some (ep_reclaimed m, ep_out l)"
proof -
  let ?w = "ep_oldest m" and ?c = "ep_global m"
  have "plain_run ep_exec 1 m l = Some (m, l\<lparr>ep_at := EpUse 0 ?c ?c\<rparr>)"
    using assms by (simp add: ep_exec_def)
  moreover obtain k where "plain_run ep_exec k m (l\<lparr>ep_at := EpUse 0 ?c ?c\<rparr>) = Some (m, l\<lparr>ep_at := EpAdvance ?c ?w\<rparr>)"
    using ep_scan_runs [where i = 0 and c = ?c and w = ?c and l = l and m = m] by (auto simp: ep_oldest_def kMaxThreads_def)
  moreover have "plain_run ep_exec 2 m (l\<lparr>ep_at := EpAdvance ?c ?w\<rparr>) = Some (ep_reclaimed m, ep_out l)"
    by (simp add: ep_exec_def numeral_2_eq_2 ep_out_def ep_reclaimed_def)
  ultimately have "plain_run ep_exec (1 + (k + 2)) m l = Some (ep_reclaimed m, ep_out l)"
    by (metis plain_run_append)
  then show ?thesis ..
qed

lemma ep_reachable_reclaim:
  assumes "ep_reachable nodes n s" "t < length (pcs s)" "t \<notin> set (waitq s)" "ep_at (pcs s ! t) = EpRecLoad"
  shows "ep_reachable nodes n (s\<lparr>shm := ep_reclaimed (shm s), pcs := (pcs s)[t := ep_out (pcs s ! t)]\<rparr>)"
proof -
  obtain k where "plain_run ep_exec k (shm s) (pcs s ! t) = Some (ep_reclaimed (shm s), ep_out (pcs s ! t))"
    using ep_reclaim_runs [OF assms(4)] ..
  from plain_run_system [OF this assms(2,3), of ep_start] assms(1) show ?thesis
    by (cases s) (auto simp: ep_step_def intro: reachable_run)
qed

section \<open>Properties\<close>

text \<open>
  C8. No use after free: while no registration had to fall back to a shared slot and the epoch has
  not reached its last value, no node a reader has a reference to, in its critical section, is
  deleted, whatever is unlinked, retired and reclaimed meanwhile.
\<close>
theorem epoch_no_use_after_free:
  assumes "ep_reachable nodes n s" "\<not> g_shared (shm s)" "g_epoch (shm s) < 2 ^ 64 - 1"
    "t < length (pcs s)" "p \<in> set (ep_refs (pcs s ! t))"
  shows "ep_inside (pcs s ! t) \<and> \<not> g_freed (shm s) p"
proof -
  have "ep_reader_ok (shm s) (pcs s ! t)"
    using ep_invariant [OF assms(1)] assms(2-4) by (simp add: ep_inv_def ep_ok_def)
  then show ?thesis
    using assms(5) by (auto simp: ep_reader_ok_def split: if_splits)
qed

lemma distinct_by_count: "(\<And>p. length (filter (\<lambda>x. f x = p) xs) \<le> 1) \<Longrightarrow> distinct (map f xs)"
proof (induction xs)
  case Nil
  then show ?case by simp
next
  case (Cons x xs)
  have "length (filter (\<lambda>y. f y = p) xs) \<le> 1" for p
    using Cons.prems [of p] by (cases "f x = p") auto
  moreover have "f x \<notin> set (map f xs)"
    using Cons.prems [of "f x"] by (auto simp: filter_empty_conv)
  ultimately show ?case
    using Cons.IH by simp
qed

lemma ep_nodes_once:
  assumes "ep_nodes m ls"
  shows "distinct (map fst (ep_retired m))"
    and "(p, e) \<in> set (ep_retired m) \<Longrightarrow> \<not> g_freed m p \<and> \<not> ep_linked m p"
proof -
  have le: "ep_listed m p + of_bool (g_freed m p) \<le> of_bool (g_label m p \<noteq> None)" for p
    using assms unfolding ep_nodes_def by (meson le_add2 le_trans add_le_mono1)
  then have "ep_listed m p \<le> 1" for p
    using le [of p] by (cases "g_label m p") auto
  then show "distinct (map fst (ep_retired m))"
    by (intro distinct_by_count) (simp add: ep_listed_def)
  assume "(p, e) \<in> set (ep_retired m)"
  then have "ep_listed m p \<noteq> 0"
    by (force simp: ep_listed_def filter_empty_conv)
  moreover have "of_bool (ep_linked m p) + of_bool (g_label m p \<noteq> None) \<le> (1 :: nat)"
    using assms unfolding ep_nodes_def by (meson le_add2 le_trans add_le_mono1)
  ultimately show "\<not> g_freed m p \<and> \<not> ep_linked m p"
    using le [of p] by (cases "g_label m p"; cases "g_freed m p"; cases "ep_linked m p") auto
qed

text \<open>
  The demonstration: thread 1 unlinks and retires node 8 and reclaims; thread 0 enters and gets
  hold of node 7, which thread 1 then unlinks and retires before it reclaims again.
\<close>

definition ep_demo_1 :: "(ep_mem, ep_pc) fsys" where
  "ep_demo_1 = \<lparr>shm = \<lparr>ep_global = 1, ep_active = replicate kMaxThreads kInactiveEpoch,
     ep_used = replicate kMaxThreads False, ep_retired = [(8, 1)], ep_linked = (\<lambda>_. True)(8 := False),
     g_epoch = 1, g_label = (\<lambda>_. None)(8 := Some 1), g_freed = \<lambda>_. False, g_shared = False\<rparr>,
     waitq = [], pcs = [ep_thread0, ep_thread0\<lparr>ep_at := EpRecLoad\<rparr>]\<rparr>"

definition ep_demo_2 :: "(ep_mem, ep_pc) fsys" where
  "ep_demo_2 = \<lparr>shm = \<lparr>ep_global = 2, ep_active = (replicate kMaxThreads kInactiveEpoch)[0 := 2],
     ep_used = (replicate kMaxThreads False)[0 := True], ep_retired = [(7, 2), (8, 1)],
     ep_linked = (\<lambda>_. True)(8 := False, 7 := False), g_epoch = 2,
     g_label = (\<lambda>_. None)(8 := Some 1, 7 := Some 2), g_freed = \<lambda>_. False, g_shared = False\<rparr>,
     waitq = [], pcs = [ep_thread0\<lparr>ep_slot := Some 0, ep_inside := True, ep_refs := [7]\<rparr>,
       ep_thread0\<lparr>ep_at := EpRecLoad\<rparr>]\<rparr>"

definition ep_reclaim_1 :: "(ep_mem, ep_pc) fsys \<Rightarrow> (ep_mem, ep_pc) fsys" where
  "ep_reclaim_1 s = s\<lparr>shm := ep_reclaimed (shm s), pcs := (pcs s)[1 := ep_out (pcs s ! 1)]\<rparr>"

lemmas ep_demo_simps = ep_step_def sys_step_def awake_def ep_init_def sys_init_def ep_mem0_def ep_thread0_def ep_start_def
  ep_exec_def kMaxThreads_def ep_out_def ep_set_active_def kernel_def numeral_2_eq_2

lemma ep_demo_run_1: "run ep_step [Invoke 1 (EpUnlinkNode 8), Step 1 [], Step 1 [], Step 1 [], Invoke 1 EpTryReclaim]
    (ep_init (\<lambda>_. True) 2) = Some ep_demo_1"
  by (simp add: ep_demo_1_def ep_demo_simps)

lemma ep_demo_readers: "ep_readers_from 0 (shm ep_demo_1) = {}" "ep_readers_from 0 (shm ep_demo_2) = {2}"
  by (auto simp: ep_readers_from_def ep_demo_1_def ep_demo_2_def nth_list_update kMaxThreads_def
      kInactiveEpoch_def image_iff split: if_splits)

lemma ep_demo_reclaim_1: "ep_reclaim_1 ep_demo_1 = ep_demo_1\<lparr>shm := (shm ep_demo_1)\<lparr>ep_global := 2, g_epoch := 2\<rparr>,
    pcs := [ep_thread0, ep_thread0]\<rparr>"
  using ep_demo_readers(1)
  by (simp add: ep_reclaim_1_def ep_reclaimed_def ep_oldest_def ep_free_before_def)
     (simp add: ep_demo_1_def ep_out_def ep_thread0_def)

lemma ep_demo_run_2: "run ep_step [Invoke 0 EpRegister, Step 0 [], Invoke 0 EpEnter, Step 0 [], Step 0 [],
     Invoke 0 (EpReadNode 7), Step 0 [], Invoke 1 (EpUnlinkNode 7), Step 1 [], Step 1 [], Step 1 [],
     Invoke 1 EpTryReclaim] (ep_reclaim_1 ep_demo_1) = Some ep_demo_2"
  unfolding ep_demo_reclaim_1 by (simp add: ep_demo_1_def ep_demo_2_def ep_demo_simps)

lemma ep_demo_reclaim_2:
  "shm (ep_reclaim_1 ep_demo_2) = (shm ep_demo_2)\<lparr>ep_global := 3, g_epoch := 3, ep_retired := [(7, 2)],
     g_freed := (\<lambda>p. p = 8)\<rparr>"
  "pcs (ep_reclaim_1 ep_demo_2) ! 0 = ep_thread0\<lparr>ep_slot := Some 0, ep_inside := True, ep_refs := [7]\<rparr>"
  "length (pcs (ep_reclaim_1 ep_demo_2)) = 2"
  using ep_demo_readers(2)
  by (simp_all add: ep_reclaim_1_def ep_reclaimed_def ep_oldest_def ep_free_before_def ep_demo_2_def)

lemma ep_demo_2_reachable: "ep_reachable (\<lambda>_. True) 2 ep_demo_2"
proof -
  have "ep_reachable (\<lambda>_. True) 2 ep_demo_1"
    using ep_demo_run_1 by (rule run_reachable)
  then have "ep_reachable (\<lambda>_. True) 2 (ep_reclaim_1 ep_demo_1)"
    unfolding ep_reclaim_1_def by (rule ep_reachable_reclaim) (simp_all add: ep_demo_1_def)
  then show ?thesis
    using ep_demo_run_2 by (rule reachable_run)
qed

lemma ep_demo_reachable: "ep_reachable (\<lambda>_. True) 2 (ep_reclaim_1 ep_demo_2)"
  unfolding ep_reclaim_1_def by (rule ep_reachable_reclaim [OF ep_demo_2_reachable]) (simp_all add: ep_demo_2_def)

theorem epoch_no_use_after_free_witness:
  "\<not> g_freed (shm (ep_reclaim_1 ep_demo_2)) 7 \<and> g_freed (shm (ep_reclaim_1 ep_demo_2)) 8"
  using epoch_no_use_after_free [OF ep_demo_reachable, of 0 7]
  by (simp add: ep_demo_reclaim_2)

text \<open>
  Deleted once: under the same conditions the list of retired nodes has every node at most once,
  and none that is deleted already or still linked. So no deleter runs twice, and none on a node of
  the structure.
\<close>
theorem epoch_retired_once:
  assumes "ep_reachable nodes n s" "\<not> g_shared (shm s)" "g_epoch (shm s) < 2 ^ 64 - 1"
  shows "distinct (map fst (ep_retired (shm s))) \<and>
    list_all (\<lambda>(p, e). \<not> g_freed (shm s) p \<and> \<not> ep_linked (shm s) p) (ep_retired (shm s))"
  using ep_invariant [OF assms(1)] assms(2,3) ep_nodes_once by (auto simp: ep_inv_def ep_ok_def list_all_iff)

theorem epoch_retired_once_witness:
  "distinct (map fst (ep_retired (shm ep_demo_2))) \<and> ep_retired (shm ep_demo_2) = [(7, 2), (8, 1)]"
  using epoch_retired_once [OF ep_demo_2_reachable] by (simp add: ep_demo_2_def)

text \<open>
  C25. What \<open>try_reclaim\<close> does, run without interference: it comes to its end; it has deleted exactly
  the nodes retired before the oldest epoch of a reader inside a critical section, or before the
  global epoch where no reader is, keeping the rest in their order; and it has advanced the global
  epoch exactly if no reader was behind it.
\<close>
theorem epoch_reclaim_deletes:
  "\<exists>k m'. plain_run ep_exec k m (l\<lparr>ep_at := EpRecLoad\<rparr>) = Some (m', l\<lparr>ep_at := EpOut\<rparr>) \<and>
     ep_retired m' = filter (\<lambda>(p, e). ep_oldest m \<le> e) (ep_retired m) \<and>
     (\<forall>p. g_freed m' p \<longleftrightarrow> g_freed m p \<or> (\<exists>e. (p, e) \<in> set (ep_retired m) \<and> e < ep_oldest m)) \<and>
     ep_global m' = (if ep_oldest m = ep_global m then ep_global m + 1 else ep_global m)"
proof -
  obtain k where "plain_run ep_exec k m (l\<lparr>ep_at := EpRecLoad\<rparr>) = Some (ep_reclaimed m, l\<lparr>ep_at := EpOut\<rparr>)"
    using ep_reclaim_runs [of "l\<lparr>ep_at := EpRecLoad\<rparr>" m] by (auto simp: ep_out_def)
  then show ?thesis
    by (intro exI [of _ k] exI [of _ "ep_reclaimed m"] conjI)
       (simp_all add: ep_reclaimed_def ep_freed not_less case_prod_unfold)
qed

text \<open>\<open>reclaim_all\<close>, which the destructor runs when no thread is left, deletes the whole list.\<close>

definition ep_reclaim_all :: "ep_mem \<Rightarrow> ep_mem" where
  "ep_reclaim_all m = m\<lparr>ep_retired := [], g_freed := (\<lambda>p. g_freed m p \<or> p \<in> set (map fst (ep_retired m)))\<rparr>"

section \<open>EpochGuard\<close>

text \<open>
  The guard enters in its constructor and exits in its destructor, here without interleaving. Guards of
  one slot do not nest: the inner destructor takes the slot out although the outer guard is alive, and a
  reclamation then treats what the outer one protects as free.
\<close>

definition epoch_guard_construct :: "nat \<Rightarrow> ep_mem \<Rightarrow> ep_mem" where
  "epoch_guard_construct slot m = ep_set_active (Some slot) (ep_global m) m"

definition epoch_guard_destroy :: "nat \<Rightarrow> ep_mem \<Rightarrow> ep_mem" where
  "epoch_guard_destroy slot m = ep_set_active (Some slot) kInactiveEpoch m"

lemma ep_set_active_twice: "ep_set_active s e (ep_set_active s e' m) = ep_set_active s e m"
  by (cases s) (simp_all add: ep_set_active_def)

text \<open>What a scan finds while a guard lives, after it, and after an inner guard of the same slot.\<close>

theorem epoch_guard_scopes:
  assumes "slot < kMaxThreads" "length (ep_active m) = kMaxThreads" "ep_used m ! slot" "ep_global m \<noteq> kInactiveEpoch"
  shows "ep_oldest (epoch_guard_construct slot m) \<le> ep_global m"
    and "ep_global m \<in> ep_readers_from 0 (epoch_guard_construct slot m)"
    and "epoch_guard_destroy slot (epoch_guard_construct slot m) = epoch_guard_destroy slot m"
    and "epoch_guard_destroy slot (epoch_guard_construct slot (epoch_guard_construct slot m)) = epoch_guard_destroy slot m"
proof -
  show "ep_global m \<in> ep_readers_from 0 (epoch_guard_construct slot m)"
    using assms by (auto simp: ep_readers_from_def epoch_guard_construct_def ep_set_active_def image_iff intro!: bexI [of _ slot])
  show "ep_oldest (epoch_guard_construct slot m) \<le> ep_global m"
    unfolding ep_oldest_def by (rule Min_le) (simp_all add: finite_ep_readers epoch_guard_construct_def)
qed (simp_all add: epoch_guard_construct_def epoch_guard_destroy_def ep_set_active_twice)

end
