(* ===== verification/MpscIntrusive.thy ===== *)
theory MpscIntrusive
  imports Futex
begin

text \<open>
  \<^verbatim>\<open>psync_mpsc_intrusive.h\<close>: the linked queue of entries with many producers and one consumer, one
  step per access to the shared words. Shown: entries leave in the order of the exchanges, each
  once; a pop that no push overlaps returns the first entry, or nothing exactly if there is none;
  and a pop that one does overlap can return nothing on a queue that is never empty.
\<close>

section \<open>The queue\<close>

text \<open>
  Entries are numbers, the queue's own \<open>stub_\<close> is 0. \<open>mi_next\<close> is the field of all entries. Auxiliary:
  \<open>gi_chain\<close> are the entries from \<open>tail_\<close> to \<open>head_\<close> in the order of the exchanges, linked yet or not;
  \<open>gi_pushed\<close> the clients' entries in the order of the exchanges, \<open>gi_popped\<close> those that were returned.
\<close>

definition stub :: nat where "stub = 0"

record mi_mem =
  mi_next :: "nat \<Rightarrow> nat option"
  mi_head :: nat
  mi_tail :: nat
  gi_chain :: "nat list"
  gi_pushed :: "nat list"
  gi_popped :: "nat list"

definition mi_mem0 :: mi_mem where
  "mi_mem0 = \<lparr>mi_next = \<lambda>_. None, mi_head = stub, mi_tail = stub, gi_chain = [stub], gi_pushed = [],
     gi_popped = []\<rparr>"

text \<open>
  \<open>push\<close> is called by a client, or by \<open>pop\<close> for the stub; in that case \<open>pop\<close> goes on with its value
  of \<open>tail\<close>.
\<close>

datatype mi_result = MiNothing | MiPushed | MiPopped "nat option"

datatype mi_caller = FromClient | FromPop nat

datatype mi_pc =
    MiOut mi_result
  | MiClear mi_caller nat
  | MiXchg mi_caller nat
  | MiLink mi_caller nat nat
  | MiTail
  | MiSecond nat
  | MiHead nat
  | MiLast nat

datatype mi_op = MiPush nat | MiPop

fun mi_start :: "mi_op \<Rightarrow> mi_pc \<Rightarrow> mi_pc option" where
  "mi_start (MiPush e) (MiOut r) = Some (MiClear FromClient e)"
| "mi_start MiPop (MiOut r) = Some MiTail"
| "mi_start _ _ = None"

fun mi_pushed_by :: "mi_caller \<Rightarrow> mi_pc" where
  "mi_pushed_by FromClient = MiOut MiPushed"
| "mi_pushed_by (FromPop tail) = MiLast tail"

text \<open>\<open>tail_.value = next\<close>, where \<open>pop\<close> moves on to the entry behind.\<close>

definition mi_advance :: "nat \<Rightarrow> mi_mem \<Rightarrow> mi_mem" where
  "mi_advance n m = m\<lparr>mi_tail := n, gi_chain := tl (gi_chain m)\<rparr>"

definition mi_take :: "nat \<Rightarrow> nat \<Rightarrow> mi_mem \<Rightarrow> mi_mem \<times> mi_pc" where
  "mi_take tail n m = ((mi_advance n m)\<lparr>gi_popped := gi_popped m @ [tail]\<rparr>, MiOut (MiPopped (Some tail)))"

fun mi_exec :: "mi_mem \<Rightarrow> mi_pc \<Rightarrow> (mi_mem \<times> mi_pc \<times> keff) option" where
  "mi_exec m (MiOut r) = None"
| "mi_exec m (MiClear c entry) = Some (m\<lparr>mi_next := (mi_next m)(entry := None)\<rparr>, MiXchg c entry, KNone)"
| "mi_exec m (MiXchg c entry) =
     Some (m\<lparr>mi_head := entry, gi_chain := gi_chain m @ [entry],
             gi_pushed := (if entry = stub then gi_pushed m else gi_pushed m @ [entry])\<rparr>,
           MiLink c (mi_head m) entry, KNone)"
| "mi_exec m (MiLink c prev entry) =
     Some (m\<lparr>mi_next := (mi_next m)(prev := Some entry)\<rparr>, mi_pushed_by c, KNone)"
| "mi_exec m MiTail =
     (let tail = mi_tail m
      in case mi_next m tail of
           None \<Rightarrow> if tail = stub then Some (m, MiOut (MiPopped None), KNone) else Some (m, MiHead tail, KNone)
         | Some n \<Rightarrow>
             if tail = stub then Some (mi_advance n m, MiSecond n, KNone)
             else (case mi_take tail n m of (m', l) \<Rightarrow> Some (m', l, KNone)))"
| "mi_exec m (MiSecond tail) =
     (case mi_next m tail of
        None \<Rightarrow> Some (m, MiHead tail, KNone)
      | Some n \<Rightarrow> (case mi_take tail n m of (m', l) \<Rightarrow> Some (m', l, KNone)))"
| "mi_exec m (MiHead tail) =
     (if tail \<noteq> mi_head m then Some (m, MiOut (MiPopped None), KNone)
      else Some (m, MiClear (FromPop tail) stub, KNone))"
| "mi_exec m (MiLast tail) =
     (case mi_next m tail of
        None \<Rightarrow> Some (m, MiOut (MiPopped None), KNone)
      | Some n \<Rightarrow> (case mi_take tail n m of (m', l) \<Rightarrow> Some (m', l, KNone)))"

text \<open>
  The contract of the clients: thread 0 is the consumer; an entry is given to \<open>push\<close> while it is in
  no queue and in no other call of \<open>push\<close>.
\<close>

fun mi_pushing :: "nat \<Rightarrow> mi_pc \<Rightarrow> bool" where
  "mi_pushing e (MiClear c e') = (e = e')"
| "mi_pushing e (MiXchg c e') = (e = e')"
| "mi_pushing e _ = False"

fun mi_allowed :: "(mi_mem, mi_pc) fsys \<Rightarrow> mi_op act \<Rightarrow> bool" where
  "mi_allowed s (Invoke t (MiPush e)) =
     (e \<noteq> stub \<and> e \<notin> set (gi_chain (shm s)) \<and> \<not> list_ex (mi_pushing e) (pcs s))"
| "mi_allowed s (Invoke t MiPop) = (t = 0)"
| "mi_allowed s _ = True"

definition mi_step :: "mi_op act \<Rightarrow> (mi_mem, mi_pc) fsys \<Rightarrow> (mi_mem, mi_pc) fsys option" where
  "mi_step a s = (if mi_allowed s a then sys_step mi_exec mi_start a s else None)"

definition mi_init :: "nat \<Rightarrow> (mi_mem, mi_pc) fsys" where
  "mi_init n = sys_init mi_mem0 (MiOut MiNothing) n"

abbreviation mi_reachable :: "nat \<Rightarrow> (mi_mem, mi_pc) fsys \<Rightarrow> bool" where
  "mi_reachable n \<equiv> reachable mi_step (mi_init n)"

fun_cases mi_start_cases: "mi_start op l = Some l'"

section \<open>The chain\<close>

definition edges :: "nat list \<Rightarrow> (nat \<times> nat) set" where
  "edges c = set (zip c (tl c))"

lemma edges_simps [simp]: "edges [] = {}" "edges [x] = {}" "edges (x # y # c) = insert (x, y) (edges (y # c))"
  by (auto simp: edges_def)

lemma edges_snoc: "c \<noteq> [] \<Longrightarrow> edges (c @ [e]) = insert (last c, e) (edges c)"
  by (induction c rule: induct_list012) auto

lemma edges_in: "(p, e) \<in> edges c \<Longrightarrow> p \<in> set c \<and> e \<in> set c"
  by (induction c rule: induct_list012) auto

lemma edges_tl: "edges (tl c) \<subseteq> edges c"
  by (induction c rule: induct_list012) auto

lemma edges_not_last: "distinct c \<Longrightarrow> (p, e) \<in> edges c \<Longrightarrow> p \<noteq> last c"
  by (induction c rule: induct_list012) (auto dest: edges_in)

lemma edges_fun: "distinct c \<Longrightarrow> (p, e) \<in> edges c \<Longrightarrow> (p, e') \<in> edges c \<Longrightarrow> e = e'"
  by (induction c rule: induct_list012) (auto dest: edges_in)

lemma edges_drop: "distinct c \<Longrightarrow> (p, e) \<in> edges c \<Longrightarrow> p \<noteq> hd c \<Longrightarrow> (p, e) \<in> edges (tl c)"
  by (induction c rule: induct_list012) auto

lemma edges_hd: "c \<noteq> [] \<Longrightarrow> hd c \<noteq> last c \<Longrightarrow> tl c \<noteq> [] \<and> (hd c, hd (tl c)) \<in> edges c"
  by (induction c rule: induct_list012) auto

section \<open>The invariant\<close>

definition mi_chain_ok :: "mi_mem \<Rightarrow> bool" where
  "mi_chain_ok m \<longleftrightarrow> gi_chain m \<noteq> [] \<and> distinct (gi_chain m) \<and> hd (gi_chain m) = mi_tail m \<and>
     last (gi_chain m) = mi_head m \<and> mi_next m (mi_head m) = None \<and>
     (\<forall>(p, e) \<in> edges (gi_chain m). mi_next m p = Some e \<or> mi_next m p = None) \<and>
     gi_pushed m = gi_popped m @ filter (\<lambda>e. e \<noteq> stub) (gi_chain m)"

text \<open>Every link that is missing is about to be made by one thread.\<close>

definition mi_links :: "mi_mem \<Rightarrow> mi_pc list \<Rightarrow> bool" where
  "mi_links m ls \<longleftrightarrow> (\<forall>(p, e) \<in> edges (gi_chain m). mi_next m p = None \<longrightarrow>
     (\<exists>t < length ls. \<exists>c. ls ! t = MiLink c p e))"

fun mi_caller_ok :: "mi_mem \<Rightarrow> nat \<Rightarrow> mi_caller \<Rightarrow> nat \<Rightarrow> bool" where
  "mi_caller_ok m t FromClient e = (e \<noteq> stub)"
| "mi_caller_ok m t (FromPop tail) e = (e = stub \<and> t = 0 \<and> tail = mi_tail m \<and> tail \<noteq> stub)"

fun mi_local :: "mi_mem \<Rightarrow> nat \<Rightarrow> mi_pc \<Rightarrow> bool" where
  "mi_local m t (MiOut r) = True"
| "mi_local m t (MiClear c e) = (mi_caller_ok m t c e \<and> e \<notin> set (gi_chain m))"
| "mi_local m t (MiXchg c e) = (mi_caller_ok m t c e \<and> e \<notin> set (gi_chain m) \<and> mi_next m e = None)"
| "mi_local m t (MiLink c p e) = (mi_caller_ok m t c e \<and> (p, e) \<in> edges (gi_chain m) \<and> mi_next m p = None)"
| "mi_local m t MiTail = (t = 0)"
| "mi_local m t (MiSecond tail) = (t = 0 \<and> tail = mi_tail m \<and> tail \<noteq> stub)"
| "mi_local m t (MiHead tail) = (t = 0 \<and> tail = mi_tail m \<and> tail \<noteq> stub)"
| "mi_local m t (MiLast tail) = (t = 0 \<and> tail = mi_tail m \<and> tail \<noteq> stub)"

fun mi_apart :: "mi_pc \<Rightarrow> mi_pc \<Rightarrow> bool" where
  "mi_apart (MiLink c p e) (MiLink c' p' e') = (p \<noteq> p')"
| "mi_apart (MiClear c e) l = (\<not> mi_pushing e l)"
| "mi_apart (MiXchg c e) l = (\<not> mi_pushing e l)"
| "mi_apart _ _ = True"

definition mi_inv :: "mi_mem \<Rightarrow> mi_pc list \<Rightarrow> bool" where
  "mi_inv m ls \<longleftrightarrow> mi_chain_ok m \<and> mi_links m ls \<and> (\<forall>t < length ls. mi_local m t (ls ! t)) \<and>
     (\<forall>t < length ls. \<forall>u < length ls. t \<noteq> u \<longrightarrow> mi_apart (ls ! t) (ls ! u))"

lemma mi_exec_plain: "mi_exec m l = Some (m', l', k) \<Longrightarrow> k = KNone"
  by (cases l) (auto simp: Let_def mi_take_def split: if_splits option.splits)

interpretation mi: futex_client mi_exec mi_start "\<lambda>_. False" "MiOut MiNothing"
  by unfold_locales (auto dest: mi_exec_plain)

section \<open>Steps\<close>

lemma mi_chain_facts:
  assumes "mi_chain_ok m"
  shows "(p, e) \<in> edges (gi_chain m) \<Longrightarrow> p \<in> set (gi_chain m) \<and> e \<in> set (gi_chain m) \<and> p \<noteq> mi_head m"
    and "mi_next m (mi_tail m) = Some n \<Longrightarrow> tl (gi_chain m) \<noteq> [] \<and> hd (tl (gi_chain m)) = n \<and>
      last (tl (gi_chain m)) = mi_head m \<and> gi_chain m = mi_tail m # tl (gi_chain m)"
    and "mi_tail m \<in> set (gi_chain m)" "mi_head m \<in> set (gi_chain m)"
proof -
  note ok = assms [unfolded mi_chain_ok_def]
  show "(p, e) \<in> edges (gi_chain m) \<Longrightarrow> p \<in> set (gi_chain m) \<and> e \<in> set (gi_chain m) \<and> p \<noteq> mi_head m"
    using ok edges_in [of p e] edges_not_last [of "gi_chain m" p e] by auto
  show "mi_tail m \<in> set (gi_chain m)" "mi_head m \<in> set (gi_chain m)"
    using ok hd_in_set last_in_set by fastforce+
  assume n: "mi_next m (mi_tail m) = Some n"
  then have "hd (gi_chain m) \<noteq> last (gi_chain m)"
    using ok by auto
  then have e: "tl (gi_chain m) \<noteq> []" "(hd (gi_chain m), hd (tl (gi_chain m))) \<in> edges (gi_chain m)"
    using ok edges_hd by blast+
  moreover have "hd (tl (gi_chain m)) = n"
    using ok e(2) n by auto
  moreover have "gi_chain m = mi_tail m # tl (gi_chain m)" "last (tl (gi_chain m)) = mi_head m"
    using ok e(1) by (metis list.collapse) (use ok e(1) in \<open>simp add: last_tl\<close>)
  ultimately show "tl (gi_chain m) \<noteq> [] \<and> hd (tl (gi_chain m)) = n \<and>
      last (tl (gi_chain m)) = mi_head m \<and> gi_chain m = mi_tail m # tl (gi_chain m)"
    by blast
qed

text \<open>The consumer's move to the next entry, with or without returning the one it leaves.\<close>

lemma mi_advance_ok:
  assumes ok: "mi_chain_ok m" and n: "mi_next m (mi_tail m) = Some n"
    and popped: "out = (if mi_tail m = stub then gi_popped m else gi_popped m @ [mi_tail m])"
  shows "mi_chain_ok ((mi_advance n m)\<lparr>gi_popped := out\<rparr>)"
proof -
  have c: "tl (gi_chain m) \<noteq> []" "hd (tl (gi_chain m)) = n" "last (tl (gi_chain m)) = mi_head m"
    "gi_chain m = mi_tail m # tl (gi_chain m)"
    using mi_chain_facts(2) [OF ok n] by blast+
  note ok = ok [unfolded mi_chain_ok_def]
  have "filter (\<lambda>e. e \<noteq> stub) (gi_chain m) =
      (if mi_tail m = stub then [] else [mi_tail m]) @ filter (\<lambda>e. e \<noteq> stub) (tl (gi_chain m))"
    by (subst c(4)) simp
  then have "gi_pushed m = out @ filter (\<lambda>e. e \<noteq> stub) (tl (gi_chain m))"
    using ok popped by auto
  with ok c(1-3) edges_tl [of "gi_chain m"] distinct_tl [of "gi_chain m"] show ?thesis
    by (auto simp: mi_chain_ok_def mi_advance_def)
qed

lemma mi_advance_same: "(mi_advance n m)\<lparr>gi_popped := gi_popped m\<rparr> = mi_advance n m"
  by (simp add: mi_advance_def)

lemma mi_advance_simps [simp]:
  "mi_next (mi_advance n m) = mi_next m" "mi_tail (mi_advance n m) = n" "mi_head (mi_advance n m) = mi_head m"
  "gi_chain (mi_advance n m) = tl (gi_chain m)"
  by (simp_all add: mi_advance_def)

lemma mi_chain_push:
  assumes ok: "mi_chain_ok m" and e: "e \<notin> set (gi_chain m)" "mi_next m e = None"
  shows "mi_chain_ok (m\<lparr>mi_head := e, gi_chain := gi_chain m @ [e],
    gi_pushed := (if e = stub then gi_pushed m else gi_pushed m @ [e])\<rparr>)"
  using ok e by (auto simp: mi_chain_ok_def edges_snoc)

lemma mi_chain_link:
  assumes ok: "mi_chain_ok m" and e: "(p, e) \<in> edges (gi_chain m)"
  shows "mi_chain_ok (m\<lparr>mi_next := (mi_next m)(p := Some e)\<rparr>)"
proof -
  have "p \<noteq> mi_head m"
    using mi_chain_facts(1) [OF ok e] by blast
  moreover have "\<forall>(q, e') \<in> edges (gi_chain m).
      ((mi_next m)(p := Some e)) q = Some e' \<or> ((mi_next m)(p := Some e)) q = None"
  proof (intro ballI, unfold case_prod_unfold)
    fix x assume x: "x \<in> edges (gi_chain m)"
    then have "mi_next m (fst x) = Some (snd x) \<or> mi_next m (fst x) = None"
      using ok by (auto simp: mi_chain_ok_def)
    moreover have "fst x = p \<longrightarrow> snd x = e"
      using edges_fun [OF _ e, of "snd x"] ok x by (cases x) (auto simp: mi_chain_ok_def)
    ultimately show "((mi_next m)(p := Some e)) (fst x) = Some (snd x) \<or> ((mi_next m)(p := Some e)) (fst x) = None"
      by simp
  qed
  ultimately show ?thesis
    using ok by (simp add: mi_chain_ok_def)
qed

lemma mi_chain_clear:
  assumes ok: "mi_chain_ok m" and e: "e \<notin> set (gi_chain m)"
  shows "mi_chain_ok (m\<lparr>mi_next := (mi_next m)(e := None)\<rparr>)"
proof -
  have "\<forall>(q, e') \<in> edges (gi_chain m). ((mi_next m)(e := None)) q = Some e' \<or> ((mi_next m)(e := None)) q = None"
    using ok by (fastforce simp: mi_chain_ok_def split: if_splits)
  then show ?thesis
    using ok by (simp add: mi_chain_ok_def)
qed

lemma mi_chain_step:
  assumes "mi_exec m l = Some (m', l', k)" "mi_chain_ok m" "mi_local m t l"
  shows "mi_chain_ok m'"
proof (cases l)
  case (MiXchg c e)
  with assms mi_chain_push [of m e] show ?thesis
    by auto
qed (use assms in \<open>auto simp: Let_def mi_take_def mi_chain_link mi_chain_clear mi_advance_ok
      mi_advance_ok [where out = "gi_popped m" and m = m, unfolded mi_advance_same]
      split: if_splits option.splits\<close>)

lemma in_set_tl: "x \<in> set (tl xs) \<Longrightarrow> x \<in> set xs"
  by (cases xs) auto

text \<open>What a step leaves alone.\<close>

lemma mi_step_frame:
  assumes ex: "mi_exec m l = Some (m', l', k)" and ok: "mi_chain_ok m" and loc: "mi_local m t l"
  shows "t \<noteq> 0 \<Longrightarrow> mi_tail m' = mi_tail m"
    and "e \<in> set (gi_chain m') \<Longrightarrow> e \<in> set (gi_chain m) \<or> mi_pushing e l"
    and "mi_next m' e \<noteq> mi_next m e \<Longrightarrow> mi_pushing e l \<or> (\<exists>c e'. l = MiLink c e e')"
    and "(p, e) \<in> edges (gi_chain m) \<Longrightarrow> mi_next m p = None \<Longrightarrow> (p, e) \<in> edges (gi_chain m')"
proof -
  show "t \<noteq> 0 \<Longrightarrow> mi_tail m' = mi_tail m"
    using ex loc by (cases l) (auto simp: Let_def mi_take_def mi_advance_def split: if_splits option.splits)
  show "e \<in> set (gi_chain m') \<Longrightarrow> e \<in> set (gi_chain m) \<or> mi_pushing e l"
    using ex by (cases l) (auto simp: Let_def mi_take_def dest: in_set_tl split: if_splits option.splits)
  show "mi_next m' e \<noteq> mi_next m e \<Longrightarrow> mi_pushing e l \<or> (\<exists>c e'. l = MiLink c e e')"
    using ex by (cases l) (auto simp: Let_def mi_take_def split: if_splits option.splits)
  assume pe: "(p, e) \<in> edges (gi_chain m)" "mi_next m p = None"
  have ne: "gi_chain m \<noteq> []" "distinct (gi_chain m)" "hd (gi_chain m) = mi_tail m"
    using ok by (simp_all add: mi_chain_ok_def)
  have drop: "(p, e) \<in> edges (tl (gi_chain m))" if "mi_next m (mi_tail m) = Some n" for n
    using edges_drop [OF ne(2) pe(1)] ne(3) pe(2) that by (cases "p = mi_tail m") auto
  show "(p, e) \<in> edges (gi_chain m')"
    using ex pe(1) drop loc ne(1)
    by (cases l) (auto simp: Let_def mi_take_def edges_snoc split: if_splits option.splits)
qed

lemma mi_links_step:
  assumes ex: "mi_exec m (ls ! t) = Some (m', l', k)" and ok: "mi_chain_ok m" and t: "t < length ls"
    and loc: "mi_local m t (ls ! t)" and links: "mi_links m ls"
  shows "mi_links m' (ls[t := l'])"
  unfolding mi_links_def
proof (clarify)
  fix p e assume pe: "(p, e) \<in> edges (gi_chain m')" and none: "mi_next m' p = None"
  show "\<exists>u < length (ls[t := l']). \<exists>c. ls[t := l'] ! u = MiLink c p e"
  proof (cases "(p, e) \<in> edges (gi_chain m)")
    case True
    have "mi_next m p = None"
    proof (rule ccontr)
      assume some: "mi_next m p \<noteq> None"
      with ex none have "mi_pushing p (ls ! t)"
        by (cases "ls ! t") (auto simp: Let_def mi_take_def split: if_splits option.splits)
      then have "p \<notin> set (gi_chain m)"
        using loc by (cases "ls ! t") auto
      with mi_chain_facts(1) [OF ok True] show False
        by blast
    qed
    then obtain u c where u: "u < length ls" "ls ! u = MiLink c p e"
      using links True by (auto simp: mi_links_def)
    have "u \<noteq> t"
      using ex u(2) none by auto
    with u show ?thesis
      by (intro exI [of _ u]) auto
  next
    case False
    have "gi_chain m \<noteq> []"
      using ok by (simp add: mi_chain_ok_def)
    with ex pe False obtain c where "l' = MiLink c p e"
      using edges_tl [of "gi_chain m"] ok
      by (cases "ls ! t") (auto simp: Let_def mi_take_def edges_snoc mi_chain_ok_def split: if_splits option.splits)
    with t show ?thesis
      by (intro exI [of _ t]) auto
  qed
qed

lemma mi_own_local:
  assumes ex: "mi_exec m l = Some (m', l', k)" and ok: "mi_chain_ok m" and loc: "mi_local m t l"
  shows "mi_local m' t l'"
proof (cases l)
  case (MiXchg c e)
  with assms show ?thesis
    by (cases c) (auto simp: edges_snoc mi_chain_ok_def)
next
  case (MiLink c p e)
  with assms show ?thesis
    by (cases c) auto
next
  case (MiClear c e)
  with assms show ?thesis
    by (cases c) auto
next
  case MiTail
  have "n \<noteq> stub" if "mi_next m (mi_tail m) = Some n" "mi_tail m = stub" for n
  proof -
    have "stub \<notin> set (tl (gi_chain m))" "n \<in> set (tl (gi_chain m))"
      using mi_chain_facts(2) [OF ok that(1)] ok that(2)
      by (metis distinct.simps(2) mi_chain_ok_def) (use mi_chain_facts(2) [OF ok that(1)] in force)
    then show ?thesis
      by blast
  qed
  with MiTail assms show ?thesis
    by (auto simp: Let_def mi_take_def split: if_splits option.splits)
next
  case (MiHead tail)
  have "stub \<notin> set (gi_chain m)" if "mi_tail m = mi_head m" "mi_tail m \<noteq> stub"
  proof -
    have "tl (gi_chain m) = []"
    proof (rule ccontr)
      assume ne: "tl (gi_chain m) \<noteq> []"
      then have "last (tl (gi_chain m)) = hd (gi_chain m)"
        using ok that(1) by (simp add: mi_chain_ok_def last_tl)
      with ne ok last_in_set [OF ne] show False
        by (cases "gi_chain m") (auto simp: mi_chain_ok_def)
    qed
    with ok that(2) show ?thesis
      by (cases "gi_chain m") (auto simp: mi_chain_ok_def)
  qed
  with MiHead assms show ?thesis
    by (auto split: if_splits)
qed (use assms in \<open>auto simp: Let_def mi_take_def split: if_splits option.splits\<close>)

lemma mi_other_local:
  assumes ex: "mi_exec m l = Some (m', l', k)" and ok: "mi_chain_ok m" and loc: "mi_local m t l"
    and v: "mi_local m u v" and ne: "t \<noteq> u" and ap: "mi_apart l v" "mi_apart v l"
  shows "mi_local m' u v"
proof -
  note frame = mi_step_frame [OF ex ok loc]
  have caller: "mi_caller_ok m' u c e" if "mi_caller_ok m u c e" for c e
    using that ne frame(1) by (cases c) auto
  have tail: "mi_tail m' = mi_tail m" if "u = 0"
    using ne frame(1) that by simp
  have out: "e \<notin> set (gi_chain m')" if "e \<notin> set (gi_chain m)" "mi_pushing e v" for e
    using frame(2) [of e] that ap by (cases v) auto
  have still: "mi_next m' e = mi_next m e" if "\<not> mi_pushing e l" "\<And>c e'. l \<noteq> MiLink c e e'" for e
    using frame(3) [of e] that by blast
  show ?thesis
  proof (cases v)
    case (MiXchg c e)
    have "mi_next m' e = None"
    proof (rule still [THEN trans])
      show "\<not> mi_pushing e l"
        using ap MiXchg by (cases l) auto
      show "l \<noteq> MiLink c' e e'" for c' e'
        using loc v MiXchg edges_in [of e e' "gi_chain m"] by auto
    qed (use v MiXchg in simp)
    then show ?thesis
      using v MiXchg caller out by simp
  next
    case (MiLink c p e)
    have "mi_next m' p = None"
    proof (rule still [THEN trans])
      show "\<not> mi_pushing p l"
        using loc v MiLink edges_in [of p e "gi_chain m"] by (cases l) auto
      show "l \<noteq> MiLink c' p e'" for c' e'
        using ap MiLink by auto
    qed (use v MiLink in simp)
    then show ?thesis
      using v MiLink caller frame(4) by simp
  qed (use v caller out tail in auto)
qed

lemma mi_apart_step:
  assumes ex: "mi_exec m l = Some (m', l', k)" and ok: "mi_chain_ok m" and loc: "mi_local m t l"
    and v: "mi_local m u v" and ne: "t \<noteq> u" and ap: "mi_apart l v" "mi_apart v l"
  shows "mi_apart l' v \<and> mi_apart v l'"
proof (cases l)
  case (MiXchg c e)
  then have l': "l' = MiLink c (mi_head m) e"
    using ex by auto
  show ?thesis
    using v mi_chain_facts(1) [OF ok] unfolding l' by (cases v) auto
next
  case (MiHead tail)
  have "\<not> mi_pushing stub v"
    using v ne loc MiHead by (cases v) (auto elim: mi_caller_ok.elims)
  then show ?thesis
    using ex MiHead by (cases v) (auto split: if_splits)
next
  case (MiLink c p e)
  then show ?thesis
    using ex by (cases c; cases v) auto
next
  case (MiClear c e)
  then show ?thesis
    using ex ap by (cases v) auto
qed (use ex in \<open>cases v; auto simp: Let_def mi_take_def split: if_splits option.splits\<close>)+

lemma mi_inv_exec:
  assumes I: "mi_inv m ls" and t: "t < length ls" and ex: "mi_exec m (ls ! t) = Some (m', l', k)"
  shows "mi_inv m' (ls[t := l'])"
proof -
  have ok: "mi_chain_ok m" and links: "mi_links m ls" and loc: "\<And>u. u < length ls \<Longrightarrow> mi_local m u (ls ! u)"
    and ap: "\<And>u v. u < length ls \<Longrightarrow> v < length ls \<Longrightarrow> u \<noteq> v \<Longrightarrow> mi_apart (ls ! u) (ls ! v)"
    using I by (auto simp: mi_inv_def)
  have "mi_local m' u (ls[t := l'] ! u)" if "u < length ls" for u
    using mi_own_local [OF ex ok loc [OF t]] mi_other_local [OF ex ok loc [OF t] loc [OF that]] ap t that
    by (cases "u = t") auto
  moreover have "mi_apart (ls[t := l'] ! u) (ls[t := l'] ! v)" if "u < length ls" "v < length ls" "u \<noteq> v" for u v
    using mi_apart_step [OF ex ok loc [OF t] loc] ap t that
    by (cases "u = t"; cases "v = t") auto
  ultimately show ?thesis
    using mi_chain_step [OF ex ok loc [OF t]] mi_links_step [OF ex ok t loc [OF t] links]
    by (simp add: mi_inv_def)
qed

lemma mi_inv_invoke:
  assumes I: "mi_inv (shm s) (pcs s)" and t: "t < length (pcs s)" and l: "mi_start op (pcs s ! t) = Some l"
    and al: "mi_allowed s (Invoke t op)"
  shows "mi_inv (shm s) ((pcs s)[t := l])"
proof -
  let ?ls = "pcs s" and ?m = "shm s"
  obtain r where out: "?ls ! t = MiOut r"
    using l by (auto elim: mi_start_cases)
  have loc: "mi_local ?m t l"
    using l al out by (cases op) auto
  have push: "e \<noteq> stub \<and> \<not> mi_pushing e (?ls ! u)" if "l = MiClear c e" "u < length ?ls" for c e u
    using l al out that by (cases op) (auto simp: list_ex_length)
  have shape: "l = MiTail \<or> (\<exists>e. l = MiClear FromClient e)"
    using l out by (cases op) auto
  have ap: "mi_apart l (?ls ! u) \<and> mi_apart (?ls ! u) l" if "u < length ?ls" "u \<noteq> t" for u
    using shape push [OF _ that(1)] by (cases "?ls ! u") auto
  have "mi_links ?m (?ls[t := l])"
    unfolding mi_links_def
  proof (clarify)
    fix p e assume "(p, e) \<in> edges (gi_chain ?m)" "mi_next ?m p = None"
    then obtain u c where u: "u < length ?ls" "?ls ! u = MiLink c p e"
      using I by (auto simp: mi_inv_def mi_links_def)
    then have "u \<noteq> t"
      using out by auto
    with u show "\<exists>u < length (?ls[t := l]). \<exists>c. ?ls[t := l] ! u = MiLink c p e"
      by (intro exI [of _ u]) auto
  qed
  with I loc ap t show ?thesis
    by (auto simp: mi_inv_def nth_list_update)
qed

lemma mi_inv_init: "mi_inv mi_mem0 (replicate n (MiOut MiNothing))"
  by (simp add: mi_inv_def mi_mem0_def mi_chain_ok_def mi_links_def)

definition mi_sys_inv :: "nat \<Rightarrow> (mi_mem, mi_pc) fsys \<Rightarrow> bool" where
  "mi_sys_inv n s \<longleftrightarrow> mi_inv (shm s) (pcs s) \<and> waitq s = [] \<and> length (pcs s) = n"

lemma mi_invariant:
  assumes "mi_reachable n s"
  shows "mi_sys_inv n s"
proof (rule reachable_invariant [OF assms])
  show "mi_sys_inv n (mi_init n)"
    by (simp add: mi_sys_inv_def mi_init_def mi_inv_init)
  fix s a s' assume I: "mi_sys_inv n s" and stp: "mi_step a s = Some s'"
  have al: "mi_allowed s a" and sys: "sys_step mi_exec mi_start a s = Some s'"
    using stp by (auto simp: mi_step_def split: if_splits)
  from sys show "mi_sys_inv n s'"
  proof (cases rule: sys_stepE)
    case (invoke t op l)
    with I mi_inv_invoke [OF _ invoke(2,4)] al show ?thesis
      by (auto simp: mi_sys_inv_def)
  next
    case (exec t ws m' l k q')
    have "k = KNone"
      using exec(4) by (rule mi_exec_plain)
    with I exec mi_inv_exec [OF _ exec(2,4)] show ?thesis
      by (auto simp: mi_sys_inv_def)
  next
    case (spurious t)
    with I show ?thesis
      by (simp add: mi_sys_inv_def)
  qed
qed

section \<open>Properties\<close>

text \<open>
  C6. First in, first out: at every moment the entries returned so far, followed by those in the
  chain from \<open>tail_\<close> to \<open>head_\<close> without the stub, are the entries pushed so far in the order of their
  exchanges; and nothing in the chain is there twice. So no entry is lost, returned twice or
  overtaken, also when entries are pushed again after they were popped.
\<close>
theorem mpsc_intrusive_fifo:
  assumes "mi_reachable n s"
  shows "gi_pushed (shm s) = gi_popped (shm s) @ filter (\<lambda>e. e \<noteq> stub) (gi_chain (shm s)) \<and>
    distinct (gi_chain (shm s)) \<and> hd (gi_chain (shm s)) = mi_tail (shm s) \<and> last (gi_chain (shm s)) = mi_head (shm s)"
  using mi_invariant [OF assms] by (simp add: mi_sys_inv_def mi_inv_def mi_chain_ok_def)

text \<open>The demonstration: thread 1 has exchanged entry 5 and not linked it; thread 2 has pushed 6 behind it.\<close>

definition mi_demo :: "mi_op act list" where
  "mi_demo = [Invoke 1 (MiPush 4), Step 1 [], Step 1 [], Step 1 [], Invoke 0 MiPop, Step 0 [],
     Invoke 1 (MiPush 5), Step 1 [], Step 1 [], Invoke 2 (MiPush 6), Step 2 [], Step 2 [], Step 2 []]"

definition mi_demo_state :: "(mi_mem, mi_pc) fsys" where
  "mi_demo_state = the (run mi_step mi_demo (mi_init 3))"

lemma mi_demo_facts: "\<not> Option.is_none (run mi_step mi_demo (mi_init 3)) \<and>
    gi_pushed (shm mi_demo_state) = [4, 5, 6] \<and> gi_popped (shm mi_demo_state) = [] \<and>
    gi_chain (shm mi_demo_state) = [4, 5, 6] \<and> mi_next (shm mi_demo_state) 4 = None \<and>
    mi_next (shm mi_demo_state) 5 = Some 6"
  by code_simp

lemma mi_demo_reachable: "mi_reachable 3 mi_demo_state"
proof (rule run_reachable [of _ mi_demo])
  show "run mi_step mi_demo (mi_init 3) = Some mi_demo_state"
    using mi_demo_facts unfolding mi_demo_state_def by (cases "run mi_step mi_demo (mi_init 3)") auto
qed

theorem mpsc_intrusive_fifo_witness:
  "gi_pushed (shm mi_demo_state) = [] @ [4, 5, 6] \<and> hd [4, 5, 6] = mi_tail (shm mi_demo_state) \<and>
    last [4, 5, 6] = mi_head (shm mi_demo_state)"
  using mpsc_intrusive_fifo [OF mi_demo_reachable] mi_demo_facts by (simp add: stub_def)

section \<open>A pop on its own\<close>

fun mi_linking :: "mi_pc \<Rightarrow> bool" where
  "mi_linking (MiLink c p e) = True"
| "mi_linking _ = False"

lemma mi_pop_single:
  assumes "mi_head m = y" "y \<noteq> stub" "mi_next m y = None"
  shows "\<exists>m'. plain_run mi_exec 5 m (MiHead y) = Some (m', MiOut (MiPopped (Some y))) \<and>
    gi_popped m' = gi_popped m @ [y] \<and> gi_pushed m' = gi_pushed m"
  using assms by (simp add: eval_nat_numeral mi_take_def mi_advance_def)

lemma mi_pop_alone:
  assumes ok: "mi_chain_ok m" and linked: "\<forall>(p, e) \<in> edges (gi_chain m). mi_next m p = Some e"
  shows "\<exists>k m'. plain_run mi_exec k m MiTail = Some (m', MiOut (MiPopped (case filter (\<lambda>e. e \<noteq> stub) (gi_chain m) of
      [] \<Rightarrow> None | e # _ \<Rightarrow> Some e))) \<and>
    gi_popped m' = gi_popped m @ take 1 (filter (\<lambda>e. e \<noteq> stub) (gi_chain m)) \<and> gi_pushed m' = gi_pushed m"
proof -
  note ok = ok [unfolded mi_chain_ok_def]
  obtain x c where c: "gi_chain m = x # c"
    using ok by (cases "gi_chain m") auto
  have x: "mi_tail m = x"
    using ok c by simp
  have single: ?thesis if run: "plain_run mi_exec i m MiTail = Some (m1, MiHead y)"
      and m1: "gi_popped m1 = gi_popped m" "gi_pushed m1 = gi_pushed m" "mi_next m1 = mi_next m" "mi_head m1 = mi_head m"
      and y: "mi_head m = y" "y \<noteq> stub" "filter (\<lambda>e. e \<noteq> stub) (gi_chain m) = [y]" for i m1 y
  proof -
    have "mi_next m1 y = None"
      using ok m1 y by auto
    from mi_pop_single [of m1 y, OF _ _ this] y m1 plain_run_append [OF run, of 5] show ?thesis
      by fastforce
  qed
  have take: "plain_run mi_exec 1 m1 l = Some ((mi_advance z m1)\<lparr>gi_popped := gi_popped m1 @ [y]\<rparr>, MiOut (MiPopped (Some y)))"
    if "l = MiTail \<and> mi_tail m1 = y \<and> y \<noteq> stub \<or> l = MiSecond y" "mi_next m1 y = Some z" for m1 l y z
    using that by (auto simp: mi_take_def Let_def)
  have finish: ?thesis
    if "plain_run mi_exec i m MiTail = Some ((mi_advance z m1)\<lparr>gi_popped := gi_popped m1 @ [y]\<rparr>, MiOut (MiPopped (Some y)))"
      and "gi_popped m1 = gi_popped m" "gi_pushed m1 = gi_pushed m" "filter (\<lambda>e. e \<noteq> stub) (gi_chain m) = y # q" for i z m1 y q
    by (rule exI [of _ i], rule exI [of _ "(mi_advance z m1)\<lparr>gi_popped := gi_popped m1 @ [y]\<rparr>"])
      (use that in \<open>simp del: plain_run.simps, simp add: mi_advance_def\<close>)
  show ?thesis
  proof (cases c)
    case Nil
    with ok c x have n: "mi_next m x = None" "mi_head m = x"
      by auto
    show ?thesis
    proof (cases "x = stub")
      case True
      with n x have "plain_run mi_exec 1 m MiTail = Some (m, MiOut (MiPopped None))"
        by simp
      with True c Nil show ?thesis
        by (intro exI [of _ 1] exI [of _ m]) simp
    next
      case False
      with n x have "plain_run mi_exec 1 m MiTail = Some (m, MiHead x)"
        by simp
      then show ?thesis
        by (rule single) (use False c Nil n in auto)
    qed
  next
    case (Cons y r)
    have n: "mi_next m x = Some y"
      using linked c Cons by simp
    show ?thesis
    proof (cases "x = stub")
      case False
      have "plain_run mi_exec 1 m MiTail = Some ((mi_advance y m)\<lparr>gi_popped := gi_popped m @ [x]\<rparr>, MiOut (MiPopped (Some x)))"
        by (rule take) (use n x False in auto)
      then show ?thesis
        by (rule finish) (use c False in auto)
    next
      case True
      let ?m = "mi_advance y m"
      have first: "plain_run mi_exec 1 m MiTail = Some (?m, MiSecond y)"
        using n x True by simp
      have y: "y \<noteq> stub"
        using ok c Cons True by auto
      show ?thesis
      proof (cases r)
        case Nil
        have y': "mi_head m = y" "mi_next m y = None"
          using ok c Cons Nil by auto
        have "plain_run mi_exec 1 ?m (MiSecond y) = Some (?m, MiHead y)"
          using y' by simp
        from plain_run_append [OF first, of 1] this have "plain_run mi_exec (1 + 1) m MiTail = Some (?m, MiHead y)"
          by (simp del: plain_run.simps)
        then show ?thesis
          by (rule single) (use y y' True c Cons Nil in \<open>auto simp: mi_advance_def\<close>)
      next
        case (Cons z r')
        have "mi_next ?m y = Some z"
          using linked c \<open>c = y # r\<close> Cons by simp
        from take [of "MiSecond y" ?m y z, OF _ this] plain_run_append [OF first, of 1]
        have "plain_run mi_exec (1 + 1) m MiTail =
            Some ((mi_advance z ?m)\<lparr>gi_popped := gi_popped ?m @ [y]\<rparr>, MiOut (MiPopped (Some y)))"
          by (simp del: plain_run.simps)
        then show ?thesis
          by (rule finish) (use True y c \<open>c = y # r\<close> in \<open>auto simp: mi_advance_def\<close>)
      qed
    qed
  qed
qed

lemma mi_run_alone: "plain_run mi_exec k m (ls ! t) = Some (m', l) \<Longrightarrow> t < length ls \<Longrightarrow>
    run mi_step (replicate k (Step t [])) \<lparr>shm = m, waitq = [], pcs = ls\<rparr> =
      Some \<lparr>shm = m', waitq = [], pcs = ls[t := l]\<rparr>"
proof (induction k arbitrary: m ls)
  case 0
  then show ?case
    by auto
next
  case (Suc k)
  then obtain m1 l1 where ex: "mi_exec m (ls ! t) = Some (m1, l1, KNone)" "plain_run mi_exec k m1 l1 = Some (m', l)"
    by (auto split: option.splits if_splits)
  then show ?case
    using Suc.IH [of m1 "ls[t := l1]"] Suc.prems(2) step_plain [of t ls "[]" mi_exec m m1 l1 mi_start "[]"]
    by (simp add: mi_step_def)
qed

text \<open>
  A pop that runs while no push is between its exchange and its store comes to its end and
  returns the oldest entry that was pushed and not popped yet, or nothing exactly if there is none.
\<close>
theorem mpsc_intrusive_pop:
  assumes reach: "mi_reachable n s" and n: "0 < n" and at: "pcs s ! 0 = MiTail"
    and quiet: "\<not> list_ex mi_linking (pcs s)"
  shows "\<exists>k s'. run mi_step (replicate k (Step 0 [])) s = Some s' \<and>
    pcs s' ! 0 = MiOut (MiPopped (if length (gi_popped (shm s)) < length (gi_pushed (shm s))
      then Some (gi_pushed (shm s) ! length (gi_popped (shm s))) else None)) \<and>
    gi_popped (shm s') = take (Suc (length (gi_popped (shm s)))) (gi_pushed (shm s))"
proof -
  let ?m = "shm s"
  have I: "mi_inv ?m (pcs s)" "waitq s = []" "length (pcs s) = n"
    using mi_invariant [OF reach] by (simp_all add: mi_sys_inv_def)
  have ok: "mi_chain_ok ?m" and links: "mi_links ?m (pcs s)"
    using I(1) by (simp_all add: mi_inv_def)
  have none: "pcs s ! u \<noteq> MiLink c p e" if "u < length (pcs s)" for u c p e
    using quiet that by (metis list_ex_length mi_linking.simps(1))
  have "mi_next ?m p = Some e" if "(p, e) \<in> edges (gi_chain ?m)" for p e
    using ok links none that by (fastforce simp: mi_chain_ok_def mi_links_def)
  then obtain k m' where run: "plain_run mi_exec k ?m (pcs s ! 0) =
      Some (m', MiOut (MiPopped (case filter (\<lambda>e. e \<noteq> stub) (gi_chain ?m) of [] \<Rightarrow> None | e # _ \<Rightarrow> Some e)))"
      and m': "gi_popped m' = gi_popped ?m @ take 1 (filter (\<lambda>e. e \<noteq> stub) (gi_chain ?m))" "gi_pushed m' = gi_pushed ?m"
    using mi_pop_alone [OF ok] at by auto
  have pushed: "gi_pushed ?m = gi_popped ?m @ filter (\<lambda>e. e \<noteq> stub) (gi_chain ?m)"
    using ok by (simp add: mi_chain_ok_def)
  have "s = \<lparr>shm = ?m, waitq = [], pcs = pcs s\<rparr>"
    using I(2) by simp
  with mi_run_alone [OF run] I(3) n have "run mi_step (replicate k (Step 0 [])) s = Some \<lparr>shm = m', waitq = [],
      pcs = (pcs s)[0 := MiOut (MiPopped (case filter (\<lambda>e. e \<noteq> stub) (gi_chain ?m) of [] \<Rightarrow> None | e # _ \<Rightarrow> Some e))]\<rparr>"
    by (metis)
  then show ?thesis
    using m' pushed I(3) n
    by (intro exI conjI) (auto simp: take_Suc nth_append split: list.split)
qed

definition mi_quiet :: "mi_op act list" where
  "mi_quiet = [Invoke 1 (MiPush 4), Step 1 [], Step 1 [], Step 1 [], Invoke 2 (MiPush 5), Step 2 [], Step 2 [], Step 2 [],
     Invoke 0 MiPop]"

definition mi_quiet_state :: "(mi_mem, mi_pc) fsys" where
  "mi_quiet_state = the (run mi_step mi_quiet (mi_init 3))"

lemma mi_quiet_facts: "\<not> Option.is_none (run mi_step mi_quiet (mi_init 3)) \<and>
    gi_pushed (shm mi_quiet_state) = [4, 5] \<and> gi_popped (shm mi_quiet_state) = [] \<and>
    pcs mi_quiet_state = [MiTail, MiOut MiPushed, MiOut MiPushed]"
  by code_simp

lemma mi_quiet_runs: "run mi_step mi_quiet (mi_init 3) = Some mi_quiet_state"
  using mi_quiet_facts unfolding mi_quiet_state_def by (cases "run mi_step mi_quiet (mi_init 3)") auto

theorem mpsc_intrusive_pop_witness:
  "\<exists>k s'. run mi_step (replicate k (Step 0 [])) mi_quiet_state = Some s' \<and> pcs s' ! 0 = MiOut (MiPopped (Some 4)) \<and>
     gi_popped (shm s') = [4]"
  using mpsc_intrusive_pop [OF run_reachable [OF mi_quiet_runs]] mi_quiet_facts by simp

text \<open>
  A pop that a push overlaps can come back empty-handed although an entry was in the queue all the
  time: here entry 4 is pushed, all calls are over, and the consumer calls \<open>pop\<close>; a producer's push of
  5, which begins and ends during it, changes \<open>head_\<close> after the consumer has read \<open>next\<close>, and the pop
  returns nothing. The header says it does so if the queue is empty.
\<close>
theorem mpsc_intrusive_pop_misses:
  "(let s = the (run mi_step [Invoke 1 (MiPush 4), Step 1 [], Step 1 [], Step 1 []] (mi_init 2));
        s' = the (run mi_step [Invoke 0 MiPop, Step 0 [], Step 0 [], Invoke 1 (MiPush 5), Step 1 [], Step 1 [], Step 1 [],
               Step 0 []] s)
    in mi_reachable 2 s \<and> pcs s = [MiOut MiNothing, MiOut MiPushed] \<and> gi_pushed (shm s) = [4] \<and> gi_popped (shm s) = [] \<and>
      mi_reachable 2 s' \<and> pcs s' = [MiOut (MiPopped None), MiOut MiPushed] \<and> gi_pushed (shm s') = [4, 5] \<and>
      gi_popped (shm s') = [])"
proof -
  let ?a = "[Invoke 1 (MiPush 4), Step 1 [], Step 1 [], Step 1 []]"
  let ?b = "[Invoke 0 MiPop, Step 0 [], Step 0 [], Invoke 1 (MiPush 5), Step 1 [], Step 1 [], Step 1 [], Step 0 []]"
  let ?s = "the (run mi_step ?a (mi_init 2))"
  have facts: "\<not> Option.is_none (run mi_step ?a (mi_init 2))" "\<not> Option.is_none (run mi_step ?b ?s)"
    "pcs ?s = [MiOut MiNothing, MiOut MiPushed] \<and> gi_pushed (shm ?s) = [4] \<and> gi_popped (shm ?s) = []"
    "pcs (the (run mi_step ?b ?s)) = [MiOut (MiPopped None), MiOut MiPushed] \<and>
      gi_pushed (shm (the (run mi_step ?b ?s))) = [4, 5] \<and> gi_popped (shm (the (run mi_step ?b ?s))) = []"
    by code_simp+
  have a: "run mi_step ?a (mi_init 2) = Some ?s"
    using facts(1) by (simp del: run.simps add: Option.is_none_def)
  then have r: "mi_reachable 2 ?s"
    by (rule run_reachable)
  have b: "run mi_step ?b ?s = Some (the (run mi_step ?b ?s))"
    using facts(2) by (simp del: run.simps add: Option.is_none_def)
  from reachable_run [OF r b] r facts(3,4) show ?thesis
    unfolding Let_def by blast
qed

section \<open>Both calls are wait-free\<close>

fun mi_rank :: "mi_pc \<Rightarrow> nat" where
  "mi_rank (MiOut r) = 0"
| "mi_rank (MiClear c e) = (case c of FromClient \<Rightarrow> 3 | FromPop tail \<Rightarrow> 4)"
| "mi_rank (MiXchg c e) = (case c of FromClient \<Rightarrow> 2 | FromPop tail \<Rightarrow> 3)"
| "mi_rank (MiLink c p e) = (case c of FromClient \<Rightarrow> 1 | FromPop tail \<Rightarrow> 2)"
| "mi_rank MiTail = 7"
| "mi_rank (MiSecond tail) = 6"
| "mi_rank (MiHead tail) = 5"
| "mi_rank (MiLast tail) = 1"

lemma mi_rank_decreases: "mi_exec m l = Some (m', l', k) \<Longrightarrow> mi_rank l' < mi_rank l"
  by (cases l) (auto simp: Let_def mi_take_def split: if_splits option.splits mi_caller.splits elim: mi_pushed_by.elims)

lemma mi_exec_total: "(mi_exec m l = None) = (\<exists>r. l = MiOut r)"
  by (cases l) (auto simp: Let_def mi_take_def split: option.splits)

text \<open>
  C29. Whatever the other threads do to the memory between its steps, a thread inside a call of \<open>push\<close>
  or \<open>pop\<close> can always step, and has returned after 7 steps of its own at the latest.
\<close>
theorem mpsc_intrusive_wait_free:
  "(mi_exec m l = None \<longleftrightarrow> (\<exists>r. l = MiOut r)) \<and> mi_rank l \<le> 7 \<and>
   (case mi_exec m l of None \<Rightarrow> mi_rank l = 0 | Some (m', l', k) \<Rightarrow> mi_rank l' < mi_rank l)"
proof -
  have "mi_rank l \<le> 7"
    by (cases l) (auto split: mi_caller.splits)
  then show ?thesis
    using mi_exec_total [of m l] mi_rank_decreases [of m l] by (auto split: option.splits)
qed

end
