(* ===== verification/Telemetry.thy ===== *)
theory Telemetry
  imports Futex Complex_Main
begin

text \<open>
  \<^verbatim>\<open>psync_telemetry.h\<close>: the collector of wait times, the lock that carries one, and the registry.
  The lock inside is the template parameter \<open>Lock\<close>, an abstract exclusive lock; the cycle counter is
  the environment's. Shown: what the counters count, once all calls are over; that the recorded wait
  of one thread can be computed from the start of another; and what the registry keeps.
\<close>

section \<open>The collector and its lock\<close>

record LockTelemetry =
  total_wait_cycles :: u64
  total_contention_count :: u64
  acquisition_count :: u64
  max_wait_cycles :: u64

definition LockTelemetry0 :: LockTelemetry where
  "LockTelemetry0 = \<lparr>total_wait_cycles = 0, total_contention_count = 0, acquisition_count = 0, max_wait_cycles = 0\<rparr>"

text \<open>
  The quotients of the two averages, before they are rounded to a double; u32 and u64 counters below
  \<open>2 ^ 53\<close> convert exactly.
\<close>

definition get_average_wait_cycles :: "LockTelemetry \<Rightarrow> rat" where
  "get_average_wait_cycles d = (if total_contention_count d = 0 then 0
     else of_nat (unat (total_wait_cycles d)) / of_nat (unat (total_contention_count d)))"

definition get_contention_rate :: "LockTelemetry \<Rightarrow> rat" where
  "get_contention_rate d = (if acquisition_count d = 0 then 0
     else of_nat (unat (total_contention_count d)) / of_nat (unat (acquisition_count d)))"

text \<open>
  Auxiliary: \<open>g_waits\<close> are the waits recorded, \<open>g_taken\<close> how often the lock was acquired, \<open>g_missed\<close> how
  often \<open>try_lock\<close> failed, \<open>g_reset\<close> whether the telemetry was ever reset.
\<close>

record te_mem =
  te_data :: LockTelemetry
  te_start_time :: u64
  te_locked :: bool
  g_waits :: "u64 list"
  g_taken :: nat
  g_missed :: nat
  g_reset :: bool

definition te_mem0 :: te_mem where
  "te_mem0 = \<lparr>te_data = LockTelemetry0, te_start_time = 0, te_locked = False, g_waits = [], g_taken = 0,
     g_missed = 0, g_reset = False\<rparr>"

datatype te_result = TeNothing | TeBool bool | TeData LockTelemetry

datatype te_call = CallLock | CallTryLock

text \<open>
  \<open>TeOut\<close> and \<open>TeHeld\<close> are the clients' points without and with the lock. At \<open>TeStart\<close> and \<open>TeEnd\<close> the
  cycle counter is read. The point after the client's is carried by \<open>TeGet\<close> and \<open>TeReset\<close> as a flag.
\<close>

datatype te_pc =
    TeOut te_result
  | TeHeld te_result
  | TeStart te_call
  | TeStore te_call u64
  | TeTry te_call
  | TeSuccess te_call
  | TeLock
  | TeEnd te_call
  | TeRead te_call u64
  | TeAddWait te_call u64
  | TeAddContention te_call u64
  | TeAddAcquisition te_call u64
  | TeMaxLoad te_call u64
  | TeMax te_call u64 u64
  | TeUnlock
  | TeGetWait bool
  | TeGetContention bool u64
  | TeGetAcquisition bool u64 u64
  | TeGetMax bool u64 u64 u64
  | TeReset bool nat

text \<open>The operations of a client, and the value of the cycle counter.\<close>

datatype te_op = TeCall te_call | TeUnlockOp | TeGetOp | TeResetOp | TeCycles u64

definition te_client :: "bool \<Rightarrow> te_result \<Rightarrow> te_pc" where
  "te_client held r = (if held then TeHeld r else TeOut r)"

text \<open>\<open>enabled\<close> is \<open>PSYNC_ENABLE_TELEMETRY\<close>.\<close>

definition te_start :: "bool \<Rightarrow> te_op \<Rightarrow> te_pc \<Rightarrow> te_pc option" where
  "te_start enabled op l = (case op of
     TeCall c \<Rightarrow> (case l of TeOut r \<Rightarrow> Some (if enabled then TeStart c else TeTry c) | _ \<Rightarrow> None)
   | TeUnlockOp \<Rightarrow> (case l of TeHeld r \<Rightarrow> Some TeUnlock | _ \<Rightarrow> None)
   | TeGetOp \<Rightarrow> (case l of
        TeOut r \<Rightarrow> Some (if enabled then TeGetWait False else TeOut (TeData LockTelemetry0))
      | TeHeld r \<Rightarrow> Some (if enabled then TeGetWait True else TeHeld (TeData LockTelemetry0))
      | _ \<Rightarrow> None)
   | TeResetOp \<Rightarrow> (case l of
        TeOut r \<Rightarrow> Some (if enabled then TeReset False 0 else TeOut TeNothing)
      | TeHeld r \<Rightarrow> Some (if enabled then TeReset True 0 else TeHeld TeNothing)
      | _ \<Rightarrow> None)
   | TeCycles v \<Rightarrow> (case l of TeStart c \<Rightarrow> Some (TeStore c v) | TeEnd c \<Rightarrow> Some (TeRead c v) | _ \<Rightarrow> None))"

text \<open>Where a call ends: after a success, and after the contended record.\<close>

definition te_success :: "te_call \<Rightarrow> te_pc" where
  "te_success c = TeHeld (if c = CallLock then TeNothing else TeBool True)"

definition te_contended :: "te_call \<Rightarrow> te_pc" where
  "te_contended c = (if c = CallLock then TeHeld TeNothing else TeOut (TeBool False))"

definition te_add :: "(LockTelemetry \<Rightarrow> u64) \<Rightarrow> ((u64 \<Rightarrow> u64) \<Rightarrow> LockTelemetry \<Rightarrow> LockTelemetry) \<Rightarrow> u64 \<Rightarrow> te_mem \<Rightarrow> te_mem" where
  "te_add get upd x m = m\<lparr>te_data := upd (\<lambda>_. snd (atomic_fetch_add (get (te_data m)) x MO_relaxed)) (te_data m)\<rparr>"

fun te_exec :: "bool \<Rightarrow> te_mem \<Rightarrow> te_pc \<Rightarrow> (te_mem \<times> te_pc \<times> keff) option" where
  "te_exec enabled m (TeOut r) = None"
| "te_exec enabled m (TeHeld r) = None"
| "te_exec enabled m (TeStart c) = None"
| "te_exec enabled m (TeStore c v) = Some (m\<lparr>te_start_time := v\<rparr>, TeTry c, KNone)"
| "te_exec enabled m (TeTry c) =
     (if te_locked m
      then (case c of
          CallLock \<Rightarrow> Some (m, TeLock, KNone)
        | CallTryLock \<Rightarrow> Some (m\<lparr>g_missed := Suc (g_missed m)\<rparr>,
            if enabled then TeEnd c else te_contended c, KNone))
      else Some (m\<lparr>te_locked := True, g_taken := Suc (g_taken m)\<rparr>,
        if enabled then TeSuccess c else te_success c, KNone))"
| "te_exec enabled m (TeSuccess c) = Some (te_add acquisition_count acquisition_count_update 1 m, te_success c, KNone)"
| "te_exec enabled m TeLock =
     (if te_locked m then None
      else Some (m\<lparr>te_locked := True, g_taken := Suc (g_taken m)\<rparr>,
        if enabled then TeEnd CallLock else te_contended CallLock, KNone))"
| "te_exec enabled m (TeEnd c) = None"
| "te_exec enabled m (TeRead c end_time) = Some (m, TeAddWait c (end_time - te_start_time m), KNone)"
| "te_exec enabled m (TeAddWait c wait_cycles) =
     Some ((te_add total_wait_cycles total_wait_cycles_update wait_cycles m)\<lparr>g_waits := g_waits m @ [wait_cycles]\<rparr>,
       TeAddContention c wait_cycles, KNone)"
| "te_exec enabled m (TeAddContention c wait_cycles) =
     Some (te_add total_contention_count total_contention_count_update 1 m, TeAddAcquisition c wait_cycles, KNone)"
| "te_exec enabled m (TeAddAcquisition c wait_cycles) =
     Some (te_add acquisition_count acquisition_count_update 1 m, TeMaxLoad c wait_cycles, KNone)"
| "te_exec enabled m (TeMaxLoad c wait_cycles) =
     Some (m, TeMax c wait_cycles (atomic_load (max_wait_cycles (te_data m)) MO_relaxed), KNone)"
| "te_exec enabled m (TeMax c wait_cycles current_max) =
     (if current_max < wait_cycles then
        (case atomic_compare_exchange (max_wait_cycles (te_data m)) current_max wait_cycles MO_relaxed MO_relaxed of
           (True, w, _) \<Rightarrow> Some (m\<lparr>te_data := (te_data m)\<lparr>max_wait_cycles := w\<rparr>\<rparr>, te_contended c, KNone)
         | (False, w, expected) \<Rightarrow> Some (m, TeMax c wait_cycles expected, KNone))
      else Some (m, te_contended c, KNone))"
| "te_exec enabled m TeUnlock = Some (m\<lparr>te_locked := False\<rparr>, TeOut TeNothing, KNone)"
| "te_exec enabled m (TeGetWait h) =
     Some (m, TeGetContention h (atomic_load (total_wait_cycles (te_data m)) MO_relaxed), KNone)"
| "te_exec enabled m (TeGetContention h w) =
     Some (m, TeGetAcquisition h w (atomic_load (total_contention_count (te_data m)) MO_relaxed), KNone)"
| "te_exec enabled m (TeGetAcquisition h w c) =
     Some (m, TeGetMax h w c (atomic_load (acquisition_count (te_data m)) MO_relaxed), KNone)"
| "te_exec enabled m (TeGetMax h w c a) =
     Some (m, te_client h (TeData \<lparr>total_wait_cycles = w, total_contention_count = c, acquisition_count = a,
       max_wait_cycles = atomic_load (max_wait_cycles (te_data m)) MO_relaxed\<rparr>), KNone)"
| "te_exec enabled m (TeReset h i) =
     (let d = te_data m;
          d' = (if i = 0 then d\<lparr>total_wait_cycles := 0\<rparr> else if i = 1 then d\<lparr>total_contention_count := 0\<rparr>
                else if i = 2 then d\<lparr>acquisition_count := 0\<rparr> else d\<lparr>max_wait_cycles := 0\<rparr>)
      in Some (m\<lparr>te_data := d', g_reset := True\<rparr>, if i < 3 then TeReset h (Suc i) else te_client h TeNothing, KNone))"

definition te_step :: "bool \<Rightarrow> te_op act \<Rightarrow> (te_mem, te_pc) fsys \<Rightarrow> (te_mem, te_pc) fsys option" where
  "te_step enabled = sys_step (te_exec enabled) (te_start enabled)"

definition te_init :: "nat \<Rightarrow> (te_mem, te_pc) fsys" where
  "te_init n = sys_init te_mem0 (TeOut TeNothing) n"

abbreviation te_reachable :: "bool \<Rightarrow> nat \<Rightarrow> (te_mem, te_pc) fsys \<Rightarrow> bool" where
  "te_reachable enabled n \<equiv> reachable (te_step enabled) (te_init n)"

lemma te_exec_plain: "te_exec enabled m l = Some (m', l', k) \<Longrightarrow> k = KNone"
  by (cases l) (auto simp: Let_def split: if_splits te_call.splits prod.splits bool.splits)

interpretation te: futex_client "te_exec enabled" "te_start enabled" "\<lambda>_. False" "TeOut TeNothing" for enabled
  by unfold_locales (auto dest: te_exec_plain)

section \<open>What the counters count\<close>

text \<open>
  The calls whose acquisition is still to be counted, those whose contention is, and the waits the
  maximum has still to be compared with.
\<close>

fun te_to_count :: "te_pc \<Rightarrow> bool" where
  "te_to_count (TeSuccess c) = True"
| "te_to_count (TeEnd c) = True"
| "te_to_count (TeRead c v) = True"
| "te_to_count (TeAddWait c w) = True"
| "te_to_count (TeAddContention c w) = True"
| "te_to_count (TeAddAcquisition c w) = True"
| "te_to_count _ = False"

fun te_to_contend :: "te_pc \<Rightarrow> bool" where
  "te_to_contend (TeAddContention c w) = True"
| "te_to_contend _ = False"

fun te_to_compare :: "te_pc \<Rightarrow> u64 option" where
  "te_to_compare (TeAddContention c w) = Some w"
| "te_to_compare (TeAddAcquisition c w) = Some w"
| "te_to_compare (TeMaxLoad c w) = Some w"
| "te_to_compare (TeMax c w x) = Some w"
| "te_to_compare _ = None"

fun te_local :: "te_mem \<Rightarrow> te_pc \<Rightarrow> bool" where
  "te_local m (TeMax c w x) = (x \<le> max_wait_cycles (te_data m) \<and> w \<in> set (g_waits m))"
| "te_local m (TeMaxLoad c w) = (w \<in> set (g_waits m))"
| "te_local m (TeAddContention c w) = (w \<in> set (g_waits m))"
| "te_local m (TeAddAcquisition c w) = (w \<in> set (g_waits m))"
| "te_local m _ = True"

definition te_inv :: "te_mem \<Rightarrow> te_pc list \<Rightarrow> bool" where
  "te_inv m ls \<longleftrightarrow> g_reset m \<or>
     total_wait_cycles (te_data m) = sum_list (g_waits m) \<and>
     total_contention_count (te_data m) + of_nat (cnt te_to_contend ls) = of_nat (length (g_waits m)) \<and>
     acquisition_count (te_data m) + of_nat (cnt te_to_count ls) = of_nat (g_taken m + g_missed m) \<and>
     max_wait_cycles (te_data m) \<in> insert 0 (set (g_waits m)) \<and>
     (\<forall>w \<in> set (g_waits m). w \<le> max_wait_cycles (te_data m) \<or> (\<exists>t < length ls. te_to_compare (ls ! t) = Some w)) \<and>
     (\<forall>t < length ls. te_local m (ls ! t))"

lemma te_add_simps [simp]:
  "te_start_time (te_add g u x m) = te_start_time m" "te_locked (te_add g u x m) = te_locked m"
  "g_waits (te_add g u x m) = g_waits m" "g_taken (te_add g u x m) = g_taken m"
  "g_missed (te_add g u x m) = g_missed m" "g_reset (te_add g u x m) = g_reset m"
  "te_data (te_add g u x m) = u (\<lambda>_. g (te_data m) + x) (te_data m)"
  by (simp_all add: te_add_def)

text \<open>A step moves the acting thread and the counters together.\<close>

lemma te_exec_counts:
  assumes "te_exec enabled m l = Some (m', l', k)" "enabled" "\<not> g_reset m'"
  shows "total_contention_count (te_data m') + of_bool (te_to_contend l') + of_nat (length (g_waits m)) =
      total_contention_count (te_data m) + of_bool (te_to_contend l) + of_nat (length (g_waits m'))"
    and "acquisition_count (te_data m') + of_bool (te_to_count l') + of_nat (g_taken m + g_missed m) =
      acquisition_count (te_data m) + of_bool (te_to_count l) + of_nat (g_taken m' + g_missed m')"
    and "total_wait_cycles (te_data m') - sum_list (g_waits m') = total_wait_cycles (te_data m) - sum_list (g_waits m)"
  using assms by (cases l; auto simp: Let_def te_success_def te_contended_def te_client_def
    split: if_splits te_call.splits prod.splits)+

lemmas te_exec_unfold = Let_def te_success_def te_contended_def te_client_def atomic_compare_exchange_def atomic_load_def

lemma te_exec_reset: "te_exec enabled m l = Some (m', l', k) \<Longrightarrow> g_reset m \<Longrightarrow> g_reset m'"
  by (cases l) (auto simp: te_exec_unfold split: if_splits te_call.splits)

lemma te_exec_max:
  assumes "te_exec enabled m l = Some (m', l', k)" "\<not> g_reset m'" "te_local m l"
  shows "max_wait_cycles (te_data m') = max_wait_cycles (te_data m) \<or>
    max_wait_cycles (te_data m) \<le> max_wait_cycles (te_data m') \<and> max_wait_cycles (te_data m') \<in> set (g_waits m')"
proof (cases l)
  case (TeMax c w x)
  with assms show ?thesis
    by (auto simp: te_exec_unfold split: if_splits)
qed (use assms in \<open>auto simp: te_exec_unfold split: if_splits te_call.splits\<close>)

lemma te_exec_waits:
  assumes "te_exec enabled m l = Some (m', l', k)"
  shows "g_waits m' = g_waits m \<or> (\<exists>w. g_waits m' = g_waits m @ [w] \<and> te_to_compare l' = Some w)"
  using assms by (cases l) (auto simp: te_exec_unfold split: if_splits te_call.splits)

lemma te_exec_compare:
  assumes "te_exec enabled m l = Some (m', l', k)" "te_to_compare l = Some w" "te_local m l"
  shows "te_to_compare l' = Some w \<or> w \<le> max_wait_cycles (te_data m')"
  using assms by (cases l) (auto simp: te_exec_unfold not_less split: if_splits te_call.splits intro: order_trans)

lemma te_exec_local:
  assumes "te_exec enabled m l = Some (m', l', k)" "te_local m l"
  shows "te_local m' l'"
  using assms by (cases l) (auto simp: te_exec_unfold split: if_splits te_call.splits)

lemma te_local_mono: "te_local m v \<Longrightarrow> max_wait_cycles (te_data m) \<le> max_wait_cycles (te_data m') \<Longrightarrow>
    set (g_waits m) \<subseteq> set (g_waits m') \<Longrightarrow> te_local m' v"
  by (cases v) auto

lemma te_inv_exec:
  assumes I: "te_inv m ls" and t: "t < length ls" and ex: "te_exec True m (ls ! t) = Some (m', l', k)"
  shows "te_inv m' (ls[t := l'])"
proof (cases "g_reset m'")
  case False
  let ?mx = "\<lambda>m. max_wait_cycles (te_data m)"
  have inv: "total_wait_cycles (te_data m) = sum_list (g_waits m)"
    "total_contention_count (te_data m) + of_nat (cnt te_to_contend ls) = of_nat (length (g_waits m))"
    "acquisition_count (te_data m) + of_nat (cnt te_to_count ls) = of_nat (g_taken m + g_missed m)"
    "?mx m \<in> insert 0 (set (g_waits m))"
    "\<And>w. w \<in> set (g_waits m) \<Longrightarrow> w \<le> ?mx m \<or> (\<exists>t < length ls. te_to_compare (ls ! t) = Some w)"
    "\<And>t. t < length ls \<Longrightarrow> te_local m (ls ! t)"
    using I False te_exec_reset [OF ex] unfolding te_inv_def by blast+
  have mono: "?mx m \<le> ?mx m'" and mem: "?mx m' \<in> insert 0 (set (g_waits m'))" and sub: "set (g_waits m) \<subseteq> set (g_waits m')"
    using te_exec_max [OF ex False inv(6) [OF t]] te_exec_waits [OF ex] inv(4) by auto
  have "w \<le> ?mx m' \<or> (\<exists>u < length (ls[t := l']). te_to_compare (ls[t := l'] ! u) = Some w)" if w: "w \<in> set (g_waits m')" for w
  proof (cases "te_to_compare l' = Some w")
    case True
    with t show ?thesis
      by (intro disjI2 exI [of _ t]) simp
  next
    case new: False
    then have "w \<in> set (g_waits m)"
      using te_exec_waits [OF ex] w by auto
    then consider "w \<le> ?mx m" | u where "u < length ls" "te_to_compare (ls ! u) = Some w"
      using inv(5) by blast
    then show ?thesis
    proof cases
      case 1
      then have "w \<le> ?mx m'"
        using mono by (rule order_trans)
      then show ?thesis ..
    next
      case 2
      show ?thesis
      proof (cases "u = t")
        case True
        with te_exec_compare [OF ex _ inv(6) [OF t]] 2(2) new show ?thesis
          by blast
      next
        case False
        with 2 show ?thesis
          by (intro disjI2 exI [of _ u]) simp
      qed
    qed
  qed
  moreover have "te_local m' (ls[t := l'] ! u)" if "u < length ls" for u
    using te_exec_local [OF ex inv(6) [OF t]] te_local_mono [OF inv(6) mono sub] that t by (cases "u = t") auto
  moreover have "total_contention_count (te_data m') + of_nat (cnt te_to_contend (ls[t := l'])) = of_nat (length (g_waits m'))"
    using count_shift [OF te_exec_counts(1) [OF ex _ False] cnt_word_update [OF t] inv(2)] by simp
  moreover have "acquisition_count (te_data m') + of_nat (cnt te_to_count (ls[t := l'])) = of_nat (g_taken m' + g_missed m')"
    using count_shift [OF te_exec_counts(2) [OF ex _ False] cnt_word_update [OF t] inv(3)] by simp
  moreover have "total_wait_cycles (te_data m') = sum_list (g_waits m')"
    using te_exec_counts(3) [OF ex _ False] inv(1) by simp
  ultimately show ?thesis
    using mem by (auto simp: te_inv_def)
qed (simp add: te_inv_def)

lemma te_inv_invoke:
  assumes I: "te_inv m ls" and t: "t < length ls" and l: "te_start True op (ls ! t) = Some l"
  shows "te_inv m (ls[t := l])"
proof -
  have same: "te_to_contend l = te_to_contend (ls ! t)" "te_to_count l = te_to_count (ls ! t)"
    "te_to_compare (ls ! t) = None" "te_local m l"
    using l by (auto simp: te_start_def split: te_op.splits te_pc.splits)
  have "\<exists>u < length (ls[t := l]). te_to_compare (ls[t := l] ! u) = Some w"
    if "u < length ls" "te_to_compare (ls ! u) = Some w" for u w
    using that same(3) by (intro exI [of _ u]) (cases "u = t", auto)
  then have "\<forall>w \<in> set (g_waits m). w \<le> max_wait_cycles (te_data m) \<or>
      (\<exists>u < length (ls[t := l]). te_to_compare (ls[t := l] ! u) = Some w)" if "\<not> g_reset m"
    using I that unfolding te_inv_def by blast
  moreover have "\<forall>u < length (ls[t := l]). te_local m (ls[t := l] ! u)" if "\<not> g_reset m"
    using I that same(4) t unfolding te_inv_def by (simp add: nth_list_update)
  ultimately show ?thesis
    using I cnt_update_same [where P = te_to_contend, OF t same(1)] cnt_update_same [where P = te_to_count, OF t same(2)]
    unfolding te_inv_def by (cases "g_reset m") auto
qed

lemma te_inv_init: "te_inv te_mem0 (replicate n (TeOut TeNothing))"
  by (simp add: te_inv_def te_mem0_def LockTelemetry0_def cnt_replicate)

lemma te_invariant:
  assumes "te_reachable True n s"
  shows "te_inv (shm s) (pcs s)"
proof (rule te.system_invariant [where I = "\<lambda>m q ls. te_inv m ls",
    OF assms [unfolded te_step_def te_init_def] te_inv_init])
qed (auto intro: te_inv_invoke te_inv_exec)

fun te_at_client :: "te_pc \<Rightarrow> bool" where
  "te_at_client (TeOut r) = True"
| "te_at_client (TeHeld r) = True"
| "te_at_client _ = False"

section \<open>Properties\<close>

text \<open>
  C37. The counters: while nothing was reset and whenever no call is under way, the wait cycles are the
  sum of the recorded waits and the maximum their maximum, the contention count is their number, and
  the acquisition count is the number of times the lock was taken plus the number of times \<open>try_lock\<close>
  failed; under any interleaving, all modulo \<open>2 ^ 64\<close>.
\<close>
theorem telemetry_counters:
  assumes reach: "te_reachable True n s" and reset: "\<not> g_reset (shm s)" and out: "list_all te_at_client (pcs s)"
  shows "te_data (shm s) = \<lparr>total_wait_cycles = sum_list (g_waits (shm s)),
    total_contention_count = of_nat (length (g_waits (shm s))),
    acquisition_count = of_nat (g_taken (shm s) + g_missed (shm s)),
    max_wait_cycles = foldr max (g_waits (shm s)) 0\<rparr>"
proof -
  let ?m = "shm s"
  note inv = te_invariant [OF reach, unfolded te_inv_def]
  have client: "te_at_client (pcs s ! t)" if "t < length (pcs s)" for t
    using out that by (simp add: list_all_length)
  have zero: "cnt te_to_contend (pcs s) = 0" "cnt te_to_count (pcs s) = 0"
    using client unfolding cnt_0_iff by (metis te_at_client.simps te_to_contend.elims(2) te_to_count.elims(2))+
  have "te_to_compare (pcs s ! t) = None" if "t < length (pcs s)" for t
    using client [OF that] by (cases "pcs s ! t") auto
  then have le: "\<forall>w \<in> set (g_waits ?m). w \<le> max_wait_cycles (te_data ?m)"
    using inv reset by fastforce
  have fold: "x = foldr max ws 0" if "x \<in> insert 0 (set ws)" "\<forall>w \<in> set ws. w \<le> x" for x :: u64 and ws
  proof (rule antisym)
    show "x \<le> foldr max ws 0"
      using that(1) by (induction ws) (auto simp: le_max_iff_disj)
    show "foldr max ws 0 \<le> x"
      using that(2) by (induction ws) auto
  qed
  show ?thesis
    using inv reset zero fold [OF _ le] by (simp add: LockTelemetry.equality)
qed

text \<open>
  Thread 0 locks at cycle 100; thread 1 calls \<open>lock\<close> at cycle 200 and waits; thread 2's \<open>try_lock\<close> at
  cycle 300 fails, recorded at 310; then thread 0 unlocks and thread 1 goes on at 350.
\<close>

definition te_demo :: "te_op act list" where
  "te_demo = [Invoke 0 (TeCall CallLock), Invoke 0 (TeCycles 100), Step 0 [], Step 0 [], Step 0 [],
     Invoke 1 (TeCall CallLock), Invoke 1 (TeCycles 200), Step 1 [], Step 1 [],
     Invoke 2 (TeCall CallTryLock), Invoke 2 (TeCycles 300), Step 2 [], Step 2 [], Invoke 2 (TeCycles 310)]
     @ replicate 6 (Step 2 []) @ [Invoke 0 TeUnlockOp, Step 0 [], Step 1 [], Invoke 1 (TeCycles 350)]
     @ replicate 6 (Step 1 [])"

definition te_demo_state :: "(te_mem, te_pc) fsys" where
  "te_demo_state = the (run (te_step True) te_demo (te_init 3))"

lemma te_demo_facts: "\<not> Option.is_none (run (te_step True) te_demo (te_init 3)) \<and> \<not> g_reset (shm te_demo_state) \<and>
    pcs te_demo_state = [TeOut TeNothing, TeHeld TeNothing, TeOut (TeBool False)] \<and>
    g_waits (shm te_demo_state) = [10, 50] \<and> g_taken (shm te_demo_state) = 2 \<and> g_missed (shm te_demo_state) = 1"
  by code_simp

lemma te_demo_reachable: "te_reachable True 3 te_demo_state"
proof (rule run_reachable [of _ te_demo])
  show "run (te_step True) te_demo (te_init 3) = Some te_demo_state"
    using te_demo_facts unfolding te_demo_state_def by (cases "run (te_step True) te_demo (te_init 3)") auto
qed

theorem telemetry_counters_witness:
  "te_data (shm te_demo_state) = \<lparr>total_wait_cycles = 60, total_contention_count = 2, acquisition_count = 3,
     max_wait_cycles = 50\<rparr>"
  using telemetry_counters [OF te_demo_reachable] te_demo_facts by simp

text \<open>
  The start time is one cell for all threads: in the run above thread 1 called \<open>lock\<close> at cycle 200
  and had the lock at cycle 350, and the wait recorded for it is 50, counted from the start of thread
  2; and the failed \<open>try_lock\<close> is an acquisition, so that the lock was taken twice and the count is 3.
\<close>
theorem telemetry_start_is_shared:
  "(case run (te_step True) te_demo (te_init 3) of None \<Rightarrow> False
    | Some s \<Rightarrow> pcs s ! 1 = TeHeld TeNothing \<and> g_waits (shm s) = [310 - 300, 350 - 300] \<and>
        max_wait_cycles (te_data (shm s)) \<noteq> 350 - 200 \<and>
        g_taken (shm s) = 2 \<and> acquisition_count (te_data (shm s)) = 3)"
  by code_simp

section \<open>The registry\<close>

text \<open>A registry holds 64 entries; an entry without a collector is free.\<close>

definition MAX_LOCKS :: nat where "MAX_LOCKS = 64"

record LockEntry =
  le_name :: "string option"
  le_collector :: "nat option"

definition registry0 :: "LockEntry list" where
  "registry0 = replicate MAX_LOCKS \<lparr>le_name = None, le_collector = None\<rparr>"

fun register_from :: "LockEntry \<Rightarrow> LockEntry list \<Rightarrow> LockEntry list" where
  "register_from x [] = []"
| "register_from x (e # es) = (if le_collector e = None then x # es else e # register_from x es)"

definition register_lock :: "string \<Rightarrow> nat option \<Rightarrow> LockEntry list \<Rightarrow> LockEntry list" where
  "register_lock name collector entries = register_from \<lparr>le_name = Some name, le_collector = collector\<rparr> entries"

text \<open>
  What \<open>print_report\<close> prints: nothing of the locks if telemetry is off; else the entries with a collector,
  in their order, each with the five numbers of its collector's data.
\<close>

record report_line =
  rl_name :: "string option"
  rl_acquisitions :: u64
  rl_contentions :: u64
  rl_rate :: rat
  rl_average :: rat
  rl_max :: u64

definition report_line_of :: "string option \<Rightarrow> LockTelemetry \<Rightarrow> report_line" where
  "report_line_of name telemetry = \<lparr>rl_name = name, rl_acquisitions = acquisition_count telemetry,
     rl_contentions = total_contention_count telemetry, rl_rate = get_contention_rate telemetry * 100,
     rl_average = get_average_wait_cycles telemetry, rl_max = max_wait_cycles telemetry\<rparr>"

definition print_report :: "bool \<Rightarrow> (nat \<Rightarrow> LockTelemetry) \<Rightarrow> LockEntry list \<Rightarrow> report_line list" where
  "print_report enabled data entries =
     (if enabled
      then map (\<lambda>e. report_line_of (le_name e) (data (the (le_collector e)))) (filter (\<lambda>e. le_collector e \<noteq> None) entries)
      else [])"

text \<open>A \<open>RegisteredTelemetryLock\<close> is a fresh telemetry lock whose collector is put into the registry.\<close>

definition registered_construct :: "string \<Rightarrow> nat \<Rightarrow> LockEntry list \<Rightarrow> te_mem \<times> LockEntry list" where
  "registered_construct name self entries = (te_mem0, register_lock name (Some self) entries)"

lemma register_from_free:
  assumes "\<forall>e \<in> set es. le_collector e \<noteq> None" "le_collector f = None"
  shows "register_from x (es @ f # fs) = es @ x # fs"
  using assms by (induction es) auto

lemma register_from_full: "\<forall>e \<in> set es. le_collector e \<noteq> None \<Longrightarrow> register_from x es = es"
  by (induction es) auto

lemma registry_after:
  assumes "list_all (\<lambda>x. snd x \<noteq> None) rs"
  shows "fold (\<lambda>(n, c). register_lock n c) rs registry0 =
    map (\<lambda>(n, c). \<lparr>le_name = Some n, le_collector = c\<rparr>) (take MAX_LOCKS rs) @
    replicate (MAX_LOCKS - length rs) \<lparr>le_name = None, le_collector = None\<rparr>"
  using assms
proof (induction rs rule: rev_induct)
  case Nil
  then show ?case
    by (simp add: registry0_def)
next
  case (snoc r rs)
  obtain n c where r: "r = (n, c)" "c \<noteq> None"
    using snoc.prems by (cases r) auto
  let ?es = "map (\<lambda>(n, c). \<lparr>le_name = Some n, le_collector = c\<rparr>) (take MAX_LOCKS rs)"
  let ?free = "\<lparr>le_name = None, le_collector = None\<rparr> :: LockEntry"
  have used: "\<forall>e \<in> set ?es. le_collector e \<noteq> None"
    using snoc.prems by (auto simp: list_all_iff dest!: in_set_takeD)
  have "fold (\<lambda>(n, c). register_lock n c) (rs @ [r]) registry0 =
      register_lock n c (?es @ replicate (MAX_LOCKS - length rs) ?free)"
    using snoc r by simp
  also have "\<dots> = map (\<lambda>(n, c). \<lparr>le_name = Some n, le_collector = c\<rparr>) (take MAX_LOCKS (rs @ [r])) @
      replicate (MAX_LOCKS - length (rs @ [r])) ?free"
  proof (cases "length rs < MAX_LOCKS")
    case True
    then obtain k where "MAX_LOCKS - length rs = Suc k"
      by (cases "MAX_LOCKS - length rs") auto
    moreover from this have "MAX_LOCKS - Suc (length rs) = k"
      by simp
    ultimately show ?thesis
      using register_from_free [OF used, of ?free] r(1) True by (simp add: register_lock_def)
  next
    case False
    then show ?thesis
      using register_from_full [OF used] by (simp add: register_lock_def)
  qed
  finally show ?case .
qed

text \<open>
  The registry keeps the first 64 locks that were constructed, in their order, and drops the others;
  the report has one line for each of these, with its name and the numbers of its telemetry.
\<close>
theorem registry_keeps_first:
  "print_report True data (fold (\<lambda>(n, c) es. snd (registered_construct n c es)) locks registry0) =
    map (\<lambda>(n, c). report_line_of (Some n) (data c)) (take 64 locks)"
proof -
  let ?rs = "map (\<lambda>(n, c). (n, Some c)) locks"
  have "fold (\<lambda>(n, c) es. snd (registered_construct n c es)) locks registry0 =
      fold (\<lambda>(n, c). register_lock n c) ?rs registry0"
    by (simp add: fold_map comp_def case_prod_unfold registered_construct_def)
  also have "\<dots> = map (\<lambda>(n, c). \<lparr>le_name = Some n, le_collector = c\<rparr>) (take MAX_LOCKS ?rs) @
      replicate (MAX_LOCKS - length ?rs) \<lparr>le_name = None, le_collector = None\<rparr>"
    by (rule registry_after) (auto simp: list_all_iff)
  finally show ?thesis
    by (simp add: print_report_def MAX_LOCKS_def take_map filter_map comp_def case_prod_unfold)
qed

text \<open>
  \<open>ScopedTelemetryTimer\<close>: its destructor adds the elapsed cycles to a copy of the collector's data,
  which is what is left behind here as the second component, and the collector stays as it was.
\<close>

definition timer_destroy :: "bool \<Rightarrow> u64 \<Rightarrow> u64 \<Rightarrow> te_mem \<Rightarrow> te_mem \<times> LockTelemetry" where
  "timer_destroy enabled start_time end_time m =
     (let elapsed = end_time - start_time;
          telemetry = (if enabled then te_data m else LockTelemetry0)
      in (m, telemetry\<lparr>total_wait_cycles :=
            snd (atomic_fetch_add (total_wait_cycles telemetry) elapsed MO_relaxed)\<rparr>))"

end
