(* ===== verification/BatchStats.thy ===== *)
theory BatchStats
  imports Futex Complex_Main
begin

text \<open>
  The counters of \<^verbatim>\<open>psync_batch.h\<close>, \<open>BatchCounter\<close> and \<open>BatchTracker\<close>, one step per access. Shown:
  while nothing is reset they count every increment and every batch, modulo \<open>2 ^ 32\<close>, whatever the
  interleaving.
\<close>

section \<open>The counters\<close>

text \<open>
  \<open>bs_count\<close> is the word of a \<open>BatchCounter\<close>, the other two those of a \<open>BatchTracker\<close>. Auxiliary: the
  batches recorded, as the sizes given, and the increments; \<open>g_bs_reset\<close> whether anything was reset.
\<close>

record bs_mem =
  bs_count :: u32
  bs_operations :: u32
  bs_batches :: u32
  g_batches :: "nat list"
  g_increments :: nat
  g_bs_reset :: bool

definition bs_mem0 :: bs_mem where
  "bs_mem0 = \<lparr>bs_count = 0, bs_operations = 0, bs_batches = 0, g_batches = [], g_increments = 0, g_bs_reset = False\<rparr>"

datatype bs_result = BsNothing | BsValue u32 | BsAverage rat

datatype bs_pc =
    BsOut bs_result
  | BsIncrement
  | BsGet
  | BsResetCounter
  | BsAddOperations usize
  | BsAddBatch
  | BsGetOperations
  | BsGetBatches
  | BsAverageLoad
  | BsAverageLoad2 u32
  | BsResetOperations
  | BsResetBatches

datatype bs_op =
  OpIncrement | OpGet | OpResetCounter | OpRecordBatch usize | OpGetOperations | OpGetBatches | OpAverage | OpResetTracker

fun bs_entry :: "bs_op \<Rightarrow> bs_pc" where
  "bs_entry OpIncrement = BsIncrement"
| "bs_entry OpGet = BsGet"
| "bs_entry OpResetCounter = BsResetCounter"
| "bs_entry (OpRecordBatch operations) = BsAddOperations operations"
| "bs_entry OpGetOperations = BsGetOperations"
| "bs_entry OpGetBatches = BsGetBatches"
| "bs_entry OpAverage = BsAverageLoad"
| "bs_entry OpResetTracker = BsResetOperations"

definition bs_start :: "bs_op \<Rightarrow> bs_pc \<Rightarrow> bs_pc option" where
  "bs_start op l = (case l of BsOut r \<Rightarrow> Some (bs_entry op) | _ \<Rightarrow> None)"

text \<open>\<open>operations\<close> is cast to 32 bits; the average is the quotient before it is rounded to a double.\<close>

fun bs_exec :: "bs_mem \<Rightarrow> bs_pc \<Rightarrow> (bs_mem \<times> bs_pc \<times> keff) option" where
  "bs_exec m (BsOut r) = None"
| "bs_exec m BsIncrement =
     Some (m\<lparr>bs_count := snd (atomic_fetch_add (bs_count m) 1 MO_relaxed), g_increments := Suc (g_increments m)\<rparr>,
       BsOut BsNothing, KNone)"
| "bs_exec m BsGet = Some (m, BsOut (BsValue (atomic_load (bs_count m) MO_relaxed)), KNone)"
| "bs_exec m BsResetCounter =
     Some (m\<lparr>bs_count := atomic_store (bs_count m) 0 MO_relaxed, g_bs_reset := True\<rparr>, BsOut BsNothing, KNone)"
| "bs_exec m (BsAddOperations operations) =
     Some (m\<lparr>bs_operations := snd (atomic_fetch_add (bs_operations m) (ucast operations) MO_relaxed),
             g_batches := g_batches m @ [unat operations]\<rparr>, BsAddBatch, KNone)"
| "bs_exec m BsAddBatch =
     Some (m\<lparr>bs_batches := snd (atomic_fetch_add (bs_batches m) 1 MO_relaxed)\<rparr>, BsOut BsNothing, KNone)"
| "bs_exec m BsGetOperations = Some (m, BsOut (BsValue (atomic_load (bs_operations m) MO_relaxed)), KNone)"
| "bs_exec m BsGetBatches = Some (m, BsOut (BsValue (atomic_load (bs_batches m) MO_relaxed)), KNone)"
| "bs_exec m BsAverageLoad = Some (m, BsAverageLoad2 (atomic_load (bs_operations m) MO_relaxed), KNone)"
| "bs_exec m (BsAverageLoad2 ops) =
     (let batches = atomic_load (bs_batches m) MO_relaxed
      in Some (m, BsOut (BsAverage (if batches = 0 then 0 else of_nat (unat ops) / of_nat (unat batches))), KNone))"
| "bs_exec m BsResetOperations =
     Some (m\<lparr>bs_operations := atomic_store (bs_operations m) 0 MO_relaxed, g_bs_reset := True\<rparr>, BsResetBatches, KNone)"
| "bs_exec m BsResetBatches =
     Some (m\<lparr>bs_batches := atomic_store (bs_batches m) 0 MO_relaxed\<rparr>, BsOut BsNothing, KNone)"

definition bs_step :: "bs_op act \<Rightarrow> (bs_mem, bs_pc) fsys \<Rightarrow> (bs_mem, bs_pc) fsys option" where
  "bs_step = sys_step bs_exec bs_start"

definition bs_init :: "nat \<Rightarrow> (bs_mem, bs_pc) fsys" where
  "bs_init n = sys_init bs_mem0 (BsOut BsNothing) n"

abbreviation bs_reachable :: "nat \<Rightarrow> (bs_mem, bs_pc) fsys \<Rightarrow> bool" where
  "bs_reachable n \<equiv> reachable bs_step (bs_init n)"

lemma bs_exec_plain: "bs_exec m l = Some (m', l', k) \<Longrightarrow> k = KNone"
  by (cases l) (auto simp: Let_def)

interpretation bs: futex_client bs_exec bs_start "\<lambda>_. False" "BsOut BsNothing"
  by unfold_locales (auto dest: bs_exec_plain)

section \<open>What they count\<close>

definition bs_inv :: "bs_mem \<Rightarrow> bs_pc list \<Rightarrow> bool" where
  "bs_inv m ls \<longleftrightarrow> (g_bs_reset m = False \<longrightarrow>
     bs_count m = of_nat (g_increments m) \<and> bs_operations m = of_nat (sum_list (g_batches m)) \<and>
     bs_batches m + of_nat (cnt (\<lambda>l. l = BsAddBatch) ls) = of_nat (length (g_batches m)) \<and>
     cnt (\<lambda>l. l = BsResetBatches) ls = 0)"

lemma bs_inv_exec:
  assumes I: "bs_inv m ls" and t: "t < length ls" and ex: "bs_exec m (ls ! t) = Some (m', l', k)"
  shows "bs_inv m' (ls[t := l'])"
  unfolding bs_inv_def
proof
  assume r: "g_bs_reset m' = False"
  have r0: "g_bs_reset m = False"
    using ex r by (cases "ls ! t") (auto simp: Let_def)
  note inv = I [unfolded bs_inv_def, rule_format, OF r0]
  have none: "ls ! t \<noteq> BsResetBatches"
    using inv t unfolding cnt_0_iff by blast
  have u: "cnt P (ls[t := l']) + of_bool (P (ls ! t)) = cnt P ls + of_bool (P l')" for P
    using t by (rule cnt_update)
  have "cnt (\<lambda>l. l = BsResetBatches) (ls[t := l']) = 0"
    using u [of "\<lambda>l. l = BsResetBatches"] inv none ex r by (cases "ls ! t") (auto simp: Let_def)
  moreover have "bs_batches m' + of_bool (l' = BsAddBatch) + of_nat (length (g_batches m)) =
      bs_batches m + of_bool (ls ! t = BsAddBatch) + of_nat (length (g_batches m'))"
    using none ex by (cases "ls ! t") (auto simp: Let_def)
  from count_shift [OF this cnt_word_update [OF t, of "\<lambda>l. l = BsAddBatch"]] inv
  have "bs_batches m' + of_nat (cnt (\<lambda>l. l = BsAddBatch) (ls[t := l'])) = of_nat (length (g_batches m'))"
    by blast
  moreover have "bs_count m' = of_nat (g_increments m') \<and> bs_operations m' = of_nat (sum_list (g_batches m'))"
    using inv none ex r by (cases "ls ! t") (auto simp: Let_def)
  ultimately show "bs_count m' = of_nat (g_increments m') \<and> bs_operations m' = of_nat (sum_list (g_batches m')) \<and>
      bs_batches m' + of_nat (cnt (\<lambda>l. l = BsAddBatch) (ls[t := l'])) = of_nat (length (g_batches m')) \<and>
      cnt (\<lambda>l. l = BsResetBatches) (ls[t := l']) = 0"
    by blast
qed

lemma bs_inv_invoke:
  assumes "bs_inv m ls" "t < length ls" "bs_start op (ls ! t) = Some l"
  shows "bs_inv m (ls[t := l])"
proof -
  have "cnt (\<lambda>l. l = BsAddBatch) (ls[t := l]) = cnt (\<lambda>l. l = BsAddBatch) ls"
    "cnt (\<lambda>l. l = BsResetBatches) (ls[t := l]) = cnt (\<lambda>l. l = BsResetBatches) ls"
    using assms by (intro cnt_update_same; cases op; auto simp: bs_start_def split: bs_pc.splits)+
  with assms(1) show ?thesis
    by (simp add: bs_inv_def)
qed

lemma bs_inv_init: "bs_inv bs_mem0 (replicate n (BsOut BsNothing))"
  by (simp add: bs_inv_def bs_mem0_def cnt_replicate)

lemma bs_invariant:
  assumes "bs_reachable n s"
  shows "bs_inv (shm s) (pcs s)"
proof (rule bs.system_invariant [where I = "\<lambda>m q ls. bs_inv m ls",
    OF assms [unfolded bs_step_def bs_init_def] bs_inv_init])
qed (auto intro: bs_inv_invoke bs_inv_exec)

text \<open>
  The counters: while nothing was reset, the counter is the number of increments, the operations
  are the sum of the sizes recorded and the batches their number, less the calls of \<open>record_batch\<close> that
  have added their operations and not their batch yet; all modulo \<open>2 ^ 32\<close>.
\<close>
theorem batch_counters:
  assumes "bs_reachable n s" "\<not> g_bs_reset (shm s)"
  shows "bs_count (shm s) = of_nat (g_increments (shm s)) \<and>
    bs_operations (shm s) = of_nat (sum_list (g_batches (shm s))) \<and>
    bs_batches (shm s) + of_nat (cnt (\<lambda>l. l = BsAddBatch) (pcs s)) = of_nat (length (g_batches (shm s)))"
  using bs_invariant [OF assms(1)] assms(2) by (simp add: bs_inv_def)

definition bs_demo :: "bs_op act list" where
  "bs_demo = [Invoke 0 (OpRecordBatch 5), Step 0 [], Invoke 1 (OpRecordBatch 7), Step 1 [], Step 0 [],
     Invoke 0 OpAverage, Step 0 [], Step 0 []]"

definition bs_demo_state :: "(bs_mem, bs_pc) fsys" where
  "bs_demo_state = \<lparr>shm = \<lparr>bs_count = 0, bs_operations = 12, bs_batches = 1, g_batches = [5, 7], g_increments = 0,
     g_bs_reset = False\<rparr>, waitq = [], pcs = [BsOut (BsAverage 12), BsAddBatch]\<rparr>"

lemma bs_demo_reachable: "bs_reachable 2 bs_demo_state"
  by (rule run_reachable [of _ bs_demo]) code_simp

theorem batch_counters_witness:
  "bs_operations (shm bs_demo_state) = of_nat (sum_list [5, 7 :: nat]) \<and>
     bs_batches (shm bs_demo_state) + of_nat (cnt (\<lambda>l. l = BsAddBatch) (pcs bs_demo_state)) = 2"
  using batch_counters [OF bs_demo_reachable] by (simp add: bs_demo_state_def)

end
