(* ===== verification/WinFutex.thy ===== *)
theory WinFutex
  imports Futex
begin

text \<open>
  The Windows branch of the futex layer in \<^verbatim>\<open>psync_platform.h\<close>: the one-time lookup of the
  \<open>WaitOnAddress\<close> family, the choice between it and the fallback, and the fallback itself, which
  keeps a lock, a condition variable and one flag per hash slot. Shown: the lookup is done once and
  nobody uses the pointers before it is complete; one waiter per slot is never left behind; and two
  waiters of one slot can be, by every wake that follows until a new wait begins.
\<close>

section \<open>The one-time lookup\<close>

text \<open>
  The state is 0, 1 or 2: not begun, under way, done. A pointer is represented by whether it is set.
  What the system exports is a parameter: whether each of the three modules was found, and which of
  the three functions the module has. Auxiliary: \<open>g_lookups\<close> counts the lookups begun.
\<close>

record wi_mem =
  wi_state :: u32
  wi_wait :: bool
  wi_single :: bool
  wi_all :: bool
  g_lookups :: nat

record wi_system =
  kernelbase :: bool
  kernel32 :: bool
  api_ms_win :: bool
  has_wait :: bool
  has_single :: bool
  has_all :: bool

definition wi_module :: "wi_system \<Rightarrow> bool" where
  "wi_module sys = (kernelbase sys \<or> kernel32 sys \<or> api_ms_win sys)"

datatype wi_pc =
  WiOut | WiCheck | WiCas | WiModule | WiGetWait | WiGetSingle | WiGetAll | WiFinish | WiSpin | WiReturned

datatype wi_op = WiInit

definition wi_start :: "wi_op \<Rightarrow> wi_pc \<Rightarrow> wi_pc option" where
  "wi_start op l = (if l = WiOut \<or> l = WiReturned then Some WiCheck else None)"

fun wi_exec :: "wi_system \<Rightarrow> wi_mem \<Rightarrow> wi_pc \<Rightarrow> (wi_mem \<times> wi_pc \<times> keff) option" where
  "wi_exec sys m WiOut = None"
| "wi_exec sys m WiReturned = None"
| "wi_exec sys m WiCheck = Some (m, if wi_state m = 2 then WiReturned else WiCas, KNone)"
| "wi_exec sys m WiCas =
     (if wi_state m = 0 then Some (m\<lparr>wi_state := 1, g_lookups := Suc (g_lookups m)\<rparr>, WiModule, KNone)
      else Some (m, WiSpin, KNone))"
| "wi_exec sys m WiModule = Some (m, if wi_module sys then WiGetWait else WiFinish, KNone)"
| "wi_exec sys m WiGetWait = Some (m\<lparr>wi_wait := has_wait sys\<rparr>, WiGetSingle, KNone)"
| "wi_exec sys m WiGetSingle = Some (m\<lparr>wi_single := has_single sys\<rparr>, WiGetAll, KNone)"
| "wi_exec sys m WiGetAll = Some (m\<lparr>wi_all := has_all sys\<rparr>, WiFinish, KNone)"
| "wi_exec sys m WiFinish = Some (m\<lparr>wi_state := 2\<rparr>, WiReturned, KNone)"
| "wi_exec sys m WiSpin = Some (m, if wi_state m \<noteq> 2 then WiSpin else WiReturned, KNone)"

definition wi_mem0 :: wi_mem where
  "wi_mem0 = \<lparr>wi_state = 0, wi_wait = False, wi_single = False, wi_all = False, g_lookups = 0\<rparr>"

definition wi_step :: "wi_system \<Rightarrow> wi_op act \<Rightarrow> (wi_mem, wi_pc) fsys \<Rightarrow> (wi_mem, wi_pc) fsys option" where
  "wi_step sys = sys_step (wi_exec sys) wi_start"

definition wi_init :: "nat \<Rightarrow> (wi_mem, wi_pc) fsys" where
  "wi_init n = sys_init wi_mem0 WiOut n"

abbreviation wi_reachable :: "wi_system \<Rightarrow> nat \<Rightarrow> (wi_mem, wi_pc) fsys \<Rightarrow> bool" where
  "wi_reachable sys n \<equiv> reachable (wi_step sys) (wi_init n)"

interpretation wi: futex_client "wi_exec sys" wi_start "\<lambda>_. False" WiOut for sys
proof
  fix w l w' l' k
  assume "wi_exec sys w l = Some (w', l', k)"
  then show "False \<longleftrightarrow> k = KSleep"
    by (cases l) (auto split: if_splits)
qed auto

text \<open>The thread that does the lookup, and how far the pointers are.\<close>

fun wi_busy :: "wi_pc \<Rightarrow> bool" where
  "wi_busy WiModule = True"
| "wi_busy WiGetWait = True"
| "wi_busy WiGetSingle = True"
| "wi_busy WiGetAll = True"
| "wi_busy WiFinish = True"
| "wi_busy _ = False"

definition wi_resolved :: "wi_system \<Rightarrow> wi_mem \<Rightarrow> bool" where
  "wi_resolved sys m \<longleftrightarrow> wi_wait m = (wi_module sys \<and> has_wait sys) \<and>
     wi_single m = (wi_module sys \<and> has_single sys) \<and> wi_all m = (wi_module sys \<and> has_all sys)"

lemma wi_resolved_state [simp]: "wi_resolved sys (m\<lparr>wi_state := x\<rparr>) = wi_resolved sys m"
  by (simp add: wi_resolved_def)

fun wi_local :: "wi_system \<Rightarrow> wi_mem \<Rightarrow> wi_pc \<Rightarrow> bool" where
  "wi_local sys m WiModule = (\<not> wi_wait m \<and> \<not> wi_single m \<and> \<not> wi_all m)"
| "wi_local sys m WiGetWait = wi_module sys"
| "wi_local sys m WiGetSingle = (wi_module sys \<and> wi_wait m = has_wait sys)"
| "wi_local sys m WiGetAll = (wi_module sys \<and> wi_wait m = has_wait sys \<and> wi_single m = has_single sys)"
| "wi_local sys m WiFinish = wi_resolved sys m"
| "wi_local sys m WiReturned = (wi_state m = 2)"
| "wi_local sys m _ = True"

definition wi_inv :: "wi_system \<Rightarrow> wi_mem \<Rightarrow> wi_pc list \<Rightarrow> bool" where
  "wi_inv sys m ls \<longleftrightarrow>
     (wi_state m = 0 \<and> cnt wi_busy ls = 0 \<and> g_lookups m = 0 \<and> \<not> wi_wait m \<and> \<not> wi_single m \<and> \<not> wi_all m \<or>
      wi_state m = 1 \<and> cnt wi_busy ls = 1 \<and> g_lookups m = 1 \<or>
      wi_state m = 2 \<and> cnt wi_busy ls = 0 \<and> g_lookups m = 1 \<and> wi_resolved sys m) \<and>
     (\<forall>t < length ls. wi_local sys m (ls ! t))"

lemma wi_inv_exec:
  assumes I: "wi_inv sys m ls" and t: "t < length ls" and ex: "wi_exec sys m (ls ! t) = Some (m', l', k)"
  shows "wi_inv sys m' (ls[t := l'])"
proof -
  have loc: "\<And>u. u < length ls \<Longrightarrow> wi_local sys m (ls ! u)"
    using I by (simp add: wi_inv_def)
  have u: "cnt wi_busy (ls[t := l']) + of_bool (wi_busy (ls ! t)) = cnt wi_busy ls + of_bool (wi_busy l')"
    using t by (rule cnt_update)
  have one: "cnt wi_busy ls \<le> 1"
    using I by (auto simp: wi_inv_def)
  have other: "wi_local sys m' (ls ! v)" if "v < length ls" "v \<noteq> t" for v
  proof (cases "m' = m")
    case False
    then have "wi_busy (ls ! t) \<or> wi_state m = 0"
      using ex by (cases "ls ! t") (auto split: if_splits)
    then have "\<not> wi_busy (ls ! v)"
    proof
      assume "wi_busy (ls ! t)"
      then show ?thesis
        using cnt_le1_unique [of wi_busy ls t v] one t that by auto
    next
      assume "wi_state m = 0"
      then have "cnt wi_busy ls = 0"
        using I by (auto simp: wi_inv_def)
      then show ?thesis
        using that unfolding cnt_0_iff by blast
    qed
    then show ?thesis
      using loc [OF that(1)] False ex I by (cases "ls ! v"; cases "ls ! t") (auto simp: wi_inv_def split: if_splits)
  qed (simp add: loc that)
  have own: "wi_local sys m' l'"
    using ex loc [OF t] I by (cases "ls ! t") (auto simp: wi_inv_def wi_resolved_def split: if_splits)
  have "wi_state m' = 0 \<and> cnt wi_busy (ls[t := l']) = 0 \<and> g_lookups m' = 0 \<and> \<not> wi_wait m' \<and> \<not> wi_single m' \<and> \<not> wi_all m' \<or>
      wi_state m' = 1 \<and> cnt wi_busy (ls[t := l']) = 1 \<and> g_lookups m' = 1 \<or>
      wi_state m' = 2 \<and> cnt wi_busy (ls[t := l']) = 0 \<and> g_lookups m' = 1 \<and> wi_resolved sys m'"
    using ex u loc [OF t] I cnt_pos [of t ls wi_busy] t
    by (cases "ls ! t") (auto simp: wi_inv_def split: if_splits)
  with own other t show ?thesis
    by (auto simp: wi_inv_def nth_list_update)
qed

lemma wi_inv_invoke:
  assumes "wi_inv sys m ls" "t < length ls" "wi_start op (ls ! t) = Some l"
  shows "wi_inv sys m (ls[t := l])"
proof -
  have "l = WiCheck" "\<not> wi_busy (ls ! t)"
    using assms(3) by (auto simp: wi_start_def split: if_splits)
  with assms show ?thesis
    by (simp add: wi_inv_def cnt_update_same nth_list_update)
qed

lemma wi_inv_init: "wi_inv sys wi_mem0 (replicate n WiOut)"
  by (simp add: wi_inv_def wi_mem0_def cnt_replicate)

text \<open>
  The lookup: however many threads call \<open>init_futex_windows\<close> at once, it is done at most once, and
  when a call returns every pointer is what the system exports; no call uses a pointer that is not
  set yet.
\<close>
theorem windows_init_once:
  assumes "wi_reachable sys n s"
  shows "g_lookups (shm s) \<le> 1 \<and> (t < length (pcs s) \<and> pcs s ! t = WiReturned \<longrightarrow> wi_resolved sys (shm s))"
proof -
  have "wi_inv sys (shm s) (pcs s)"
    by (rule wi.system_invariant [where I = "\<lambda>m q ls. wi_inv sys m ls",
        OF assms [unfolded wi_step_def wi_init_def] wi_inv_init])
      (auto intro: wi_inv_invoke wi_inv_exec)
  then show ?thesis
    by (auto simp: wi_inv_def)
qed

definition wi_windows8 :: wi_system where
  "wi_windows8 = \<lparr>kernelbase = True, kernel32 = True, api_ms_win = True, has_wait = True, has_single = True, has_all = True\<rparr>"

definition wi_demo :: "wi_op act list" where
  "wi_demo = [Invoke 0 WiInit, Invoke 1 WiInit, Step 0 [], Step 1 [], Step 0 [], Step 1 []]
     @ replicate 5 (Step 0 []) @ [Step 1 []]"

definition wi_demo_state :: "(wi_mem, wi_pc) fsys" where
  "wi_demo_state = \<lparr>shm = \<lparr>wi_state = 2, wi_wait = True, wi_single = True, wi_all = True, g_lookups = 1\<rparr>,
     waitq = [], pcs = [WiReturned, WiReturned]\<rparr>"

lemma wi_demo_reachable: "wi_reachable wi_windows8 2 wi_demo_state"
  by (rule run_reachable [of _ wi_demo]) code_simp

theorem windows_init_once_witness:
  "g_lookups (shm wi_demo_state) \<le> 1 \<and> wi_resolved wi_windows8 (shm wi_demo_state)"
  using windows_init_once [OF wi_demo_reachable, of 1] by (simp add: wi_demo_state_def)

section \<open>The choice of the functions\<close>

text \<open>
  What \<open>wait\<close> and \<open>wake\<close> call, given which pointers are set, and what they return: \<open>wait\<close> the
  function's success, \<open>wake\<close> a number that is not counted. \<open>wake_all\<close> is \<open>wake\<close> with -1.
\<close>

datatype win_call = CallWaitOnAddress | CallWakeSingle | CallWakeAll | CallFallback

definition win_wait_call :: "wi_mem \<Rightarrow> win_call" where
  "win_wait_call m = (if wi_wait m then CallWaitOnAddress else CallFallback)"

definition win_wait_result :: "bool \<Rightarrow> i32" where
  "win_wait_result result = (if result then 0 else - 1)"

definition win_wake_call :: "wi_mem \<Rightarrow> i32 \<Rightarrow> win_call \<times> i32" where
  "win_wake_call m count =
     (if wi_single m \<and> wi_all m then
        (if count \<le>s 0 then (CallWakeAll, 1)
         else if count = 1 then (CallWakeSingle, 1)
         else (CallWakeAll, count))
      else (CallFallback, count))"

definition win_wake_all_call :: "wi_mem \<Rightarrow> win_call \<times> i32" where
  "win_wake_all_call m = win_wake_call m (- 1)"

text \<open>
  \<open>wait_for\<close> goes the same way with the milliseconds, which both branches are given; \<open>requeue\<close> ignores all
  but the address and wakes everybody; the calls for shared memory are the ones above.
\<close>

definition win_wait_for_call :: "wi_mem \<Rightarrow> u64 \<Rightarrow> win_call \<times> u32" where
  "win_wait_for_call m timeout_ns = (win_wait_call m, windows_timeout_ms timeout_ns)"

definition win_requeue_call :: "wi_mem \<Rightarrow> i32 \<Rightarrow> u32 \<Rightarrow> win_call \<times> i32" where
  "win_requeue_call m count expected = win_wake_all_call m"

definition win_wake_shared_call :: "wi_mem \<Rightarrow> i32 \<Rightarrow> win_call \<times> i32" where
  "win_wake_shared_call m count = win_wake_call m count"

text \<open>
  Every wake that is meant for more than one thread reaches them all, whichever functions there are: the
  call is the one for all, or the fallback's, which takes all unless the count is one.
\<close>

lemma win_wakes_all:
  "fst (win_requeue_call m count expected) \<in> {CallWakeAll, CallFallback}"
  "snd (win_requeue_call m count expected) \<noteq> - 1 \<or> fst (win_requeue_call m count expected) = CallFallback"
  "count \<noteq> 1 \<Longrightarrow> fst (win_wake_shared_call m count) \<noteq> CallWakeSingle"
  by (auto simp: win_requeue_call_def win_wake_all_call_def win_wake_shared_call_def win_wake_call_def)

section \<open>The fallback\<close>

text \<open>
  A slot has a slim lock, a condition variable and a flag. Slots share nothing, so this is one slot
  with the futex words whose addresses \<open>hash_address\<close> maps to it; the threads in the condition
  variable are the wait queue of the system. \<open>SleepConditionVariableSRW\<close> releases the lock and joins
  the queue in one step, and takes the lock again before it returns; a timeout or a wake for no
  reason takes a thread out of the queue as for the other systems.
\<close>

definition FALLBACK_SLOTS :: usize where "FALLBACK_SLOTS = 64"

definition win_hash_address :: "usize \<Rightarrow> usize" where
  "win_hash_address addr = addr mod FALLBACK_SLOTS"

record fb_mem =
  fb_lock :: bool
  fb_waiting :: bool
  fb_word :: "usize \<Rightarrow> u32"

text \<open>\<open>FbNotify\<close> is the client's half of the protocol: it stores a word and then calls \<open>wake\<close>.\<close>

datatype fb_op = FbWaitOp usize u32 bool | FbNotify usize u32 i32 | FbTimeout

datatype fb_pc =
    FbOut "i32 option"
  | FbEnter usize u32 bool
  | FbFlag usize u32 bool
  | FbTest usize u32 bool
  | FbSleep usize u32 bool
  | FbAsleep usize u32 bool
  | FbExpired
  | FbClear i32
  | FbRelease i32
  | FbStore usize u32 i32
  | FbWakeEnter i32
  | FbWake i32

fun fb_start :: "fb_op \<Rightarrow> fb_pc \<Rightarrow> fb_pc option" where
  "fb_start (FbWaitOp a val timed) (FbOut r) = Some (FbEnter a val timed)"
| "fb_start (FbNotify a x count) (FbOut r) = Some (FbStore a x count)"
| "fb_start FbTimeout (FbAsleep a val timed) = (if timed then Some FbExpired else None)"
| "fb_start _ _ = None"

definition fb_wake_effect :: "bool \<Rightarrow> i32 \<Rightarrow> keff" where
  "fb_wake_effect waiting count = (if waiting then (if count = 1 then KWake 1 else KWakeAll) else KNone)"

declare fb_wake_effect_def [simp]

fun fb_exec :: "fb_mem \<Rightarrow> fb_pc \<Rightarrow> (fb_mem \<times> fb_pc \<times> keff) option" where
  "fb_exec m (FbOut r) = None"
| "fb_exec m (FbEnter a val timed) = (if fb_lock m then None else Some (m\<lparr>fb_lock := True\<rparr>, FbFlag a val timed, KNone))"
| "fb_exec m (FbFlag a val timed) = Some (m\<lparr>fb_waiting := True\<rparr>, FbTest a val timed, KNone)"
| "fb_exec m (FbTest a val timed) =
     Some (m, if atomic_load (fb_word m a) MO_relaxed \<noteq> val then FbClear 0 else FbSleep a val timed, KNone)"
| "fb_exec m (FbSleep a val timed) = Some (m\<lparr>fb_lock := False\<rparr>, FbAsleep a val timed, KSleep)"
| "fb_exec m (FbAsleep a val timed) = (if fb_lock m then None else Some (m\<lparr>fb_lock := True\<rparr>, FbClear 0, KNone))"
| "fb_exec m FbExpired = (if fb_lock m then None else Some (m\<lparr>fb_lock := True\<rparr>, FbClear (- 1), KNone))"
| "fb_exec m (FbClear r) = Some (m\<lparr>fb_waiting := False\<rparr>, FbRelease r, KNone)"
| "fb_exec m (FbRelease r) = Some (m\<lparr>fb_lock := False\<rparr>, FbOut (Some r), KNone)"
| "fb_exec m (FbStore a x count) = Some (m\<lparr>fb_word := (fb_word m)(a := x)\<rparr>, FbWakeEnter count, KNone)"
| "fb_exec m (FbWakeEnter count) = (if fb_lock m then None else Some (m\<lparr>fb_lock := True\<rparr>, FbWake count, KNone))"
| "fb_exec m (FbWake count) =
     Some (m, FbRelease count, fb_wake_effect (fb_waiting m) count)"

fun fb_asleep :: "fb_pc \<Rightarrow> bool" where
  "fb_asleep (FbAsleep a val timed) = True"
| "fb_asleep _ = False"

definition fb_step :: "fb_op act \<Rightarrow> (fb_mem, fb_pc) fsys \<Rightarrow> (fb_mem, fb_pc) fsys option" where
  "fb_step = sys_step fb_exec fb_start"

text \<open>\<open>init_fallback_slots\<close> leaves every slot unlocked, empty and without the flag.\<close>

definition fb_mem0 :: "(usize \<Rightarrow> u32) \<Rightarrow> fb_mem" where
  "fb_mem0 words = \<lparr>fb_lock = False, fb_waiting = False, fb_word = words\<rparr>"

definition fb_init :: "(usize \<Rightarrow> u32) \<Rightarrow> nat \<Rightarrow> (fb_mem, fb_pc) fsys" where
  "fb_init words n = sys_init (fb_mem0 words) (FbOut None) n"

abbreviation fb_reachable :: "(usize \<Rightarrow> u32) \<Rightarrow> nat \<Rightarrow> (fb_mem, fb_pc) fsys \<Rightarrow> bool" where
  "fb_reachable words n \<equiv> reachable fb_step (fb_init words n)"

lemma KWakeAll_neq [simp]: "KWakeAll \<noteq> KSleep" "KWakeAll \<noteq> KNone"
  by (simp_all add: KWakeAll_eq)

interpretation fb: futex_client fb_exec fb_start fb_asleep "FbOut None"
proof
  fix w l w' l' k
  assume "fb_exec w l = Some (w', l', k)"
  then show "fb_asleep l' \<longleftrightarrow> k = KSleep"
    by (cases l) (auto split: if_splits)
next
  fix op l l'
  assume "fb_start op l = Some l'"
  then show "\<not> fb_asleep l'"
    by (cases op; cases l) (auto split: if_splits)
qed simp

section \<open>One waiter per slot\<close>

fun fb_holds :: "fb_pc \<Rightarrow> bool" where
  "fb_holds (FbFlag a val timed) = True"
| "fb_holds (FbTest a val timed) = True"
| "fb_holds (FbSleep a val timed) = True"
| "fb_holds (FbClear r) = True"
| "fb_holds (FbRelease r) = True"
| "fb_holds (FbWake count) = True"
| "fb_holds _ = False"

text \<open>A thread inside \<open>wait\<close> that has set the flag and not cleared it; and any before that.\<close>

fun fb_flagged :: "fb_pc \<Rightarrow> bool" where
  "fb_flagged (FbTest a val timed) = True"
| "fb_flagged (FbSleep a val timed) = True"
| "fb_flagged (FbAsleep a val timed) = True"
| "fb_flagged FbExpired = True"
| "fb_flagged (FbClear r) = True"
| "fb_flagged _ = False"

fun fb_waits :: "fb_pc \<Rightarrow> bool" where
  "fb_waits (FbEnter a val timed) = True"
| "fb_waits (FbFlag a val timed) = True"
| "fb_waits l = fb_flagged l"

fun fb_wakes :: "fb_pc \<Rightarrow> bool" where
  "fb_wakes (FbWakeEnter count) = True"
| "fb_wakes (FbWake count) = True"
| "fb_wakes _ = False"

fun fb_sleeps_on :: "fb_pc \<Rightarrow> (usize \<times> u32) option" where
  "fb_sleeps_on (FbSleep a val timed) = Some (a, val)"
| "fb_sleeps_on (FbAsleep a val timed) = Some (a, val)"
| "fb_sleeps_on _ = None"

text \<open>The use that the flag is enough for: a wait begins only while no other thread is in one.\<close>

fun fb_allowed :: "(fb_mem, fb_pc) fsys \<Rightarrow> fb_op act \<Rightarrow> bool" where
  "fb_allowed s (Invoke t (FbWaitOp a val timed)) = (\<not> list_ex fb_waits (pcs s))"
| "fb_allowed s _ = True"

definition fb_single_step :: "fb_op act \<Rightarrow> (fb_mem, fb_pc) fsys \<Rightarrow> (fb_mem, fb_pc) fsys option" where
  "fb_single_step a s = (if fb_allowed s a then fb_step a s else None)"

definition fb_inv :: "(fb_mem, fb_pc) fsys \<Rightarrow> bool" where
  "fb_inv s \<longleftrightarrow> fb.queue_wf s \<and> cnt fb_waits (pcs s) \<le> 1 \<and> cnt fb_holds (pcs s) = of_bool (fb_lock (shm s)) \<and>
     (\<forall>t < length (pcs s). (fb_flagged (pcs s ! t) \<longrightarrow> fb_waiting (shm s)) \<and>
       (\<forall>a val. fb_sleeps_on (pcs s ! t) = Some (a, val) \<and> (fb_asleep (pcs s ! t) \<longrightarrow> t \<in> set (waitq s)) \<longrightarrow>
          fb_word (shm s) a = val \<or> 0 < cnt fb_wakes (pcs s)))"

lemma fb_flagged_waits: "fb_flagged l \<Longrightarrow> fb_waits l"
  by (cases l) auto

lemma fb_sleeps_flagged: "fb_sleeps_on l = Some x \<Longrightarrow> fb_flagged l"
  by (cases l) auto

lemma fb_exec_frame:
  assumes "fb_exec m l = Some (m', l', k)"
  shows "fb_waits l' \<Longrightarrow> fb_waits l"
    and "\<forall>c. l \<noteq> FbWake c \<Longrightarrow> fb_wakes l \<Longrightarrow> fb_wakes l'"
    and "\<not> fb_wakes l' \<Longrightarrow> fb_word m' = fb_word m"
    and "fb_waiting m \<Longrightarrow> \<not> fb_waits l \<Longrightarrow> fb_waiting m'"
    and "fb_flagged l' \<Longrightarrow> (fb_flagged l \<longrightarrow> fb_waiting m) \<Longrightarrow> fb_waiting m'"
  using assms by (cases l; auto split: if_splits)+

lemma fb_lock_step:
  assumes ex: "fb_exec m (ls ! t) = Some (m', l', k)" and t: "t < length ls" and I: "cnt fb_holds ls = of_bool (fb_lock m)"
  shows "cnt fb_holds (ls[t := l']) = of_bool (fb_lock m')"
  using cnt_update [OF t, of fb_holds l'] cnt_pos [OF t, of fb_holds] ex I
  by (cases "ls ! t") (auto split: if_splits)

text \<open>With one waiter, a wake that finds the flag set takes it out of the queue.\<close>

lemma fb_wake_takes:
  assumes one: "cnt fb_waits ls \<le> 1" and wf: "fb.queue_wf \<lparr>shm = m, waitq = q, pcs = ls\<rparr>"
    and u: "u \<in> set q" and k: "kernel (KWake n) t ws q = Some q'" "0 < n"
  shows "u \<notin> set q'"
proof -
  have "v = u" if "v \<in> set q" for v
  proof (rule cnt_le1_unique [OF one])
    show "v < length ls" "u < length ls" "fb_waits (ls ! v)" "fb_waits (ls ! u)"
      using wf u that by (auto simp: fb.queue_wf_def elim!: fb_asleep.elims)
  qed
  moreover obtain v where "v \<in> set ws" "v \<in> set q"
  proof -
    have "wake_ok n q ws" "q \<noteq> []"
      using k(1) u by (auto simp: kernel_wake)
    then show thesis
      using wake_ok_nonempty k(2) that by blast
  qed
  ultimately have "u \<in> set ws"
    by blast
  then show ?thesis
    using k(1) by (auto simp: kernel_wake)
qed

lemma fb_inv_exec:
  assumes I: "fb_inv s" and t: "t < length (pcs s)" and ex: "fb_exec (shm s) (pcs s ! t) = Some (m', l', k)"
    and k: "kernel k t ws (waitq s) = Some q'" and awake: "t \<notin> set (waitq s)"
    and wf': "fb.queue_wf \<lparr>shm = m', waitq = q', pcs = (pcs s)[t := l']\<rparr>"
  shows "fb_inv \<lparr>shm = m', waitq = q', pcs = (pcs s)[t := l']\<rparr>"
proof -
  let ?m = "shm s" and ?ls = "pcs s" and ?l = "pcs s ! t" and ?q = "waitq s"
  have wf: "fb.queue_wf \<lparr>shm = ?m, waitq = ?q, pcs = ?ls\<rparr>" and one: "cnt fb_waits ?ls \<le> 1"
    and holds: "cnt fb_holds ?ls = of_bool (fb_lock ?m)"
    and flag: "\<And>u. u < length ?ls \<Longrightarrow> fb_flagged (?ls ! u) \<Longrightarrow> fb_waiting ?m"
    and sleep: "\<And>u a val. u < length ?ls \<Longrightarrow> fb_sleeps_on (?ls ! u) = Some (a, val) \<Longrightarrow>
      (fb_asleep (?ls ! u) \<longrightarrow> u \<in> set ?q) \<Longrightarrow> fb_word ?m a = val \<or> 0 < cnt fb_wakes ?ls"
    using I by (auto simp: fb_inv_def fb.queue_wf_def)
  note frame = fb_exec_frame [OF ex]
  have waits: "cnt fb_waits (?ls[t := l']) \<le> 1"
    using cnt_update [OF t, of fb_waits l'] one frame(1) by (cases "fb_waits l'") auto
  have wakes: "0 < cnt fb_wakes (?ls[t := l'])" if "0 < cnt fb_wakes ?ls" "\<forall>c. ?l \<noteq> FbWake c"
    using cnt_update [OF t, of fb_wakes l'] frame(2) that by (cases "fb_wakes ?l") auto
  have stored: "0 < cnt fb_wakes (?ls[t := l'])" if "fb_wakes l'"
    using cnt_pos [of t "?ls[t := l']" fb_wakes] t that by simp
  have other: "fb_flagged (?ls ! u) \<longrightarrow> fb_waiting m'" if u: "u < length ?ls" "u \<noteq> t" for u
  proof
    assume f: "fb_flagged (?ls ! u)"
    then have "\<not> fb_waits ?l"
      using cnt_le1_unique [OF one u(1) t] u(2) fb_flagged_waits by blast
    then show "fb_waiting m'"
      using frame(4) flag [OF u(1) f] by blast
  qed
  have other_sleep: "fb_word m' a = val \<or> 0 < cnt fb_wakes (?ls[t := l'])"
    if u: "u < length ?ls" "u \<noteq> t" and s: "fb_sleeps_on (?ls ! u) = Some (a, val)"
      and q: "fb_asleep (?ls ! u) \<longrightarrow> u \<in> set q'" for u a val
  proof (cases "fb_wakes l'")
    case True
    then show ?thesis
      using stored by simp
  next
    case False
    have inq: "fb_asleep (?ls ! u) \<longrightarrow> u \<in> set ?q"
      using q k u(2) by (cases k) (auto simp: kernel_wake)
    have w: "\<forall>c. ?l \<noteq> FbWake c" if "fb_word ?m a \<noteq> val"
    proof (intro allI notI)
      fix c assume c: "?l = FbWake c"
      have "fb_waiting ?m"
        using flag [OF u(1)] fb_sleeps_flagged [OF s] by blast
      then obtain n where n: "k = KWake n" "0 < n"
        using ex c by (cases "c = 1") (auto simp: KWakeAll_eq)
      show False
      proof (cases "fb_asleep (?ls ! u)")
        case True
        then show False
          using fb_wake_takes [OF one wf _ k [unfolded n(1)] n(2)] inq q by blast
      next
        case False
        then have "fb_holds (?ls ! u)"
          using s by (cases "?ls ! u") auto
        moreover have "cnt fb_holds ?ls \<le> 1"
          using holds by (cases "fb_lock ?m") simp_all
        ultimately show False
          using cnt_le1_unique [of fb_holds ?ls u t] u t c by simp
      qed
    qed
    show ?thesis
      using sleep [OF u(1) s inq] wakes w frame(3) [OF False] by fastforce
  qed
  have own: "fb_flagged l' \<longrightarrow> fb_waiting m'"
    using frame(5) flag [OF t] by blast
  have own_sleep: "fb_word m' a = val \<or> 0 < cnt fb_wakes (?ls[t := l'])" if "fb_sleeps_on l' = Some (a, val)" for a val
    using ex that sleep [OF t] wakes by (cases ?l) (auto split: if_splits)
  show ?thesis
    using wf' waits fb_lock_step [OF ex t holds] own own_sleep other other_sleep t
    unfolding fb_inv_def by (simp add: nth_list_update)
qed

lemma fb_invariant:
  assumes "reachable fb_single_step (fb_init words n) s"
  shows "fb_inv s"
proof (rule reachable_invariant [OF assms])
  show "fb_inv (fb_init words n)"
    using fb.queue_wf_init by (auto simp: fb_inv_def fb_init_def fb_mem0_def cnt_replicate)
  fix s a s' assume I: "fb_inv s" and stp: "fb_single_step a s = Some s'"
  have al: "fb_allowed s a" and sys: "sys_step fb_exec fb_start a s = Some s'"
    using stp by (auto simp: fb_single_step_def fb_step_def split: if_splits)
  have wf': "fb.queue_wf s'"
    using fb.queue_wf_step [OF _ sys] I by (simp add: fb_inv_def)
  from sys show "fb_inv s'"
  proof (cases rule: sys_stepE)
    case (invoke t op l)
    have new: "fb_flagged l \<Longrightarrow> fb_flagged (pcs s ! t)" "fb_sleeps_on l = None" "fb_holds l = fb_holds (pcs s ! t)"
      "fb_wakes l = fb_wakes (pcs s ! t)"
      using invoke(4) by (cases op; cases "pcs s ! t"; auto split: if_splits)+
    have "cnt fb_waits ((pcs s)[t := l]) \<le> 1"
    proof (cases "fb_waits l \<and> \<not> fb_waits (pcs s ! t)")
      case True
      then have "\<not> list_ex fb_waits (pcs s)"
        using invoke(1,4) al by (cases op; cases "pcs s ! t") (auto split: if_splits)
      then have "cnt fb_waits (pcs s) = 0"
        by (auto simp: cnt_0_iff list_ex_length)
      then show ?thesis
        using cnt_update [OF invoke(2), of fb_waits l] True by simp
    next
      case False
      then show ?thesis
        using cnt_update [OF invoke(2), of fb_waits l] I by (cases "fb_waits l") (auto simp: fb_inv_def)
    qed
    then show ?thesis
      using I wf' invoke(2,5) new cnt_update_same [where P = fb_holds, OF invoke(2) new(3)]
        cnt_update_same [where P = fb_wakes, OF invoke(2) new(4)]
      unfolding fb_inv_def by (auto simp: nth_list_update)
  next
    case (exec t ws m' l' k q')
    then show ?thesis
      using fb_inv_exec [OF I exec(2,4,5,3)] wf' by simp
  next
    case (spurious t)
    then show ?thesis
      using I wf' unfolding fb_inv_def by auto
  qed
qed

section \<open>Properties of the fallback\<close>

text \<open>
  With at most one thread of a slot waiting at a time nobody is left behind: when every other
  thread is out of the calls, a thread asleep for a word to change from \<open>val\<close> sees it at \<open>val\<close> still;
  whoever changed it has woken the sleeper with the call of \<open>wake\<close> that followed.
\<close>
theorem windows_fallback_single_waiter:
  assumes "reachable fb_single_step (fb_init words n) s" "t \<in> set (waitq s)" "pcs s ! t = FbAsleep a val timed"
    "\<not> list_ex (\<lambda>l. fb_wakes l) (pcs s)"
  shows "fb_word (shm s) a = val"
proof -
  have I: "fb_inv s"
    using assms(1) by (rule fb_invariant)
  then have "t < length (pcs s)"
    using assms(2) by (simp add: fb_inv_def fb.queue_wf_def)
  moreover have "cnt fb_wakes (pcs s) = 0"
    using assms(4) by (auto simp: cnt_0_iff list_ex_length)
  ultimately show ?thesis
    using I assms(2,3) unfolding fb_inv_def by fastforce
qed

definition fb_demo :: "fb_op act list" where
  "fb_demo = [Invoke 0 (FbWaitOp 8 0 False), Step 0 [], Step 0 [], Step 0 [], Step 0 []]"

definition fb_demo_state :: "(fb_mem, fb_pc) fsys" where
  "fb_demo_state = \<lparr>shm = \<lparr>fb_lock = False, fb_waiting = True, fb_word = \<lambda>_. 0\<rparr>, waitq = [0],
     pcs = [FbAsleep 8 0 False, FbOut None]\<rparr>"

lemma fb_demo_reachable: "reachable fb_single_step (fb_init (\<lambda>_. 0) 2) fb_demo_state"
proof (rule run_reachable [of _ fb_demo])
  show "run fb_single_step fb_demo (fb_init (\<lambda>_. 0) 2) = Some fb_demo_state"
    by (simp add: fb_demo_def fb_demo_state_def fb_single_step_def fb_step_def fb_init_def fb_mem0_def sys_step_def
        awake_def sys_init_def kernel_def eval_nat_numeral)
qed

theorem windows_fallback_single_waiter_witness:
  "fb_word (shm fb_demo_state) 8 = 0 \<and> 0 \<in> set (waitq fb_demo_state)"
  using windows_fallback_single_waiter [OF fb_demo_reachable, of 0 8 0 False] by (simp add: fb_demo_state_def)

text \<open>
  A schedule in which nobody begins a wait and nobody leaves the condition variable by itself, so that no
  timeout is reported either: stores with their wakes, of one or of all, and the steps of whatever is
  under way.
\<close>

fun fb_no_wait :: "fb_op act \<Rightarrow> bool" where
  "fb_no_wait (Invoke t op) = (case op of FbWaitOp a val timed \<Rightarrow> False | _ \<Rightarrow> True)"
| "fb_no_wait (Step t ws) = True"
| "fb_no_wait (Spurious t) = False"

text \<open>The points before the store to the flag, and a slot whose flag is clear and stays so.\<close>

fun fb_raises :: "fb_pc \<Rightarrow> bool" where
  "fb_raises (FbEnter a val timed) = True"
| "fb_raises (FbFlag a val timed) = True"
| "fb_raises _ = False"

definition fb_forgotten :: "(fb_mem, fb_pc) fsys \<Rightarrow> bool" where
  "fb_forgotten s \<longleftrightarrow> \<not> fb_waiting (shm s) \<and> (\<forall>v < length (pcs s). \<not> fb_raises (pcs s ! v))"

lemma fb_forgotten_exec: "fb_exec m l = Some (m', l', k) \<Longrightarrow> \<not> fb_raises l \<Longrightarrow> \<not> fb_waiting m \<Longrightarrow>
    \<not> fb_waiting m' \<and> \<not> fb_raises l' \<and> (k = KNone \<or> k = KSleep)"
  by (cases l) (auto split: if_splits)

lemma fb_forgotten_step:
  assumes f: "fb_forgotten s" and stp: "fb_step a s = Some s'" and a: "fb_no_wait a"
  shows "fb_forgotten s' \<and> set (waitq s) \<subseteq> set (waitq s')"
  using stp [unfolded fb_step_def]
proof (cases rule: sys_stepE)
  case (invoke t op l)
  then have "\<not> fb_raises l" using a by (cases op; cases "pcs s ! t") (auto split: if_splits)
  with f invoke show ?thesis by (auto simp: fb_forgotten_def nth_list_update)
next
  case (exec t ws m l k q)
  with f fb_forgotten_exec [of "shm s" "pcs s ! t" m l k] show ?thesis
    by (auto simp: fb_forgotten_def nth_list_update)
qed (use a in auto)

lemma fb_forgotten_run: "fb_forgotten s \<Longrightarrow> run fb_step as s = Some s' \<Longrightarrow> list_all fb_no_wait as \<Longrightarrow>
    set (waitq s) \<subseteq> set (waitq s')"
proof (induction as arbitrary: s)
  case (Cons a as)
  then obtain s1 where "fb_step a s = Some s1" "run fb_step as s1 = Some s'"
    by (auto split: option.splits)
  with Cons.IH [of s1] Cons.prems fb_forgotten_step [of s a s1] show ?case by auto
qed simp

text \<open>One of the sleepers, taken out of the queue, returns from its wait: it clears the flag on its way.\<close>

definition fb_return :: "tid \<Rightarrow> fb_op act list" where
  "fb_return u = [Step u [], Step u [], Step u []]"

lemma fb_return_forgets:
  assumes u: "u < length (pcs s)" "u \<notin> set (waitq s)" "pcs s ! u = FbAsleep a val timed"
    and others: "\<forall>v < length (pcs s). \<not> fb_raises (pcs s ! v)"
    and r: "run fb_step (fb_return u) s = Some s'"
  shows "fb_forgotten s' \<and> waitq s' = waitq s \<and> pcs s' ! u = FbOut (Some 0)"
proof -
  have free: "\<not> fb_lock (shm s)"
    using r u by (auto simp: fb_return_def fb_step_def sys_step_def awake_def split: if_splits)
  then have "run fb_step (fb_return u) s = Some \<lparr>shm = (shm s)\<lparr>fb_lock := False, fb_waiting := False\<rparr>,
      waitq = waitq s, pcs = (pcs s)[u := FbOut (Some 0)]\<rparr>"
    using u by (simp add: fb_return_def fb_step_def sys_step_def awake_def)
  with r u others show ?thesis by (auto simp: fb_forgotten_def nth_list_update split: if_splits)
qed

text \<open>
  C36. With more than one waiter in a slot the flag is wrong: let threads sleep in the slot's condition
  variable, let one that has been woken return from its wait while no other thread is entering one. From
  then on no call of \<open>wake\<close>, of one or of all, by any thread and as many as there may be, wakes any of the
  threads still asleep, whatever is stored in their words, until somebody begins a new wait or a timeout
  or a spurious wake-up takes them out.
\<close>
theorem windows_fallback_strands_waiter:
  assumes reach: "fb_reachable words n s" and u: "u < n" "u \<notin> set (waitq s)" "pcs s ! u = FbAsleep a val timed"
    and t: "t \<in> set (waitq s)" and others: "\<And>v. v < n \<Longrightarrow> \<not> fb_raises (pcs s ! v)"
    and r: "run fb_step (fb_return u @ as) s = Some s'" and as: "list_all fb_no_wait as"
  shows "t \<in> set (waitq s') \<and> fb_asleep (pcs s' ! t)"
proof -
  have len: "length (pcs s) = n" using reach fb.reachable_length unfolding fb_step_def fb_init_def by blast
  obtain s1 where r1: "run fb_step (fb_return u) s = Some s1" and r2: "run fb_step as s1 = Some s'"
    using r unfolding run_append by (auto split: option.splits)
  have "fb_forgotten s1 \<and> waitq s1 = waitq s \<and> pcs s1 ! u = FbOut (Some 0)"
    by (rule fb_return_forgets [OF _ u(2,3) _ r1]) (use u others len in auto)
  with fb_forgotten_run [OF _ r2 as] t have q: "t \<in> set (waitq s')" by auto
  have "fb_reachable words n s'" using reach r by (rule reachable_run)
  then have "fb.queue_wf s'" unfolding fb_step_def fb_init_def by (rule fb.reachable_queue_wf)
  with q show ?thesis by (simp add: fb.queue_wf_def)
qed

text \<open>
  Threads 0 and 1 sleep until word 8 is no longer 0; a store and a wake of one take thread 0 out, which
  returns; a second wake of one and a wake of all leave thread 1 asleep, its word changed, and everybody
  else out of the calls.
\<close>

definition fb_sleep :: "tid \<Rightarrow> fb_op act list" where
  "fb_sleep t = [Invoke t (FbWaitOp 8 0 False), Step t [], Step t [], Step t [], Step t []]"

definition fb_notify :: "i32 \<Rightarrow> tid list \<Rightarrow> fb_op act list" where
  "fb_notify c ws = [Invoke 2 (FbNotify 8 1 c), Step 2 [], Step 2 [], Step 2 ws, Step 2 []]"

definition fb_woken :: "(fb_mem, fb_pc) fsys" where
  "fb_woken = \<lparr>shm = \<lparr>fb_lock = False, fb_waiting = True, fb_word = (\<lambda>_. 0)(8 := 1)\<rparr>, waitq = [1],
     pcs = [FbAsleep 8 0 False, FbAsleep 8 0 False, FbOut (Some 1)]\<rparr>"

lemmas fb_demo_simps = fb_sleep_def fb_notify_def fb_step_def fb_init_def fb_mem0_def sys_step_def awake_def sys_init_def
  kernel_def wake_ok_def KWakeAll_eq fb_woken_def fb_return_def

lemma fb_woken_reachable: "fb_reachable (\<lambda>_. 0) 3 fb_woken"
proof (rule run_reachable [of _ "fb_sleep 0 @ fb_sleep 1 @ fb_notify 1 [0]"])
  show "run fb_step (fb_sleep 0 @ fb_sleep 1 @ fb_notify 1 [0]) (fb_init (\<lambda>_. 0) 3) = Some fb_woken"
    by (simp add: fb_demo_simps eval_nat_numeral)
qed

theorem windows_fallback_strands_waiter_witness:
  "\<exists>s'. run fb_step (fb_return 0 @ fb_notify 1 [] @ fb_notify (- 1) []) fb_woken = Some s' \<and>
     fb_word (shm s') 8 = 1 \<and> 1 \<in> set (waitq s') \<and> fb_asleep (pcs s' ! 1)"
proof -
  let ?as = "fb_notify 1 [] @ fb_notify (- 1) []"
  have "\<exists>s'. run fb_step (fb_return 0 @ ?as) fb_woken = Some s' \<and> fb_word (shm s') 8 = 1"
    by (simp add: fb_demo_simps eval_nat_numeral)
  then obtain s' where r: "run fb_step (fb_return 0 @ ?as) fb_woken = Some s'" and w: "fb_word (shm s') 8 = 1" by blast
  have quiet: "\<not> fb_raises (pcs fb_woken ! v)" if "v < 3" for v
    using that by (auto simp: fb_woken_def less_Suc_eq numeral_3_eq_3)
  have "1 \<in> set (waitq s') \<and> fb_asleep (pcs s' ! 1)"
    by (rule windows_fallback_strands_waiter [OF fb_woken_reachable, of 0 8 0 False, OF _ _ _ _ quiet r])
      (simp_all add: fb_woken_def fb_notify_def)
  with r w show ?thesis by blast
qed

section \<open>The lazy initialisation of the slots\<close>

text \<open>
  \<open>init_fallback_slots\<close> as the threads run it at the head of the fallback, for one slot, with the lock of
  the slot taken afterwards. A reinitialised lock is free, whoever is inside; the condition variable
  is left out, its reinitialisation forgets the sleepers.
\<close>

record fi_mem =
  fi_initialized :: bool
  fi_lock :: bool
  fi_waiting :: bool

datatype fi_pc = FiOut | FiCheck | FiInitLock | FiInitWaiting | FiSetFlag | FiAcquire | FiInside

definition fi_start :: "unit \<Rightarrow> fi_pc \<Rightarrow> fi_pc option" where
  "fi_start op l = (if l = FiOut then Some FiCheck else None)"

fun fi_exec :: "fi_mem \<Rightarrow> fi_pc \<Rightarrow> (fi_mem \<times> fi_pc \<times> keff) option" where
  "fi_exec m FiOut = None"
| "fi_exec m FiCheck = Some (m, if fi_initialized m then FiAcquire else FiInitLock, KNone)"
| "fi_exec m FiInitLock = Some (m\<lparr>fi_lock := False\<rparr>, FiInitWaiting, KNone)"
| "fi_exec m FiInitWaiting = Some (m\<lparr>fi_waiting := False\<rparr>, FiSetFlag, KNone)"
| "fi_exec m FiSetFlag = Some (m\<lparr>fi_initialized := True\<rparr>, FiAcquire, KNone)"
| "fi_exec m FiAcquire = (if fi_lock m then None else Some (m\<lparr>fi_lock := True\<rparr>, FiInside, KNone))"
| "fi_exec m FiInside = Some (m\<lparr>fi_lock := False\<rparr>, FiOut, KNone)"

definition fi_mem0 :: fi_mem where
  "fi_mem0 = \<lparr>fi_initialized = False, fi_lock = False, fi_waiting = False\<rparr>"

text \<open>Two first calls at once: both see the flag clear, and in the end both are inside the slot's lock.\<close>

theorem windows_fallback_init_race:
  "(case run (sys_step fi_exec fi_start) ([Invoke 0 (), Invoke 1 (), Step 0 [], Step 1 []] @ replicate 4 (Step 0 []) @ replicate 4 (Step 1 []))
       (sys_init fi_mem0 FiOut 2) of None \<Rightarrow> False | Some s \<Rightarrow> pcs s = [FiInside, FiInside])"
  by code_simp

end
