(* ===== verification/Platform.thy ===== *)
theory Platform
  imports Futex
begin

text \<open>
  What is left of the platform layer: the Darwin futex wrappers of \<^verbatim>\<open>psync_platform.h\<close>, the timeout
  conversions of the three systems side by side, and the padding of \<^verbatim>\<open>psync_cache_padded.h\<close>. Shown: how
  far each system's timeout is from the one asked for; and that two padded objects share no cache
  line, with the exact size of each.
\<close>

section \<open>The wrappers of the ulock calls (Darwin)\<close>

definition UL_COMPARE_AND_WAIT :: u32 where "UL_COMPARE_AND_WAIT = 1"
definition ULF_WAKE_ALL :: u32 where "ULF_WAKE_ALL = 0x100"

text \<open>
  The arguments of \<open>__ulock_wait\<close> (operation, value, timeout) and of \<open>__ulock_wake\<close> (operation, value).
  The kernel is a parameter as for Linux: the result of a call and the \<open>errno\<close> it leaves.
\<close>

datatype ulock_call = UlockWait u32 u64 u32 | UlockWake u32 u64

definition ulock :: "(ulock_call \<Rightarrow> i32 \<times> i32) \<Rightarrow> i32 \<Rightarrow> ulock_call \<Rightarrow> i32" where
  "ulock sys good c = (let (ret, errno) = sys c in if 0 \<le>s ret then good else - errno)"

definition darwin_wait :: "(ulock_call \<Rightarrow> i32 \<times> i32) \<Rightarrow> u32 \<Rightarrow> i32" where
  "darwin_wait sys val = ulock sys 0 (UlockWait UL_COMPARE_AND_WAIT (ucast val) 0)"

definition darwin_wait_for :: "(ulock_call \<Rightarrow> i32 \<times> i32) \<Rightarrow> u32 \<Rightarrow> u64 \<Rightarrow> i32" where
  "darwin_wait_for sys val timeout_ns =
     ulock sys 0 (UlockWait UL_COMPARE_AND_WAIT (ucast val) (darwin_timeout_us timeout_ns))"

definition darwin_wake :: "(ulock_call \<Rightarrow> i32 \<times> i32) \<Rightarrow> i32 \<Rightarrow> i32" where
  "darwin_wake sys count =
     (if count \<le>s 0 \<or> 1 <s count
      then ulock sys 1 (UlockWake (UL_COMPARE_AND_WAIT OR ULF_WAKE_ALL) 0)
      else ulock sys 1 (UlockWake UL_COMPARE_AND_WAIT 0))"

definition darwin_wake_all :: "(ulock_call \<Rightarrow> i32 \<times> i32) \<Rightarrow> i32" where
  "darwin_wake_all sys = darwin_wake sys 0x7fffffff"

text \<open>\<open>requeue\<close> ignores everything but the address and wakes all; so does the one for Windows.\<close>

definition darwin_requeue :: "(ulock_call \<Rightarrow> i32 \<times> i32) \<Rightarrow> i32 \<Rightarrow> u32 \<Rightarrow> i32" where
  "darwin_requeue sys count expected = darwin_wake_all sys"

lemma darwin_wake_op: "darwin_wake sys count = ulock sys 1 (UlockWake
    (case darwin_wake_op count of UlockWakeAll \<Rightarrow> 0x101 | UlockWakeOne \<Rightarrow> 1) 0)"
  by (simp add: darwin_wake_def darwin_wake_op_def UL_COMPARE_AND_WAIT_def ULF_WAKE_ALL_def)

section \<open>Timeouts\<close>

text \<open>The time each system is asked to wait, in nanoseconds.\<close>

definition linux_timeout :: "u64 \<Rightarrow> nat" where
  "linux_timeout t = unat (tv_sec (timespec_of_ns t)) * 1000000000 + unat (tv_nsec (timespec_of_ns t))"

definition darwin_timeout :: "u64 \<Rightarrow> nat" where
  "darwin_timeout t = unat (darwin_timeout_us t) * 1000"

definition windows_timeout :: "u64 \<Rightarrow> nat" where
  "windows_timeout t = unat (windows_timeout_ms t) * 1000000"

lemma unat_ucast32: "unat (ucast (x :: u64) :: u32) = unat x mod 2 ^ 32"
  by (simp add: unsigned_ucast_eq take_bit_nat_eq_self take_bit_eq_mod)

lemma unat_eq_0_word: "unat (w :: 'a::len word) = 0 \<longleftrightarrow> w = 0"
  by (simp add: unat_eq_zero)

lemma darwin_us:
  assumes "unat t < 4294967296000"
  shows "unat (darwin_timeout_us t) = (if unat t div 1000 = 0 \<and> 0 < unat t then 1 else unat t div 1000)"
proof -
  have "unat t div 1000 < 2 ^ 32"
    using assms by (simp add: less_mult_imp_div_less)
  then have u: "unat (ucast (t div 1000) :: u32) = unat t div 1000"
    by (simp add: unat_ucast32 unat_div)
  then show ?thesis
    unfolding darwin_timeout_us_def Let_def
    using unat_eq_0_word [of "ucast (t div 1000) :: u32"] by (auto simp: word_less_nat_alt)
qed

lemma windows_ms:
  assumes "unat t \<le> 4294967295000000"
  shows "unat (windows_timeout_ms t) = (unat t + 999999) div 1000000"
proof -
  have "unat (t + 999999) = unat t + 999999"
    using assms by (simp add: unat_plus_if')
  moreover have "(unat t + 999999) div 1000000 < 2 ^ 32"
    using assms by (simp add: less_mult_imp_div_less)
  ultimately have u: "unat (ucast ((t + 999999) div 1000000) :: u32) = (unat t + 999999) div 1000000"
    by (simp add: unat_ucast32 unat_div)
  moreover have "0 < (unat t + 999999) div 1000000" if "0 < unat t"
    using that by simp
  ultimately show ?thesis
    unfolding windows_timeout_ms_def Let_def
    using unat_eq_0_word [of "ucast ((t + 999999) div 1000000) :: u32"] by (auto simp: word_less_nat_alt)
qed

text \<open>How far a number is from its multiple of a unit, rounded up, and rounded down except to zero.\<close>

lemma div_mult_bounds:
  fixes n :: nat
  assumes "0 < k"
  shows "n div k * k \<le> n" "n < k + n div k * k"
  using div_times_less_eq_dividend dividend_less_div_times [OF assms] by blast+

lemma round_up_off:
  fixes n :: nat
  assumes k: "0 < k"
  shows "n \<le> (n + (k - 1)) div k * k \<and> (n + (k - 1)) div k * k < n + k \<and> ((n + (k - 1)) div k * k = 0 \<longleftrightarrow> n = 0)"
proof (cases "n = 0")
  case True
  with k show ?thesis by simp
next
  case False
  have "n \<le> (n + (k - 1)) div k * k" "(n + (k - 1)) div k * k < n + k"
    using div_mult_bounds [OF k, of "n + (k - 1)"] k by linarith+
  with False show ?thesis by linarith
qed

lemma round_down_off:
  fixes n :: nat
  assumes "1 < k"
  shows "(if n div k = 0 \<and> 0 < n then 1 else n div k) * k < n + k \<and>
    n < (if n div k = 0 \<and> 0 < n then 1 else n div k) * k + k \<and>
    ((if n div k = 0 \<and> 0 < n then 1 else n div k) * k = 0 \<longleftrightarrow> n = 0)"
proof (cases "n div k = 0")
  case True
  with assms div_mult_bounds [of k n] show ?thesis by auto
next
  case False
  then have "0 < n" by (cases n) auto
  moreover have "n div k * k < n + k" "n < n div k * k + k"
    using div_mult_bounds [of k n] assms by linarith+
  ultimately show ?thesis using False assms by simp
qed

text \<open>
  The timeouts: Linux waits exactly as long as asked, with the nanoseconds below one second; Darwin,
  below \<open>2 ^ 32\<close> microseconds, less than a microsecond off, and early only if it is more than one; and
  Windows, up to \<open>2 ^ 32 - 1\<close> milliseconds, never early and less than a millisecond late. Only a timeout of
  zero is passed on as zero.
\<close>
theorem timeout_conversions:
  assumes "unat t < 4294967296000"
  shows "linux_timeout t = unat t \<and> unat (tv_nsec (timespec_of_ns t)) < 1000000000 \<and>
    darwin_timeout t < unat t + 1000 \<and> unat t < darwin_timeout t + 1000 \<and>
    unat t \<le> windows_timeout t \<and> windows_timeout t < unat t + 1000000 \<and>
    (darwin_timeout t = 0 \<longleftrightarrow> t = 0) \<and> (windows_timeout t = 0 \<longleftrightarrow> t = 0)"
proof -
  let ?n = "unat t"
  have "linux_timeout t = ?n" "unat (tv_nsec (timespec_of_ns t)) < 1000000000"
    by (simp_all add: linux_timeout_def timespec_of_ns_def unat_div unat_mod)
  moreover have d: "darwin_timeout t = (if ?n div 1000 = 0 \<and> 0 < ?n then 1 else ?n div 1000) * 1000"
    using darwin_us [OF assms] by (simp add: darwin_timeout_def)
  moreover have w: "windows_timeout t = (?n + 999999) div 1000000 * 1000000"
    using windows_ms [of t] assms by (simp add: windows_timeout_def)
  moreover have "t = 0 \<longleftrightarrow> ?n = 0"
    by (simp add: unat_eq_zero)
  ultimately show ?thesis
    using round_up_off [of 1000000 ?n] round_down_off [of 1000 ?n] by simp
qed

theorem timeout_conversions_witness:
  "linux_timeout 2500000001 = 2500000001 \<and> darwin_timeout 2500000001 < 2500001001 \<and>
     2500000001 \<le> windows_timeout 2500000001"
  using timeout_conversions [of 2500000001] by simp

section \<open>CachePadded\<close>

text \<open>
  The line size of the two groups of targets. A \<open>CachePadded\<close> object is the value, of \<open>value_size\<close> bytes,
  then an array of at least one byte; \<open>alignas\<close> rounds the size of the class up to a multiple of the line
  and puts every object at such an address.
\<close>

definition kDestructiveInterferenceSize :: "bool \<Rightarrow> nat" where
  "kDestructiveInterferenceSize arm64 = (if arm64 then 128 else 64)"

definition kPaddingBytes :: "bool \<Rightarrow> nat \<Rightarrow> nat" where
  "kPaddingBytes arm64 kValueSize =
     (if kValueSize mod kDestructiveInterferenceSize arm64 = 0 then 0
      else kDestructiveInterferenceSize arm64 - kValueSize mod kDestructiveInterferenceSize arm64)"

definition padding_length :: "bool \<Rightarrow> nat \<Rightarrow> nat" where
  "padding_length arm64 kValueSize = (if 0 < kPaddingBytes arm64 kValueSize then kPaddingBytes arm64 kValueSize else 1)"

definition padded_size :: "bool \<Rightarrow> nat \<Rightarrow> nat" where
  "padded_size arm64 kValueSize =
     (let L = kDestructiveInterferenceSize arm64
      in (kValueSize + padding_length arm64 kValueSize + (L - 1)) div L * L)"

lemma line_pos: "0 < kDestructiveInterferenceSize arm64" "1 < kDestructiveInterferenceSize arm64"
  by (simp_all add: kDestructiveInterferenceSize_def)

lemma padded_size_eq:
  fixes v arm64
  defines "L \<equiv> kDestructiveInterferenceSize arm64"
  shows "padded_size arm64 v = v div L * L + L"
proof (cases "v mod L = 0")
  case True
  then have "padding_length arm64 v = 1"
    by (simp add: padding_length_def kPaddingBytes_def L_def)
  moreover have "(v + 1 + (L - 1)) div L = v div L + 1"
    using line_pos(1) [of arm64] by (simp add: L_def div_add_self2)
  ultimately show ?thesis
    by (simp add: padded_size_def L_def [symmetric] Let_def)
next
  case False
  have lt: "v mod L < L"
    using line_pos(1) [of arm64] by (simp add: L_def)
  then have p: "padding_length arm64 v = L - v mod L"
    using False by (simp add: padding_length_def kPaddingBytes_def L_def)
  have "v + (L - v mod L) = v div L * L + L"
    using div_mult_mod_eq [of v L] lt by linarith
  moreover have "(v div L * L + L + (L - 1)) div L = v div L + 1"
  proof -
    have "v div L * L + L + (L - 1) = (L - 1) + (v div L + 1) * L"
      by (simp add: algebra_simps)
    moreover have "((L - 1) + (v div L + 1) * L) div L = (v div L + 1) + (L - 1) div L"
      using line_pos(1) [of arm64] by (intro div_mult_self1) (simp add: L_def)
    ultimately show ?thesis
      using line_pos(1) [of arm64] by (simp add: L_def)
  qed
  ultimately show ?thesis
    using p by (simp add: padded_size_def L_def [symmetric] Let_def)
qed

text \<open>
  Padding: the size of a padded object is a multiple of the line, the least one that is larger than
  the value; and no byte outside the object lies in a cache line of its value, so that two padded
  values never share one. A value that fills its lines exactly still gets a further line.
\<close>
theorem cache_padded_isolates:
  assumes "p mod kDestructiveInterferenceSize arm64 = 0" "x < v" "z < p \<or> p + padded_size arm64 v \<le> z"
  shows "(p + x) div kDestructiveInterferenceSize arm64 \<noteq> z div kDestructiveInterferenceSize arm64 \<and>
    padded_size arm64 v mod kDestructiveInterferenceSize arm64 = 0 \<and> v < padded_size arm64 v \<and>
    padded_size arm64 v \<le> v + kDestructiveInterferenceSize arm64 \<and>
    (v mod kDestructiveInterferenceSize arm64 = 0 \<longrightarrow> padded_size arm64 v = v + kDestructiveInterferenceSize arm64)"
proof -
  let ?L = "kDestructiveInterferenceSize arm64"
  note pos = line_pos(1) [of arm64]
  have size: "padded_size arm64 v = (v div ?L + 1) * ?L"
    by (simp add: padded_size_eq)
  have v: "v div ?L * ?L \<le> v" "v < ?L + v div ?L * ?L"
    using div_mult_bounds [OF pos] by blast+
  obtain i where p: "p = i * ?L"
    using assms(1) by (auto simp: mod_eq_0_iff_dvd dvd_def mult.commute)
  have px: "(p + x) div ?L = i + x div ?L"
    using pos p by simp
  have "x div ?L \<le> v div ?L"
    using assms(2) by (intro div_le_mono) simp
  moreover have "z div ?L < i" if "z < p"
    using that p by (simp add: less_mult_imp_div_less)
  moreover have "i + (v div ?L + 1) \<le> z div ?L" if "p + padded_size arm64 v \<le> z"
  proof -
    have "(i + (v div ?L + 1)) * ?L \<le> z"
      using that p size by (simp add: algebra_simps)
    then show ?thesis
      using pos by (simp add: less_eq_div_iff_mult_less_eq)
  qed
  ultimately have "(p + x) div ?L \<noteq> z div ?L"
    using px assms(3) by linarith
  moreover have "v < padded_size arm64 v" "padded_size arm64 v \<le> v + ?L"
    using v size by simp_all
  moreover have "padded_size arm64 v = v + ?L" if "v mod ?L = 0"
    using that div_mult_mod_eq [of v ?L] size by simp
  ultimately show ?thesis
    using size by simp
qed

theorem cache_padded_isolates_witness:
  "(128 + 7) div kDestructiveInterferenceSize False \<noteq> (192 + 0) div kDestructiveInterferenceSize False \<and>
     8 < padded_size False 8 \<and> padded_size False 8 = 64"
  using cache_padded_isolates [of 128 False 7 8 192]
  by (simp add: padded_size_eq kDestructiveInterferenceSize_def)

end
