(* ===== verification/Monitor.thy ===== *)
theory Monitor
  imports CondVar SharedMutex SpinLock
begin

text \<open>
  The condition variable of \<^verbatim>\<open>psync_condvar.h\<close> together with the locks it is used with. In
  \<open>CondVar\<close> the lock is one flag that is taken and left in one step; here \<open>lock.lock()\<close> and
  \<open>lock.unlock()\<close> are the many steps of the repository's own lock, with its own word and its own
  sleepers, interleaved with everybody else's. Shown: the composition refines both its parts, the
  condition variable over the one-step lock and the lock on its own, for \<open>Mutex\<close>, \<open>SpinLock\<close> and the
  writer side of \<open>SharedMutex\<close>; and a predicate wait that was notified returns with the lock.
\<close>

section \<open>The composed program\<close>

text \<open>
  What \<open>LockType\<close> gives the template: the transitions of the lock, its two calls, the points outside
  of it and in its critical section, and whether it is the \<open>Mutex\<close> that \<open>broadcast\<close> has an
  overload for.
\<close>

record ('op, 'w, 'l) lock_type =
  lt_exec :: "'w \<Rightarrow> 'l \<Rightarrow> ('w \<times> 'l \<times> keff) option"
  lt_start :: "'op \<Rightarrow> 'l \<Rightarrow> 'l option"
  lt_lock :: 'op
  lt_unlock :: 'op
  lt_idle :: 'l
  lt_held :: 'l
  lt_mutex :: bool

definition lt_step :: "('op, 'w, 'l) lock_type \<Rightarrow> 'op act \<Rightarrow> ('w, 'l) fsys \<Rightarrow> ('w, 'l) fsys option" where
  "lt_step L = sys_step (lt_exec L) (lt_start L)"

definition mutex_type :: "(mutex_op, u32, mutex_pc) lock_type" where
  "mutex_type = \<lparr>lt_exec = mutex_exec, lt_start = mutex_start, lt_lock = OpLock, lt_unlock = OpUnlock,
     lt_idle = MIdle, lt_held = MHeld, lt_mutex = True\<rparr>"

definition spin_type :: "(spin_op, u32, spin_pc) lock_type" where
  "spin_type = \<lparr>lt_exec = spin_exec, lt_start = spin_start, lt_lock = SpOpLock, lt_unlock = SpOpUnlock,
     lt_idle = SpIdle, lt_held = SpHeld, lt_mutex = False\<rparr>"

definition shared_type :: "(shared_op, u32, shared_pc) lock_type" where
  "shared_type = \<lparr>lt_exec = shared_exec, lt_start = shared_start, lt_lock = ShLock, lt_unlock = ShUnlock,
     lt_idle = ShIdle, lt_held = WHeld, lt_mutex = False\<rparr>"

text \<open>
  The state: the lock with its word and sleepers, and the condition variable with its own; a thread
  has a point in each. The flag \<open>cv_locked\<close> is not used here.
\<close>

record ('w, 'l) monitor =
  mon_lock :: "('w, 'l) fsys"
  mon_cond :: "(cv_mem, cv_pc) fsys"

text \<open>The points that call the lock (true: \<open>lock()\<close>, false: \<open>unlock()\<close>) and where the call returns to.\<close>

fun cv_lock_call :: "cv_pc \<Rightarrow> bool option" where
  "cv_lock_call CvLocking = Some True"
| "cv_lock_call (CvRelock c seq) = Some True"
| "cv_lock_call CvUnlocking = Some False"
| "cv_lock_call (CvRelease c seq) = Some False"
| "cv_lock_call _ = None"

fun cv_lock_return :: "cv_pc \<Rightarrow> cv_pc" where
  "cv_lock_return CvLocking = CvHeld CvNothing"
| "cv_lock_return (CvRelock c seq) = cv_relocked c seq"
| "cv_lock_return CvUnlocking = CvOut CvNothing"
| "cv_lock_return (CvRelease c seq) = CvWait c seq"
| "cv_lock_return l = l"

text \<open>
  One step of a call of the lock: entering it, or the next transition of the lock, after which the
  call returns if the lock is in its critical section or left.
\<close>

definition mon_call_step :: "('op, 'w, 'l) lock_type \<Rightarrow> bool \<Rightarrow> tid \<Rightarrow> tid list \<Rightarrow>
    ('w, 'l) monitor \<Rightarrow> ('w, 'l) monitor option" where
  "mon_call_step L acq t ws s =
     (let op = if acq then lt_lock L else lt_unlock L; home = if acq then lt_held L else lt_idle L in
      if lt_start L op (pcs (mon_lock s) ! t) \<noteq> None
      then map_option (\<lambda>M. s\<lparr>mon_lock := M\<rparr>) (lt_step L (Invoke t op) (mon_lock s))
      else map_option (\<lambda>M. \<lparr>mon_lock = M, mon_cond =
          (if pcs M ! t = home
           then (mon_cond s)\<lparr>pcs := (pcs (mon_cond s))[t := cv_lock_return (pcs (mon_cond s) ! t)]\<rparr>
           else mon_cond s)\<rparr>)
        (lt_step L (Step t ws) (mon_lock s)))"

definition mon_cond_step :: "cv_op act \<Rightarrow> ('w, 'l) monitor \<Rightarrow> ('w, 'l) monitor option" where
  "mon_cond_step a s = map_option (\<lambda>C. s\<lparr>mon_cond := C\<rparr>) (cv_step a (mon_cond s))"

definition mon_thread_step :: "('op, 'w, 'l) lock_type \<Rightarrow> tid \<Rightarrow> tid list \<Rightarrow>
    ('w, 'l) monitor \<Rightarrow> ('w, 'l) monitor option" where
  "mon_thread_step L t ws s = (case cv_lock_call (pcs (mon_cond s) ! t) of
     Some acq \<Rightarrow> mon_call_step L acq t ws s
   | None \<Rightarrow> mon_cond_step (Step t ws) s)"

definition mon_awake :: "('w, 'l) monitor \<Rightarrow> tid \<Rightarrow> bool" where
  "mon_awake s t \<longleftrightarrow> awake (mon_lock s) t \<and> awake (mon_cond s) t"

definition mon_step :: "('op, 'w, 'l) lock_type \<Rightarrow> cv_op act \<Rightarrow> ('w, 'l) monitor \<Rightarrow> ('w, 'l) monitor option" where
  "mon_step L a s = (case a of
     Invoke t op \<Rightarrow>
       if mon_awake s t \<and> (op = CvBroadcastMutexOp \<longrightarrow> lt_mutex L) then mon_cond_step a s else None
   | Step t ws \<Rightarrow> if mon_awake s t then mon_thread_step L t ws s else None
   | Spurious t \<Rightarrow>
       if t \<in> set (waitq (mon_lock s))
       then map_option (\<lambda>M. s\<lparr>mon_lock := M\<rparr>) (lt_step L (Spurious t) (mon_lock s))
       else mon_cond_step a s)"

definition mon_init :: "('op, 'w, 'l) lock_type \<Rightarrow> 'w \<Rightarrow> nat \<Rightarrow> ('w, 'l) monitor" where
  "mon_init L w0 n = \<lparr>mon_lock = sys_init w0 (lt_idle L) n, mon_cond = cv_init n\<rparr>"

text \<open>
  The view of the composed program as the condition variable over the one-step lock: the flag is set
  while somebody holds the lock, and a thread that has let go of it inside \<open>unlock()\<close> is already
  behind the call.
\<close>

definition mon_view_pc :: "('l \<Rightarrow> bool) \<Rightarrow> cv_pc \<Rightarrow> 'l \<Rightarrow> cv_pc" where
  "mon_view_pc holder l m = (if cv_lock_call l = Some False \<and> \<not> holder m then cv_lock_return l else l)"

definition mon_view :: "('l \<Rightarrow> bool) \<Rightarrow> ('w, 'l) monitor \<Rightarrow> (cv_mem, cv_pc) fsys" where
  "mon_view holder s = \<lparr>shm = (shm (mon_cond s))\<lparr>cv_locked := 0 < cnt holder (pcs (mon_lock s))\<rparr>,
     waitq = waitq (mon_cond s),
     pcs = map2 (mon_view_pc holder) (pcs (mon_cond s)) (pcs (mon_lock s))\<rparr>"

section \<open>The points of the condition variable and the lock\<close>

lemma cv_lock_call_cases:
  "cv_lock_call l = Some True \<longleftrightarrow> l = CvLocking \<or> (\<exists>c seq. l = CvRelock c seq)"
  "cv_lock_call l = Some False \<longleftrightarrow> l = CvUnlocking \<or> (\<exists>c seq. l = CvRelease c seq)"
  by (cases l; simp)+

lemma cv_lock_call_holds: "cv_lock_call l = Some b \<Longrightarrow> cv_holds l = (\<not> b)"
  by (cases l) auto

lemma cv_lock_return_points: "cv_lock_call l = Some b \<Longrightarrow>
    cv_lock_call (cv_lock_return l) = None \<and> cv_holds (cv_lock_return l) = b"
  by (cases l) (auto simp: cv_relocked_def split: cv_call.split)

lemma cv_exec_lock_call: "cv_lock_call l = Some True \<Longrightarrow> \<not> cv_locked m \<Longrightarrow>
    cv_exec m l = Some (m\<lparr>cv_locked := True\<rparr>, cv_lock_return l, KNone)"
  by (cases l) auto

lemma cv_exec_unlock_call: "cv_lock_call l = Some False \<Longrightarrow>
    cv_exec m l = Some (m\<lparr>cv_locked := False\<rparr>, cv_lock_return l, KNone)"
  by (cases l) auto

text \<open>The other points neither read nor write the flag, and leave the thread on its side of the lock.\<close>

lemma cv_exec_own:
  assumes "cv_lock_call l = None" and "cv_exec m l = Some (m', l', k)"
  shows "cv_exec (m\<lparr>cv_locked := b\<rparr>) l = Some (m'\<lparr>cv_locked := b\<rparr>, l', k)" and "cv_holds l' = cv_holds l"
  using assms by (cases l; auto simp: cv_bump_def split: if_splits)+

lemma cv_start_call: "cv_start op l = Some l' \<Longrightarrow> cv_lock_call l = None"
  by (cases op; cases l) (auto simp: cv_notify_def cv_clock_def)

lemma holds_at_cnt_le1:
  assumes "\<And>i j. i < length (pcs s) \<Longrightarrow> j < length (pcs s) \<Longrightarrow> holds_at h s i \<Longrightarrow> holds_at h s j \<Longrightarrow> i = j"
  shows "cnt h (pcs s) \<le> 1"
  using assms by (auto simp: cnt_card holds_at_def card_le_Suc0_iff_eq)

lemma cnt_only: "cnt P ls \<le> 1 \<Longrightarrow> t < length ls \<Longrightarrow> P (ls ! t) \<Longrightarrow> cnt P ls = 1"
  using cnt_ge1 [of t ls P] by simp

section \<open>What the lock promises\<close>

text \<open>
  \<open>acquiring\<close> and \<open>releasing\<close> are the points inside the two calls, \<open>holder\<close> those of the thread that
  owns the lock. \<open>lock()\<close> goes on until it has the lock; \<open>unlock()\<close> gives it up once, and returns.
\<close>

locale monitor_lock =
  futex_client "lt_exec L" "lt_start L" asleep "lt_idle L" +
  lk: exclusive_lock "lt_step L" "sys_init w0 (lt_idle L)" bnd "holds_at holder"
  for L :: "('op, 'w, 'l) lock_type" and w0 :: 'w and bnd :: nat
    and asleep :: "'l \<Rightarrow> bool" and holder :: "'l \<Rightarrow> bool" +
  fixes acquiring :: "'l \<Rightarrow> bool" and releasing :: "'l \<Rightarrow> bool"
  assumes idle_points: "\<not> holder (lt_idle L)"
    and held_points: "holder (lt_held L)" "\<not> releasing (lt_held L)"
    and acquiring_points: "acquiring m \<Longrightarrow> \<not> holder m"
    and lock_starts: "lt_start L (lt_lock L) m = Some m' \<Longrightarrow> m = lt_idle L \<and> acquiring m'"
    and lock_total: "lt_start L (lt_lock L) (lt_idle L) \<noteq> None"
    and unlock_starts: "lt_start L (lt_unlock L) m = Some m' \<Longrightarrow> m = lt_held L \<and> releasing m' \<and> holder m'"
    and unlock_total: "lt_start L (lt_unlock L) (lt_held L) \<noteq> None"
    and acquiring_exec: "acquiring m \<Longrightarrow> lt_exec L w m = Some (w', m', k) \<Longrightarrow> acquiring m' \<or> m' = lt_held L"
    and releasing_exec: "releasing m \<Longrightarrow> lt_exec L w m = Some (w', m', k) \<Longrightarrow>
      (releasing m' \<or> m' = lt_idle L) \<and> (holder m' \<longrightarrow> holder m)"
begin

text \<open>A thread's two points belong together.\<close>

definition mon_ok :: "cv_pc \<Rightarrow> 'l \<Rightarrow> bool" where
  "mon_ok l m \<longleftrightarrow> (case cv_lock_call l of
     Some True \<Rightarrow> m = lt_idle L \<or> acquiring m
   | Some False \<Rightarrow> m = lt_held L \<or> releasing m
   | None \<Rightarrow> m = (if cv_holds l then lt_held L else lt_idle L))"

abbreviation vpc :: "cv_pc \<Rightarrow> 'l \<Rightarrow> cv_pc" where
  "vpc \<equiv> mon_view_pc holder"

lemma vpc_other: "cv_lock_call l \<noteq> Some False \<Longrightarrow> vpc l m = l"
  by (simp add: mon_view_pc_def)

lemma mon_ok_move:
  assumes ok: "mon_ok l m" and l: "cv_lock_call l = None" and same: "cv_holds l' = cv_holds l"
  shows "mon_ok l' m" and "vpc l' m = l'"
proof -
  have m: "m = (if cv_holds l then lt_held L else lt_idle L)" using ok l by (simp add: mon_ok_def)
  show "mon_ok l' m"
  proof (cases "cv_lock_call l'")
    case None
    with m same show ?thesis by (simp add: mon_ok_def)
  next
    case (Some b)
    with cv_lock_call_holds [OF Some] m same show ?thesis by (cases b) (auto simp: mon_ok_def)
  qed
  show "vpc l' m = l'"
    using m same held_points cv_lock_call_holds [of l' False] by (auto simp: mon_view_pc_def)
qed

lemma mon_ok_holder: "mon_ok l m \<Longrightarrow> cv_lock_call l = None \<Longrightarrow> holder m = cv_holds l"
  using idle_points held_points by (simp add: mon_ok_def)

lemma mon_ok_return: "cv_lock_call l = Some b \<Longrightarrow>
    mon_ok (cv_lock_return l) (if b then lt_held L else lt_idle L)"
  using cv_lock_return_points [of l b] by (simp add: mon_ok_def)

lemma one_holder:
  assumes "reachable (lt_step L) (sys_init w0 (lt_idle L) n) s" and "n < bnd"
  shows "cnt holder (pcs s) \<le> 1"
proof (rule holds_at_cnt_le1)
  fix i j assume h: "holds_at holder s i" "holds_at holder s j" "i < length (pcs s)" "j < length (pcs s)"
  have "length (pcs s) = n" using assms(1) reachable_length unfolding lt_step_def by blast
  then show "i = j" using lk.exclusive [OF assms _ _ h(1,2)] h by simp
qed

end

section \<open>Simulation\<close>

text \<open>The steps of the composed program, one case for each side that moves.\<close>

lemma mon_stepE [consumes 1, case_names client enter inside own lock_spurious cond_spurious]:
  assumes "mon_step L a s = Some s'"
  obtains (client) t op l where "mon_awake s t" "cv_start op (pcs (mon_cond s) ! t) = Some l"
      "s' = s\<lparr>mon_cond := (mon_cond s)\<lparr>pcs := (pcs (mon_cond s))[t := l]\<rparr>\<rparr>"
  | (enter) t acq m where "mon_awake s t" "cv_lock_call (pcs (mon_cond s) ! t) = Some acq"
      "lt_start L (if acq then lt_lock L else lt_unlock L) (pcs (mon_lock s) ! t) = Some m"
      "s' = s\<lparr>mon_lock := (mon_lock s)\<lparr>pcs := (pcs (mon_lock s))[t := m]\<rparr>\<rparr>"
  | (inside) t ws acq w m k q where "mon_awake s t" "cv_lock_call (pcs (mon_cond s) ! t) = Some acq"
      "lt_start L (if acq then lt_lock L else lt_unlock L) (pcs (mon_lock s) ! t) = None"
      "lt_exec L (shm (mon_lock s)) (pcs (mon_lock s) ! t) = Some (w, m, k)"
      "kernel k t ws (waitq (mon_lock s)) = Some q"
      "s' = \<lparr>mon_lock = \<lparr>shm = w, waitq = q, pcs = (pcs (mon_lock s))[t := m]\<rparr>,
        mon_cond = (if m = (if acq then lt_held L else lt_idle L)
          then (mon_cond s)\<lparr>pcs := (pcs (mon_cond s))[t := cv_lock_return (pcs (mon_cond s) ! t)]\<rparr>
          else mon_cond s)\<rparr>"
  | (own) t ws m l k q where "mon_awake s t" "cv_lock_call (pcs (mon_cond s) ! t) = None"
      "cv_exec (shm (mon_cond s)) (pcs (mon_cond s) ! t) = Some (m, l, k)"
      "kernel k t ws (waitq (mon_cond s)) = Some q"
      "s' = s\<lparr>mon_cond := \<lparr>shm = m, waitq = q, pcs = (pcs (mon_cond s))[t := l]\<rparr>\<rparr>"
  | (lock_spurious) t where "t \<in> set (waitq (mon_lock s))"
      "s' = s\<lparr>mon_lock := (mon_lock s)\<lparr>waitq := filter (\<lambda>u. u \<noteq> t) (waitq (mon_lock s))\<rparr>\<rparr>"
  | (cond_spurious) t where "t \<in> set (waitq (mon_cond s))"
      "s' = s\<lparr>mon_cond := (mon_cond s)\<lparr>waitq := filter (\<lambda>u. u \<noteq> t) (waitq (mon_cond s))\<rparr>\<rparr>"
proof (cases a)
  case (Invoke t op)
  with assms obtain C where t: "mon_awake s t" and C: "cv_step (Invoke t op) (mon_cond s) = Some C"
    and s': "s' = s\<lparr>mon_cond := C\<rparr>"
    by (auto simp: mon_step_def mon_cond_step_def split: if_splits)
  from C [unfolded cv_step_def] show ?thesis
    by (cases rule: sys_stepE) (use t s' client in \<open>auto intro: that\<close>)
next
  case (Spurious t)
  show ?thesis
  proof (cases "t \<in> set (waitq (mon_lock s))")
    case True
    with Spurious assms have "s' = s\<lparr>mon_lock := (mon_lock s)\<lparr>waitq := filter (\<lambda>u. u \<noteq> t) (waitq (mon_lock s))\<rparr>\<rparr>"
      by (auto simp: mon_step_def lt_step_def sys_step_def)
    with True lock_spurious show ?thesis by blast
  next
    case False
    with Spurious assms have "t \<in> set (waitq (mon_cond s))"
        "s' = s\<lparr>mon_cond := (mon_cond s)\<lparr>waitq := filter (\<lambda>u. u \<noteq> t) (waitq (mon_cond s))\<rparr>\<rparr>"
      by (auto simp: mon_step_def mon_cond_step_def cv_step_def sys_step_def split: if_splits)
    with cond_spurious show ?thesis by blast
  qed
next
  case (Step t ws)
  with assms have t: "mon_awake s t" and stp: "mon_thread_step L t ws s = Some s'"
    by (auto simp: mon_step_def split: if_splits)
  show ?thesis
  proof (cases "cv_lock_call (pcs (mon_cond s) ! t)")
    case (Some acq)
    with stp have call: "mon_call_step L acq t ws s = Some s'" by (simp add: mon_thread_step_def)
    show ?thesis
    proof (cases "lt_start L (if acq then lt_lock L else lt_unlock L) (pcs (mon_lock s) ! t)")
      case None
      with call obtain M where M: "lt_step L (Step t ws) (mon_lock s) = Some M"
        and s': "s' = \<lparr>mon_lock = M, mon_cond =
          (if pcs M ! t = (if acq then lt_held L else lt_idle L)
           then (mon_cond s)\<lparr>pcs := (pcs (mon_cond s))[t := cv_lock_return (pcs (mon_cond s) ! t)]\<rparr>
           else mon_cond s)\<rparr>"
        by (auto simp: mon_call_step_def Let_def)
      from M [unfolded lt_step_def] show ?thesis
      proof (cases rule: sys_stepE)
        case (exec v ws' w m k q)
        with s' inside [OF t Some None, of w m k ws q] show ?thesis by simp
      qed simp_all
    next
      case (Some m)
      with call \<open>cv_lock_call (pcs (mon_cond s) ! t) = Some acq\<close> t
      show ?thesis
        by (intro enter [of t acq m]) (auto simp: mon_call_step_def lt_step_def sys_step_def Let_def split: if_splits)
    qed
  next
    case None
    with stp have "mon_cond_step (Step t ws) s = Some s'" by (simp add: mon_thread_step_def)
    then obtain C where C: "cv_step (Step t ws) (mon_cond s) = Some C" and s': "s' = s\<lparr>mon_cond := C\<rparr>"
      by (auto simp: mon_cond_step_def)
    from C [unfolded cv_step_def] show ?thesis
    proof (cases rule: sys_stepE)
      case (exec v ws' w m k q)
      with s' own [OF t None, of w m k ws q] show ?thesis by simp
    qed simp_all
  qed
qed

lemma all_nth_update2: "\<forall>u < n. P (xs ! u) (ys ! u) \<Longrightarrow> P x y \<Longrightarrow> length xs = n \<Longrightarrow> length ys = n \<Longrightarrow>
    \<forall>u < n. P (xs[t := x] ! u) (ys[t := y] ! u)"
  by (metis nth_list_update nth_list_update_neq)

lemma cv_step_plain: "t < length (pcs v) \<Longrightarrow> t \<notin> set (waitq v) \<Longrightarrow> cv_exec (shm v) (pcs v ! t) = Some (m, l, KNone) \<Longrightarrow>
    cv_step (Step t []) v = Some (v\<lparr>shm := m, pcs := (pcs v)[t := l]\<rparr>)"
  by (simp add: cv_step_def sys_step_def awake_def)

context monitor_lock
begin

text \<open>
  What holds of every reachable state below \<open>2 ^ 32\<close> notifications: the lock is in a state it can
  reach on its own, the view is one of the condition variable over the one-step lock, and the two
  points of every thread belong together.
\<close>

abbreviation lk_reachable :: "nat \<Rightarrow> ('w, 'l) fsys \<Rightarrow> bool" where
  "lk_reachable n \<equiv> reachable (lt_step L) (sys_init w0 (lt_idle L) n)"

definition mon_inv :: "nat \<Rightarrow> ('w, 'l) monitor \<Rightarrow> bool" where
  "mon_inv n s \<longleftrightarrow> lk_reachable n (mon_lock s) \<and> cv_reachable n (mon_view holder s) \<and>
     length (pcs (mon_cond s)) = n \<and>
     (\<forall>u < n. mon_ok (pcs (mon_cond s) ! u) (pcs (mon_lock s) ! u))"

lemma mon_inv_lengths: "mon_inv n s \<Longrightarrow> length (pcs (mon_lock s)) = n \<and> length (pcs (mon_cond s)) = n"
  using reachable_length unfolding mon_inv_def lt_step_def by blast

lemma mon_inv_init: "mon_inv n (mon_init L w0 n)"
proof -
  have "mon_view holder (mon_init L w0 n) = cv_init n"
    using idle_points by (simp add: mon_view_def mon_init_def cv_init_def sys_init_def cv_mem0_def cnt_simps
        mon_view_pc_def zip_replicate map_replicate)
  then show ?thesis
    by (simp add: mon_inv_def reachable.start mon_init_def cv_init_def mon_ok_def)
qed

text \<open>A step of the condition variable's own, at a point that does not call the lock.\<close>

lemma mon_view_pc_nth: "mon_inv n s \<Longrightarrow> t < n \<Longrightarrow>
    pcs (mon_view holder s) ! t = vpc (pcs (mon_cond s) ! t) (pcs (mon_lock s) ! t)"
  using mon_inv_lengths by (simp add: mon_view_def)

lemma mon_view_cond:
  assumes inv: "mon_inv n s" and t: "t < n" and l: "cv_lock_call (pcs (mon_cond s) ! t) = None"
    and l': "cv_holds l' = cv_holds (pcs (mon_cond s) ! t)"
  shows "mon_view holder (s\<lparr>mon_cond := \<lparr>shm = m', waitq = q, pcs = (pcs (mon_cond s))[t := l']\<rparr>\<rparr>) =
      \<lparr>shm = m'\<lparr>cv_locked := 0 < cnt holder (pcs (mon_lock s))\<rparr>, waitq = q, pcs = (pcs (mon_view holder s))[t := l']\<rparr>"
    and "\<forall>u < n. mon_ok ((pcs (mon_cond s))[t := l'] ! u) (pcs (mon_lock s) ! u)"
proof -
  have ok: "mon_ok (pcs (mon_cond s) ! t) (pcs (mon_lock s) ! t)" using inv t by (simp add: mon_inv_def)
  show "mon_view holder (s\<lparr>mon_cond := \<lparr>shm = m', waitq = q, pcs = (pcs (mon_cond s))[t := l']\<rparr>\<rparr>) =
      \<lparr>shm = m'\<lparr>cv_locked := 0 < cnt holder (pcs (mon_lock s))\<rparr>, waitq = q, pcs = (pcs (mon_view holder s))[t := l']\<rparr>"
    using mon_inv_lengths [OF inv] mon_ok_move(2) [OF ok l l'] by (simp add: mon_view_def map2_update_left)
  show "\<forall>u < n. mon_ok ((pcs (mon_cond s))[t := l'] ! u) (pcs (mon_lock s) ! u)"
    using inv mon_ok_move(1) [OF ok l l'] mon_inv_lengths [OF inv]
      all_nth_update2 [of n mon_ok "pcs (mon_cond s)" "pcs (mon_lock s)" l' "pcs (mon_lock s) ! t" t]
    by (simp add: mon_inv_def)
qed

lemma mon_inv_cond:
  assumes inv: "mon_inv n s" and t: "t < n" and l: "cv_lock_call (pcs (mon_cond s) ! t) = None"
    and l': "cv_holds l' = cv_holds (pcs (mon_cond s) ! t)"
    and view: "cv_step a (mon_view holder s) =
      Some \<lparr>shm = m'\<lparr>cv_locked := 0 < cnt holder (pcs (mon_lock s))\<rparr>, waitq = q, pcs = (pcs (mon_view holder s))[t := l']\<rparr>"
  shows "mon_inv n (s\<lparr>mon_cond := \<lparr>shm = m', waitq = q, pcs = (pcs (mon_cond s))[t := l']\<rparr>\<rparr>)"
proof -
  let ?s = "s\<lparr>mon_cond := \<lparr>shm = m', waitq = q, pcs = (pcs (mon_cond s))[t := l']\<rparr>\<rparr>"
  note v = mon_view_cond [OF inv t l l']
  have "cv_reachable n (mon_view holder s)" using inv by (simp add: mon_inv_def)
  from reachable.step [OF this view] have "cv_reachable n (mon_view holder ?s)" by (simp only: v(1))
  with inv v(2) show ?thesis by (simp add: mon_inv_def)
qed

text \<open>
  A step of the lock by a thread that calls it: the view moves exactly when the lock changes hands.
\<close>

lemma mon_inv_lock:
  assumes inv: "mon_inv n s" and n: "n < bnd" and t: "t < n" "t \<notin> set (waitq (mon_cond s))"
    and call: "cv_lock_call (pcs (mon_cond s) ! t) = Some acq"
    and M: "lk_reachable n \<lparr>shm = w, waitq = q, pcs = (pcs (mon_lock s))[t := m]\<rparr>"
    and l: "l = pcs (mon_cond s) ! t \<and> (holder m \<longrightarrow> \<not> acq \<and> holder (pcs (mon_lock s) ! t)) \<or>
      l = cv_lock_return (pcs (mon_cond s) ! t) \<and> m = (if acq then lt_held L else lt_idle L)"
    and acq: "acq \<Longrightarrow> \<not> holder (pcs (mon_lock s) ! t)"
    and ok: "mon_ok l m"
  shows "mon_inv n \<lparr>mon_lock = \<lparr>shm = w, waitq = q, pcs = (pcs (mon_lock s))[t := m]\<rparr>,
    mon_cond = (mon_cond s)\<lparr>pcs := (pcs (mon_cond s))[t := l]\<rparr>\<rparr>"
proof -
  let ?ms = "pcs (mon_lock s)" and ?cs = "pcs (mon_cond s)"
  let ?s = "\<lparr>mon_lock = \<lparr>shm = w, waitq = q, pcs = ?ms[t := m]\<rparr>, mon_cond = (mon_cond s)\<lparr>pcs := ?cs[t := l]\<rparr>\<rparr>"
  note len = mon_inv_lengths [OF inv]
  have oks: "\<forall>u < n. mon_ok (?cs[t := l] ! u) (?ms[t := m] ! u)"
    using inv ok len by (intro all_nth_update2) (simp_all add: mon_inv_def)
  have one: "cnt holder ?ms \<le> 1" using one_holder [OF _ n] inv by (auto simp: mon_inv_def)
  have one': "cnt holder (?ms[t := m]) \<le> 1" using one_holder [OF M n] by simp
  have c: "cnt holder (?ms[t := m]) + of_bool (holder (?ms ! t)) = cnt holder ?ms + of_bool (holder m)"
    using cnt_update [of t ?ms holder m] t len by simp
  have view: "mon_view holder ?s = (mon_view holder s)\<lparr>
      shm := (shm (mon_view holder s))\<lparr>cv_locked := 0 < cnt holder (?ms[t := m])\<rparr>,
      pcs := (pcs (mon_view holder s))[t := vpc l m]\<rparr>"
    using len by (simp add: mon_view_def map2_update)
  have pc: "pcs (mon_view holder s) ! t = vpc (?cs ! t) (?ms ! t)" using mon_view_pc_nth [OF inv t(1)] .
  have awake: "t < length (pcs (mon_view holder s))" "t \<notin> set (waitq (mon_view holder s))"
    using t len by (simp_all add: mon_view_def)
  have same: "mon_view holder ?s = mon_view holder s" if "holder m = holder (?ms ! t)" "vpc l m = vpc (?cs ! t) (?ms ! t)"
  proof -
    have "(pcs (mon_view holder s))[t := vpc l m] = pcs (mon_view holder s)" using that pc by (metis list_update_id)
    moreover have "cnt holder (?ms[t := m]) = cnt holder ?ms" using c that by simp
    ultimately show ?thesis using view by (simp add: mon_view_def)
  qed
  note ret = cv_lock_return_points [OF call]
  have v: "vpc l m = (if l = ?cs ! t \<and> l \<noteq> cv_lock_return (?cs ! t) then vpc (?cs ! t) m else cv_lock_return (?cs ! t))"
    using l ret call by (auto simp: mon_view_pc_def)
  have step: "\<exists>a. cv_step a (mon_view holder s) = Some (mon_view holder ?s)"
    if "holder m \<noteq> holder (?ms ! t)"
  proof (cases acq)
    case True
    with l that acq have m: "m = lt_held L" "l = cv_lock_return (?cs ! t)" "\<not> holder (?ms ! t)" by auto
    with c one' have free: "cnt holder ?ms = 0" "cnt holder (?ms[t := m]) = 1" using held_points by simp_all
    have "cv_exec (shm (mon_view holder s)) (pcs (mon_view holder s) ! t) =
        Some ((shm (mon_view holder s))\<lparr>cv_locked := True\<rparr>, cv_lock_return (?cs ! t), KNone)"
      using cv_exec_lock_call [of "?cs ! t" "shm (mon_view holder s)"] call True free pc
      by (simp add: vpc_other mon_view_def)
    from cv_step_plain [OF awake this] view free m v show ?thesis by auto
  next
    case False
    with l that held_points idle_points have h: "holder (?ms ! t)" "\<not> holder m" by auto
    with c one have taken: "cnt holder (?ms[t := m]) = 0" by simp
    have "cv_exec (shm (mon_view holder s)) (pcs (mon_view holder s) ! t) =
        Some ((shm (mon_view holder s))\<lparr>cv_locked := False\<rparr>, cv_lock_return (?cs ! t), KNone)"
      using cv_exec_unlock_call [of "?cs ! t" "shm (mon_view holder s)"] call False pc h
      by (simp add: mon_view_pc_def)
    moreover have "vpc l m = cv_lock_return (?cs ! t)" using v h call False by (simp add: mon_view_pc_def)
    ultimately show ?thesis using cv_step_plain [OF awake] view taken by auto
  qed
  have "cv_reachable n (mon_view holder ?s)"
  proof (cases "holder m = holder (?ms ! t)")
    case True
    have "vpc l m = vpc (?cs ! t) (?ms ! t)"
    proof (cases acq)
      case t: True
      with True acq l held_points call have "l = ?cs ! t" by auto
      with t call show ?thesis by (simp add: vpc_other)
    next
      case False
      with True l call idle_points v show ?thesis by (auto simp: mon_view_pc_def)
    qed
    with same True inv show ?thesis by (simp add: mon_inv_def)
  next
    case False
    with step inv show ?thesis unfolding mon_inv_def by (blast intro: reachable.step)
  qed
  with M oks len show ?thesis by (simp add: mon_inv_def)
qed

end

lemma fsys_pcs_upd: "v\<lparr>pcs := ls\<rparr> = \<lparr>shm = shm v, waitq = waitq v, pcs = ls\<rparr>"
  by (cases v) simp

context monitor_lock
begin

lemma mon_inv_client:
  assumes inv: "mon_inv n s" and t: "t < n" "t \<notin> set (waitq (mon_cond s))"
    and op: "cv_start op (pcs (mon_cond s) ! t) = Some l"
  shows "mon_inv n (s\<lparr>mon_cond := (mon_cond s)\<lparr>pcs := (pcs (mon_cond s))[t := l]\<rparr>\<rparr>)"
proof -
  let ?v = "mon_view holder s"
  note len = mon_inv_lengths [OF inv]
  have call: "cv_lock_call (pcs (mon_cond s) ! t) = None" using op by (rule cv_start_call)
  have "pcs ?v ! t = pcs (mon_cond s) ! t"
    using mon_view_pc_nth [OF inv t(1)] call by (simp add: vpc_other)
  then have "cv_step (Invoke t op) ?v = Some (?v\<lparr>pcs := (pcs ?v)[t := l]\<rparr>)"
    using t op len by (simp add: cv_step_def sys_step_def awake_def mon_view_def)
  then have "cv_step (Invoke t op) ?v = Some \<lparr>shm = (shm (mon_cond s))\<lparr>cv_locked := 0 < cnt holder (pcs (mon_lock s))\<rparr>,
      waitq = waitq (mon_cond s), pcs = (pcs ?v)[t := l]\<rparr>" by (simp add: mon_view_def)
  from mon_inv_cond [OF inv t(1) call cv_start_keeps(1) [OF op] this] show ?thesis by (simp only: fsys_pcs_upd)
qed

lemma mon_inv_own:
  assumes inv: "mon_inv n s" and t: "t < n" "t \<notin> set (waitq (mon_cond s))"
    and call: "cv_lock_call (pcs (mon_cond s) ! t) = None"
    and ex: "cv_exec (shm (mon_cond s)) (pcs (mon_cond s) ! t) = Some (m, l, k)"
    and kr: "kernel k t ws (waitq (mon_cond s)) = Some q"
  shows "mon_inv n (s\<lparr>mon_cond := \<lparr>shm = m, waitq = q, pcs = (pcs (mon_cond s))[t := l]\<rparr>\<rparr>)"
proof -
  let ?v = "mon_view holder s" and ?b = "0 < cnt holder (pcs (mon_lock s))"
  note len = mon_inv_lengths [OF inv]
  have "pcs ?v ! t = pcs (mon_cond s) ! t"
    using mon_view_pc_nth [OF inv t(1)] call by (simp add: vpc_other)
  then have "cv_step (Step t ws) ?v = Some \<lparr>shm = m\<lparr>cv_locked := ?b\<rparr>, waitq = q, pcs = (pcs ?v)[t := l]\<rparr>"
    using t len kr cv_exec_own(1) [OF call ex, of ?b] unfolding cv_step_def
    by (intro step_exec) (simp_all add: mon_view_def)
  from mon_inv_cond [OF inv t(1) call cv_exec_own(2) [OF call ex] this] show ?thesis .
qed

lemma mon_inv_lock_reachable: "mon_inv n s \<Longrightarrow> lt_step L a (mon_lock s) = Some M \<Longrightarrow> lk_reachable n M"
  unfolding mon_inv_def by (elim conjE) (rule reachable.step)

lemma mon_inv_enter:
  assumes inv: "mon_inv n s" and n: "n < bnd" and t: "mon_awake s t"
    and call: "cv_lock_call (pcs (mon_cond s) ! t) = Some acq"
    and start: "lt_start L (if acq then lt_lock L else lt_unlock L) (pcs (mon_lock s) ! t) = Some m"
  shows "mon_inv n (s\<lparr>mon_lock := (mon_lock s)\<lparr>pcs := (pcs (mon_lock s))[t := m]\<rparr>\<rparr>)"
proof -
  note len = mon_inv_lengths [OF inv]
  have tn: "t < n" "t \<notin> set (waitq (mon_cond s))" using t len by (auto simp: mon_awake_def awake_def)
  have "lt_step L (Invoke t (if acq then lt_lock L else lt_unlock L)) (mon_lock s) =
      Some ((mon_lock s)\<lparr>pcs := (pcs (mon_lock s))[t := m]\<rparr>)"
    using t start by (simp add: lt_step_def sys_step_def mon_awake_def)
  then have M: "lk_reachable n \<lparr>shm = shm (mon_lock s), waitq = waitq (mon_lock s), pcs = (pcs (mon_lock s))[t := m]\<rparr>"
    using mon_inv_lock_reachable [OF inv] by (simp add: fsys_pcs_upd)
  have facts: "(holder m \<longrightarrow> \<not> acq \<and> holder (pcs (mon_lock s) ! t))" "acq \<Longrightarrow> \<not> holder (pcs (mon_lock s) ! t)"
      "mon_ok (pcs (mon_cond s) ! t) m"
    using start call lock_starts [of _ m] unlock_starts [of _ m] acquiring_points [of m] idle_points held_points
    by (cases acq; simp add: mon_ok_def)+
  have "mon_inv n \<lparr>mon_lock = \<lparr>shm = shm (mon_lock s), waitq = waitq (mon_lock s), pcs = (pcs (mon_lock s))[t := m]\<rparr>,
      mon_cond = (mon_cond s)\<lparr>pcs := (pcs (mon_cond s))[t := pcs (mon_cond s) ! t]\<rparr>\<rparr>"
    by (rule mon_inv_lock [OF inv n tn call M _ facts(2,3)]) (use facts(1) in auto)
  then show ?thesis by (cases s) (simp flip: fsys_pcs_upd)
qed

lemma mon_inv_inside:
  assumes inv: "mon_inv n s" and n: "n < bnd" and t: "mon_awake s t"
    and call: "cv_lock_call (pcs (mon_cond s) ! t) = Some acq"
    and start: "lt_start L (if acq then lt_lock L else lt_unlock L) (pcs (mon_lock s) ! t) = None"
    and ex: "lt_exec L (shm (mon_lock s)) (pcs (mon_lock s) ! t) = Some (w, m, k)"
    and kr: "kernel k t ws (waitq (mon_lock s)) = Some q"
  shows "mon_inv n \<lparr>mon_lock = \<lparr>shm = w, waitq = q, pcs = (pcs (mon_lock s))[t := m]\<rparr>,
    mon_cond = (if m = (if acq then lt_held L else lt_idle L)
      then (mon_cond s)\<lparr>pcs := (pcs (mon_cond s))[t := cv_lock_return (pcs (mon_cond s) ! t)]\<rparr>
      else mon_cond s)\<rparr>"
proof -
  let ?m = "pcs (mon_lock s) ! t" and ?home = "if acq then lt_held L else lt_idle L"
  note len = mon_inv_lengths [OF inv]
  have tn: "t < n" "t \<notin> set (waitq (mon_cond s))" "t \<notin> set (waitq (mon_lock s))" "t < length (pcs (mon_lock s))"
    using t len by (auto simp: mon_awake_def awake_def)
  have "lt_step L (Step t ws) (mon_lock s) = Some \<lparr>shm = w, waitq = q, pcs = (pcs (mon_lock s))[t := m]\<rparr>"
    unfolding lt_step_def using tn(4,3) ex kr by (rule step_exec)
  then have M: "lk_reachable n \<lparr>shm = w, waitq = q, pcs = (pcs (mon_lock s))[t := m]\<rparr>"
    by (rule mon_inv_lock_reachable [OF inv])
  have "mon_ok (pcs (mon_cond s) ! t) ?m" using inv tn by (simp add: mon_inv_def)
  then have was: "if acq then acquiring ?m else releasing ?m"
    using call start lock_total unlock_total by (cases acq) (auto simp: mon_ok_def)
  have free: "acq \<Longrightarrow> \<not> holder ?m" using was acquiring_points by simp
  have m: "m = ?home \<or> (if acq then acquiring m else releasing m \<and> (holder m \<longrightarrow> holder ?m))"
    using was acquiring_exec [OF _ ex] releasing_exec [OF _ ex] by (cases acq) auto
  show ?thesis
  proof (cases "m = ?home")
    case True
    from mon_inv_lock [OF inv n tn(1,2) call M _ free] mon_ok_return [OF call] True show ?thesis by simp
  next
    case False
    then have m': "if acq then acquiring m else releasing m \<and> (holder m \<longrightarrow> holder ?m)" using m by simp
    then have "mon_ok (pcs (mon_cond s) ! t) m" using call by (cases acq) (simp_all add: mon_ok_def)
    moreover have "holder m \<longrightarrow> \<not> acq \<and> holder ?m" using m' acquiring_points by (cases acq) auto
    ultimately have "mon_inv n \<lparr>mon_lock = \<lparr>shm = w, waitq = q, pcs = (pcs (mon_lock s))[t := m]\<rparr>,
        mon_cond = (mon_cond s)\<lparr>pcs := (pcs (mon_cond s))[t := pcs (mon_cond s) ! t]\<rparr>\<rparr>"
      by (intro mon_inv_lock [OF inv n tn(1,2) call M _ free]) simp_all
    with False show ?thesis by simp
  qed
qed

lemma mon_view_count: "g_seq (shm (mon_view holder s)) = g_seq (shm (mon_cond s))"
    "cv_seq (shm (mon_view holder s)) = cv_seq (shm (mon_cond s))"
  by (simp_all add: mon_view_def)

lemma mon_step_count: "mon_step L a s = Some s' \<Longrightarrow> g_seq (shm (mon_cond s)) \<le> g_seq (shm (mon_cond s'))"
  by (erule mon_stepE) (auto dest: cv_exec_count)

lemma mon_invariant:
  assumes "reachable (mon_step L) (mon_init L w0 n) s" and n: "n < bnd" "n < 2 ^ 31"
    and "g_seq (shm (mon_cond s)) < 2 ^ 32"
  shows "mon_inv n s"
  using assms(1,4)
proof (induction rule: reachable.induct)
  case start
  show ?case by (rule mon_inv_init)
next
  case (step s a s')
  have b: "g_seq (shm (mon_cond s)) < 2 ^ 32" using mon_step_count [OF step.hyps(2)] step.prems by simp
  with step.IH have inv: "mon_inv n s" .
  note len = mon_inv_lengths [OF inv]
  have lt: "t < n" "t \<notin> set (waitq (mon_cond s))" if "mon_awake s t" for t
    using that len by (auto simp: mon_awake_def awake_def)
  from step.hyps(2) show ?case
  proof (cases rule: mon_stepE)
    case (client t op l)
    with mon_inv_client [OF inv lt] show ?thesis by simp
  next
    case (enter t acq m)
    with mon_inv_enter [OF inv n(1)] show ?thesis by simp
  next
    case (inside t ws acq w m k q)
    with mon_inv_inside [OF inv n(1) inside(1-5)] show ?thesis by simp
  next
    case (own t ws m l k q)
    with mon_inv_own [OF inv lt] show ?thesis by simp
  next
    case (lock_spurious t)
    then have "lt_step L (Spurious t) (mon_lock s) =
        Some ((mon_lock s)\<lparr>waitq := filter (\<lambda>u. u \<noteq> t) (waitq (mon_lock s))\<rparr>)"
      by (simp add: lt_step_def sys_step_def)
    from mon_inv_lock_reachable [OF inv this] lock_spurious inv show ?thesis
      by (simp add: mon_inv_def mon_view_def)
  next
    case (cond_spurious t)
    let ?C = "(mon_cond s)\<lparr>waitq := filter (\<lambda>u. u \<noteq> t) (waitq (mon_cond s))\<rparr>"
    have "cv_step (Spurious t) (mon_view holder s) = Some (mon_view holder (s\<lparr>mon_cond := ?C\<rparr>))"
      using cond_spurious by (simp add: cv_step_def sys_step_def mon_view_def)
    moreover have "cv_reachable n (mon_view holder s)" using inv by (simp add: mon_inv_def)
    ultimately have "cv_reachable n (mon_view holder (s\<lparr>mon_cond := ?C\<rparr>))" by (blast intro: reachable.step)
    with inv cond_spurious show ?thesis by (simp add: mon_inv_def)
  qed
qed

text \<open>Mutual exclusion of the clients, over the many-step lock: two threads are never both on its inner side.\<close>

lemma mon_clients_exclude:
  assumes inv: "mon_inv n s" and n: "n < bnd" and t: "i < n" "j < n" "i \<noteq> j"
    and l: "cv_lock_call (pcs (mon_cond s) ! i) = None" "cv_lock_call (pcs (mon_cond s) ! j) = None"
  shows "\<not> (cv_holds (pcs (mon_cond s) ! i) \<and> cv_holds (pcs (mon_cond s) ! j))"
proof
  assume h: "cv_holds (pcs (mon_cond s) ! i) \<and> cv_holds (pcs (mon_cond s) ! j)"
  have "holder (pcs (mon_lock s) ! u)" if "u < n" "cv_lock_call (pcs (mon_cond s) ! u) = None" "cv_holds (pcs (mon_cond s) ! u)" for u
    using mon_ok_holder [OF _ that(2)] inv that by (simp add: mon_inv_def)
  with h t l mon_inv_lengths [OF inv] have "holds_at holder (mon_lock s) i" "holds_at holder (mon_lock s) j"
    by (simp_all add: holds_at_def)
  with lk.exclusive [OF _ n] inv t show False unfolding mon_inv_def by blast
qed

end

section \<open>The locks of the repository\<close>

lemma mutex_type_simps [simp]:
  "lt_exec mutex_type = mutex_exec" "lt_start mutex_type = mutex_start" "lt_lock mutex_type = OpLock"
  "lt_unlock mutex_type = OpUnlock" "lt_idle mutex_type = MIdle" "lt_held mutex_type = MHeld" "lt_mutex mutex_type"
  by (simp_all add: mutex_type_def)

lemma spin_type_simps [simp]:
  "lt_exec spin_type = spin_exec" "lt_start spin_type = spin_start" "lt_lock spin_type = SpOpLock"
  "lt_unlock spin_type = SpOpUnlock" "lt_idle spin_type = SpIdle" "lt_held spin_type = SpHeld" "\<not> lt_mutex spin_type"
  by (simp_all add: spin_type_def)

lemma shared_type_simps [simp]:
  "lt_exec shared_type = shared_exec" "lt_start shared_type = shared_start" "lt_lock shared_type = ShLock"
  "lt_unlock shared_type = ShUnlock" "lt_idle shared_type = ShIdle" "lt_held shared_type = WHeld" "\<not> lt_mutex shared_type"
  by (simp_all add: shared_type_def)

lemma lt_steps: "lt_step mutex_type = mutex_step" "lt_step spin_type = spin_step" "lt_step shared_type = shared_step"
  by (simp_all add: lt_step_def mutex_step_def spin_step_def shared_step_def)

lemma lt_inits: "sys_init UNLOCKED MIdle = mutex_init" "sys_init 0 SpIdle = spin_init" "sys_init SH_UNLOCKED ShIdle = shared_init"
  by (simp_all add: fun_eq_iff mutex_init_def spin_init_def shared_init_def)

fun shared_acquiring :: "shared_pc \<Rightarrow> bool" where
  "shared_acquiring WLockFast = True"
| "shared_acquiring WRegister = True"
| "shared_acquiring (WLoad _ _) = True"
| "shared_acquiring (WCas _ _ _) = True"
| "shared_acquiring (WWait _) = True"
| "shared_acquiring WAsleep = True"
| "shared_acquiring _ = False"

fun shared_releasing :: "shared_pc \<Rightarrow> bool" where
  "shared_releasing WUnlAnd = True"
| "shared_releasing WUnlWake = True"
| "shared_releasing _ = False"

interpretation mm: monitor_lock mutex_type UNLOCKED "2 ^ 31" mutex_asleep mutex_holder mutex_acquiring mutex_releasing
proof (intro monitor_lock.intro)
  show "futex_client (lt_exec mutex_type) (lt_start mutex_type) mutex_asleep (lt_idle mutex_type)"
    by (simp add: mx.futex_client_axioms)
  show "exclusive_lock (lt_step mutex_type) (sys_init UNLOCKED (lt_idle mutex_type)) (2 ^ 31) (holds_at mutex_holder)"
    unfolding mutex_type_simps lt_steps lt_inits by (rule mxl.exclusive_lock_axioms)
  show "monitor_lock_axioms mutex_type mutex_holder mutex_acquiring mutex_releasing"
  proof (unfold_locales, unfold mutex_type_simps)
    fix m w w' m' k
    show "mutex_acquiring m \<Longrightarrow> \<not> mutex_holder m" by (cases m) auto
    show "mutex_acquiring m \<Longrightarrow> mutex_exec w m = Some (w', m', k) \<Longrightarrow> mutex_acquiring m' \<or> m' = MHeld"
      by (cases m) (auto simp: Let_def split: if_splits)
    show "mutex_releasing m \<Longrightarrow> mutex_exec w m = Some (w', m', k) \<Longrightarrow>
        (mutex_releasing m' \<or> m' = MIdle) \<and> (mutex_holder m' \<longrightarrow> mutex_holder m)"
      by (cases m) (auto simp: Let_def split: if_splits)
  qed (auto elim!: mutex_start_cases)
qed

interpretation ms: monitor_lock spin_type 0 "2 ^ 32" "\<lambda>_. False" spin_holder spin_contender "\<lambda>l. l = SpUnlock"
proof (intro monitor_lock.intro)
  show "futex_client (lt_exec spin_type) (lt_start spin_type) (\<lambda>_. False) (lt_idle spin_type)"
    by (simp add: sp.futex_client_axioms)
  show "exclusive_lock (lt_step spin_type) (sys_init 0 (lt_idle spin_type)) (2 ^ 32) (holds_at spin_holder)"
    unfolding spin_type_simps lt_steps lt_inits by (rule spl.exclusive_lock_axioms)
  show "monitor_lock_axioms spin_type spin_holder spin_contender (\<lambda>l. l = SpUnlock)"
  proof (unfold_locales, unfold spin_type_simps)
    fix m w w' m' k
    show "spin_contender m \<Longrightarrow> \<not> spin_holder m" by (cases m) auto
    show "spin_contender m \<Longrightarrow> spin_exec w m = Some (w', m', k) \<Longrightarrow> spin_contender m' \<or> m' = SpHeld"
      by (cases m) (auto split: if_splits)
  qed (auto elim!: spin_start_cases)
qed

interpretation mr: monitor_lock shared_type SH_UNLOCKED "2 ^ 15" shared_asleep writer_holds shared_acquiring shared_releasing
proof (intro monitor_lock.intro)
  show "futex_client (lt_exec shared_type) (lt_start shared_type) shared_asleep (lt_idle shared_type)"
    by (simp add: sh.futex_client_axioms)
  show "exclusive_lock (lt_step shared_type) (sys_init SH_UNLOCKED (lt_idle shared_type)) (2 ^ 15) (holds_at writer_holds)"
    unfolding shared_type_simps lt_steps lt_inits by (rule shl.writer.exclusive_lock_axioms)
  show "monitor_lock_axioms shared_type writer_holds shared_acquiring shared_releasing"
  proof (unfold_locales, unfold shared_type_simps)
    fix m w w' m' k
    show "shared_acquiring m \<Longrightarrow> \<not> writer_holds m" by (cases m) auto
    show "shared_acquiring m \<Longrightarrow> shared_exec w m = Some (w', m', k) \<Longrightarrow> shared_acquiring m' \<or> m' = WHeld"
      by (cases m) (auto simp: Let_def split: if_splits)
    show "shared_releasing m \<Longrightarrow> shared_exec w m = Some (w', m', k) \<Longrightarrow>
        (shared_releasing m' \<or> m' = ShIdle) \<and> (writer_holds m' \<longrightarrow> writer_holds m)"
      by (cases m) (auto simp: Let_def split: if_splits)
  qed (auto split: if_splits)
qed

section \<open>A notified wait returns\<close>

text \<open>
  For the locks whose word says only who holds them: when nobody does, a thread inside \<open>lock()\<close> that is
  not asleep gets it by its own steps.
\<close>

locale monitor_live = monitor_lock L w0 bnd asleep holder acquiring releasing
  for L :: "('op, 'w, 'l) lock_type" and w0 :: 'w and bnd :: nat
    and asleep :: "'l \<Rightarrow> bool" and holder :: "'l \<Rightarrow> bool"
    and acquiring :: "'l \<Rightarrow> bool" and releasing :: "'l \<Rightarrow> bool" +
  assumes idle_not_acquiring: "\<not> acquiring (lt_idle L)"
    and idle_stops: "lt_exec L w (lt_idle L) = None"
    and held_stops: "lt_exec L w (lt_held L) = None"
    and acquires: "lk_reachable n M \<Longrightarrow> n < bnd \<Longrightarrow> cnt holder (pcs M) = 0 \<Longrightarrow> t < n \<Longrightarrow>
      acquiring (pcs M ! t) \<Longrightarrow>
      \<exists>k w'. plain_run (lt_exec L) k (shm M) (pcs M ! t) = Some (w', lt_held L)"
begin

text \<open>A thread on its own, first inside \<open>lock()\<close>, then at the points of its wait.\<close>

lemma mon_call_run:
  "plain_run (lt_exec L) k (shm (mon_lock s)) (pcs (mon_lock s) ! t) = Some (w', lt_held L) \<Longrightarrow>
    acquiring (pcs (mon_lock s) ! t) \<Longrightarrow> cv_lock_call (pcs (mon_cond s) ! t) = Some True \<Longrightarrow> mon_awake s t \<Longrightarrow>
    \<exists>j. run (mon_step L) (replicate j (Step t [])) s =
      Some \<lparr>mon_lock = \<lparr>shm = w', waitq = waitq (mon_lock s), pcs = (pcs (mon_lock s))[t := lt_held L]\<rparr>,
        mon_cond = (mon_cond s)\<lparr>pcs := (pcs (mon_cond s))[t := cv_lock_return (pcs (mon_cond s) ! t)]\<rparr>\<rparr>"
proof (induction k arbitrary: s)
  case 0
  then show ?case using acquiring_points held_points by auto
next
  case (Suc k)
  let ?m = "pcs (mon_lock s) ! t"
  from Suc.prems(1) obtain w1 m1 where ex: "lt_exec L (shm (mon_lock s)) ?m = Some (w1, m1, KNone)"
    and rest: "plain_run (lt_exec L) k w1 m1 = Some (w', lt_held L)"
    by (auto split: option.splits if_splits)
  have t: "t < length (pcs (mon_lock s))" "t \<notin> set (waitq (mon_lock s))"
    using Suc.prems(4) by (simp_all add: mon_awake_def awake_def)
  have "lt_step L (Step t []) (mon_lock s) = Some \<lparr>shm = w1, waitq = waitq (mon_lock s), pcs = (pcs (mon_lock s))[t := m1]\<rparr>"
    using t ex by (simp add: lt_step_def sys_step_def awake_def)
  moreover have "lt_start L (lt_lock L) ?m = None"
    using lock_starts [of ?m] Suc.prems(2) idle_not_acquiring by (cases "lt_start L (lt_lock L) ?m") auto
  ultimately have stp: "mon_step L (Step t []) s = Some \<lparr>mon_lock = \<lparr>shm = w1, waitq = waitq (mon_lock s), pcs = (pcs (mon_lock s))[t := m1]\<rparr>,
      mon_cond = (if m1 = lt_held L
        then (mon_cond s)\<lparr>pcs := (pcs (mon_cond s))[t := cv_lock_return (pcs (mon_cond s) ! t)]\<rparr> else mon_cond s)\<rparr>"
    using Suc.prems(3,4) t by (simp add: mon_step_def mon_thread_step_def mon_call_step_def)
  show ?case
  proof (cases "m1 = lt_held L")
    case True
    with rest held_stops have "w1 = w'" by (cases k) simp_all
    with True stp have "run (mon_step L) (replicate 1 (Step t [])) s =
      Some \<lparr>mon_lock = \<lparr>shm = w', waitq = waitq (mon_lock s), pcs = (pcs (mon_lock s))[t := lt_held L]\<rparr>,
        mon_cond = (mon_cond s)\<lparr>pcs := (pcs (mon_cond s))[t := cv_lock_return (pcs (mon_cond s) ! t)]\<rparr>\<rparr>" by simp
    then show ?thesis by blast
  next
    case False
    let ?s = "\<lparr>mon_lock = \<lparr>shm = w1, waitq = waitq (mon_lock s), pcs = (pcs (mon_lock s))[t := m1]\<rparr>, mon_cond = mon_cond s\<rparr>"
    have "acquiring m1" using acquiring_exec [OF Suc.prems(2) ex] False by simp
    moreover have "mon_awake ?s t" using Suc.prems(4) by (simp add: mon_awake_def awake_def)
    ultimately obtain j where "run (mon_step L) (replicate j (Step t [])) ?s =
      Some \<lparr>mon_lock = \<lparr>shm = w', waitq = waitq (mon_lock s), pcs = (pcs (mon_lock s))[t := lt_held L]\<rparr>,
        mon_cond = (mon_cond s)\<lparr>pcs := (pcs (mon_cond s))[t := cv_lock_return (pcs (mon_cond s) ! t)]\<rparr>\<rparr>"
      using Suc.IH [of ?s] rest t Suc.prems(3) by auto
    with stp False have "run (mon_step L) (replicate (Suc j) (Step t [])) s =
      Some \<lparr>mon_lock = \<lparr>shm = w', waitq = waitq (mon_lock s), pcs = (pcs (mon_lock s))[t := lt_held L]\<rparr>,
        mon_cond = (mon_cond s)\<lparr>pcs := (pcs (mon_cond s))[t := cv_lock_return (pcs (mon_cond s) ! t)]\<rparr>\<rparr>" by simp
    then show ?thesis by blast
  qed
qed

lemma mon_own_run:
  assumes t: "mon_awake s t" and l: "cv_lock_call (pcs (mon_cond s) ! t) = None"
    and ex: "cv_exec (shm (mon_cond s)) (pcs (mon_cond s) ! t) = Some (m, l', KNone)"
  shows "mon_step L (Step t []) s = Some (s\<lparr>mon_cond := (mon_cond s)\<lparr>shm := m, pcs := (pcs (mon_cond s))[t := l']\<rparr>\<rparr>)"
proof -
  have "mon_thread_step L t [] s = mon_cond_step (Step t []) s"
    using l by (simp add: mon_thread_step_def)
  with t cv_step_plain [OF _ _ ex] show ?thesis
    by (simp add: mon_step_def mon_cond_step_def mon_awake_def awake_def)
qed

lemma mon_test_returns:
  assumes t: "mon_awake s t" and l: "pcs (mon_cond s) ! t = cv_relocked c x" and c: "cv_pred c"
    and data: "cv_data (shm (mon_cond s))"
  shows "\<exists>k s'. run (mon_step L) (replicate k (Step t [])) s = Some s' \<and> pcs (mon_cond s') ! t = CvHeld (CvBool True) \<and>
    mon_lock s' = mon_lock s"
proof -
  have tl: "t < length (pcs (mon_cond s))" using t by (simp add: mon_awake_def awake_def)
  have test: "\<exists>s'. mon_step L (Step t []) u = Some s' \<and> pcs (mon_cond s') ! t = CvHeld (CvBool True) \<and> mon_lock s' = mon_lock s"
    if "mon_awake u t" "pcs (mon_cond u) ! t = CvTest c" "cv_data (shm (mon_cond u))" "mon_lock u = mon_lock s" for u
    using that mon_own_run [of u t "shm (mon_cond u)" "CvHeld (CvBool True)"] by (auto simp: mon_awake_def awake_def)
  show ?thesis
  proof (cases "c = CallWaitPred")
    case True
    with test [of s] t l data obtain s' where "run (mon_step L) (replicate 1 (Step t [])) s = Some s' \<and>
        pcs (mon_cond s') ! t = CvHeld (CvBool True) \<and> mon_lock s' = mon_lock s" by (auto simp: cv_relocked_def)
    then show ?thesis by blast
  next
    case False
    let ?u = "s\<lparr>mon_cond := (mon_cond s)\<lparr>shm := shm (mon_cond s), pcs := (pcs (mon_cond s))[t := CvTest c]\<rparr>\<rparr>"
    have "pcs (mon_cond s) ! t = CvCheck c x" "cv_checked c x w = CvTest c" for w
      using False c l by (cases c; simp add: cv_relocked_def cv_pred_def cv_checked_def)+
    then have stp: "mon_step L (Step t []) s = Some ?u" using t by (intro mon_own_run) simp_all
    have "mon_awake ?u t" using t by (simp add: mon_awake_def awake_def)
    with test [of ?u] tl data obtain s' where "mon_step L (Step t []) ?u = Some s'"
      "pcs (mon_cond s') ! t = CvHeld (CvBool True)" "mon_lock s' = mon_lock s" by auto
    with stp have "run (mon_step L) (replicate 2 (Step t [])) s = Some s' \<and>
        pcs (mon_cond s') ! t = CvHeld (CvBool True) \<and> mon_lock s' = mon_lock s" by (simp add: numeral_2_eq_2)
    then show ?thesis by blast
  qed
qed

lemma mon_lock_returns:
  assumes inv: "mon_inv n s" and n: "n < bnd" and t: "mon_awake s t" and l: "pcs (mon_cond s) ! t = CvRelock c x"
    and c: "cv_pred c" and data: "cv_data (shm (mon_cond s))"
    and free: "cnt holder (pcs (mon_lock s)) = 0" and acq: "acquiring (pcs (mon_lock s) ! t)"
  shows "\<exists>k s'. run (mon_step L) (replicate k (Step t [])) s = Some s' \<and> pcs (mon_cond s') ! t = CvHeld (CvBool True) \<and>
    pcs (mon_lock s') ! t = lt_held L"
proof -
  have tn: "t < n" "t < length (pcs (mon_lock s))" "t < length (pcs (mon_cond s))"
    using t mon_inv_lengths [OF inv] by (auto simp: mon_awake_def awake_def)
  obtain i w' where "plain_run (lt_exec L) i (shm (mon_lock s)) (pcs (mon_lock s) ! t) = Some (w', lt_held L)"
    using acquires [OF _ n free tn(1) acq] inv by (auto simp: mon_inv_def)
  from mon_call_run [OF this acq _ t] l obtain j where r: "run (mon_step L) (replicate j (Step t [])) s =
      Some \<lparr>mon_lock = \<lparr>shm = w', waitq = waitq (mon_lock s), pcs = (pcs (mon_lock s))[t := lt_held L]\<rparr>,
        mon_cond = (mon_cond s)\<lparr>pcs := (pcs (mon_cond s))[t := cv_relocked c x]\<rparr>\<rparr>" (is "_ = Some ?u") by auto
  have "mon_awake ?u t" using t by (simp add: mon_awake_def awake_def)
  with mon_test_returns [of ?u t c x] c data tn obtain k s' where "run (mon_step L) (replicate k (Step t [])) ?u = Some s'"
    "pcs (mon_cond s') ! t = CvHeld (CvBool True)" "mon_lock s' = mon_lock ?u" by auto
  with run_trans [OF r, of "replicate k (Step t [])" s'] tn
  have "run (mon_step L) (replicate (j + k) (Step t [])) s = Some s' \<and> pcs (mon_cond s') ! t = CvHeld (CvBool True) \<and>
    pcs (mon_lock s') ! t = lt_held L" by (simp add: replicate_add)
  then show ?thesis by blast
qed

lemma mon_relock_returns:
  assumes inv: "mon_inv n s" and n: "n < bnd" and t: "mon_awake s t" and l: "pcs (mon_cond s) ! t = CvRelock c x"
    and c: "cv_pred c" and data: "cv_data (shm (mon_cond s))" and free: "cnt holder (pcs (mon_lock s)) = 0"
  shows "\<exists>k s'. run (mon_step L) (replicate k (Step t [])) s = Some s' \<and> pcs (mon_cond s') ! t = CvHeld (CvBool True) \<and>
    pcs (mon_lock s') ! t = lt_held L"
proof (cases "acquiring (pcs (mon_lock s) ! t)")
  case True
  with mon_lock_returns [OF assms] show ?thesis .
next
  case False
  have tn: "t < n" "t < length (pcs (mon_lock s))"
    using t mon_inv_lengths [OF inv] by (auto simp: mon_awake_def awake_def)
  have "mon_ok (CvRelock c x) (pcs (mon_lock s) ! t)" using inv tn l by (force simp: mon_inv_def)
  with False have idle: "pcs (mon_lock s) ! t = lt_idle L" by (simp add: mon_ok_def)
  obtain m where m: "lt_start L (lt_lock L) (lt_idle L) = Some m" using lock_total by blast
  let ?u = "s\<lparr>mon_lock := (mon_lock s)\<lparr>pcs := (pcs (mon_lock s))[t := m]\<rparr>\<rparr>"
  have acq: "acquiring m" using lock_starts [OF m] by simp
  have stp: "mon_step L (Step t []) s = Some ?u"
    using t l idle m by (simp add: mon_step_def mon_thread_step_def mon_call_step_def lt_step_def sys_step_def mon_awake_def)
  have inv': "mon_inv n ?u" using mon_inv_enter [OF inv n t, of True m] l idle m by simp
  have "cnt holder (pcs (mon_lock ?u)) = 0"
    using free acquiring_points [OF acq] cnt_update [OF tn(2), of holder m] by simp
  moreover have "mon_awake ?u t" using t by (simp add: mon_awake_def awake_def)
  ultimately obtain k s' where "run (mon_step L) (replicate k (Step t [])) ?u = Some s'" "pcs (mon_cond s') ! t = CvHeld (CvBool True)"
    "pcs (mon_lock s') ! t = lt_held L"
    using mon_lock_returns [OF inv' n, of t c x] c l data acq tn by auto
  with stp have "run (mon_step L) (replicate (Suc k) (Step t [])) s = Some s' \<and> pcs (mon_cond s') ! t = CvHeld (CvBool True) \<and>
    pcs (mon_lock s') ! t = lt_held L" by simp
  then show ?thesis by blast
qed

end

context monitor_live
begin

lemma mon_wait_returns:
  assumes inv: "mon_inv n s" and n: "n < bnd" "n < 2 ^ 31" and b: "g_seq (shm (mon_cond s)) < 2 ^ 32"
    and t: "t < n" "t \<notin> set (waitq (mon_lock s))" and waits: "cv_pred_waiting (pcs (mon_cond s) ! t)"
    and data: "cv_data (shm (mon_cond s))" and after: "g_set (shm (mon_cond s)) < g_bcast (shm (mon_cond s))"
    and free: "cnt holder (pcs (mon_lock s)) = 0"
  shows "\<exists>k s'. run (mon_step L) (replicate k (Step t [])) s = Some s' \<and> pcs (mon_cond s') ! t = CvHeld (CvBool True) \<and>
    pcs (mon_lock s') ! t = lt_held L"
proof -
  note len = mon_inv_lengths [OF inv]
  let ?l = "pcs (mon_cond s) ! t" and ?v = "mon_view holder s"
  have pc: "pcs ?v ! t = ?l" using mon_view_pc_nth [OF inv t(1)] waits
    by (cases ?l) (simp_all add: vpc_other cv_pred_waiting_def)
  have "cv_reachable n ?v" using inv by (simp add: mon_inv_def)
  note on = cv_pred_waiter_goes_on [OF this n(2) _ t(1)]
  have on': "t \<notin> set (waitq (mon_cond s))" "\<And>c x. ?l = CvWait c x \<Longrightarrow> cv_seq (shm (mon_cond s)) \<noteq> x"
    using on pc b waits data after by (simp_all add: mon_view_def)
  have aw: "mon_awake s t" using t on'(1) len by (simp add: mon_awake_def awake_def)
  have own: ?thesis if l: "cv_lock_call ?l = None" "cv_pred c"
      and ex: "cv_exec (shm (mon_cond s)) ?l = Some (shm (mon_cond s), CvRelock c x, KNone)" for c x
  proof -
    let ?u = "s\<lparr>mon_cond := (mon_cond s)\<lparr>shm := shm (mon_cond s), pcs := (pcs (mon_cond s))[t := CvRelock c x]\<rparr>\<rparr>"
    note call = l(1)
    have stp: "mon_step L (Step t []) s = Some ?u" using mon_own_run [OF aw call ex] .
    have "mon_inv n ?u" using mon_inv_own [OF inv t(1) on'(1) call ex, of "[]"] by (simp add: fsys_pcs_upd)
    moreover have "mon_awake ?u t" using aw by (simp add: mon_awake_def awake_def)
    ultimately have "\<exists>k s'. run (mon_step L) (replicate k (Step t [])) ?u = Some s' \<and> pcs (mon_cond s') ! t = CvHeld (CvBool True) \<and>
        pcs (mon_lock s') ! t = lt_held L"
      by (rule mon_relock_returns [OF _ n(1) _ _ l(2)]) (use data free t len in simp_all)
    then obtain k s' where "run (mon_step L) (replicate k (Step t [])) ?u = Some s'" "pcs (mon_cond s') ! t = CvHeld (CvBool True)"
      "pcs (mon_lock s') ! t = lt_held L" by blast
    with stp have "run (mon_step L) (replicate (Suc k) (Step t [])) s = Some s' \<and> pcs (mon_cond s') ! t = CvHeld (CvBool True) \<and>
      pcs (mon_lock s') ! t = lt_held L" by simp
    then show ?thesis by blast
  qed
  show ?thesis
  proof (cases ?l)
    case (CvWait c x)
    with waits on'(2) show ?thesis by (intro own [of c x]) (auto simp: cv_pred_waiting_def)
  next
    case (CvAsleep c x)
    with waits show ?thesis by (intro own [of c x]) (auto simp: cv_pred_waiting_def)
  next
    case (CvRelock c x)
    with waits mon_relock_returns [OF inv n(1) aw CvRelock _ data free] show ?thesis
      by (simp add: cv_pred_waiting_def)
  qed (use waits in \<open>auto simp: cv_pred_waiting_def\<close>)
qed

end

context monitor_live
begin

text \<open>
  Whatever the threads inside the lock can do on its own they can do in the composed program: each of
  them is inside a call, so a schedule of the lock is one of the composition.
\<close>

lemma mon_lift_step:
  assumes inv: "mon_inv n s" and n: "n < bnd" and stp: "lt_step L (Step t ws) (mon_lock s) = Some M"
  shows "\<exists>s'. mon_step L (Step t ws) s = Some s' \<and> mon_lock s' = M \<and> mon_inv n s'"
  using stp [unfolded lt_step_def]
proof (cases rule: sys_stepE)
  case (exec u us w m k q)
  let ?m = "pcs (mon_lock s) ! t"
  have t: "t < n" "t \<notin> set (waitq (mon_lock s))" using exec mon_inv_lengths [OF inv] by simp_all
  have m: "?m \<noteq> lt_idle L" "?m \<noteq> lt_held L" using exec idle_stops held_stops by auto
  have ok: "mon_ok (pcs (mon_cond s) ! t) ?m" using inv t by (simp add: mon_inv_def)
  with m obtain acq where call: "cv_lock_call (pcs (mon_cond s) ! t) = Some acq"
    by (cases "cv_lock_call (pcs (mon_cond s) ! t)") (auto simp: mon_ok_def split: if_splits)
  have start: "lt_start L (if acq then lt_lock L else lt_unlock L) ?m = None"
    using m lock_starts [of ?m] unlock_starts [of ?m]
    by (cases "lt_start L (if acq then lt_lock L else lt_unlock L) ?m") (auto split: if_splits)
  have "cv.queue_wf (mon_view holder s)"
    using inv cv.reachable_queue_wf unfolding mon_inv_def cv_step_def cv_init_def by blast
  moreover have "\<not> cv_asleep (pcs (mon_view holder s) ! t)"
    unfolding mon_view_pc_nth [OF inv t(1)] mon_view_pc_def using call by (cases "pcs (mon_cond s) ! t") auto
  ultimately have "t \<notin> set (waitq (mon_cond s))" by (auto simp: cv.queue_wf_def mon_view_def)
  then have aw: "mon_awake s t" using t mon_inv_lengths [OF inv] by (simp add: mon_awake_def awake_def)
  let ?C = "if m = (if acq then lt_held L else lt_idle L)
      then (mon_cond s)\<lparr>pcs := (pcs (mon_cond s))[t := cv_lock_return (pcs (mon_cond s) ! t)]\<rparr> else mon_cond s"
  have M: "M = \<lparr>shm = w, waitq = q, pcs = (pcs (mon_lock s))[t := m]\<rparr>" using exec by simp
  have "mon_step L (Step t ws) s = Some \<lparr>mon_lock = M, mon_cond = ?C\<rparr>"
    using aw call start stp M exec(2) by (simp add: mon_step_def mon_thread_step_def mon_call_step_def) (use exec(1,2) in auto)
  moreover have "mon_inv n \<lparr>mon_lock = M, mon_cond = ?C\<rparr>"
    unfolding M by (rule mon_inv_inside [OF inv n aw call start]) (use exec in auto)
  ultimately show ?thesis by (metis monitor.select_convs(1))
qed simp_all

lemma mon_lift_run:
  "mon_inv n s \<Longrightarrow> n < bnd \<Longrightarrow> run (lt_step L) (steps sched) (mon_lock s) = Some M \<Longrightarrow>
    \<exists>s'. run (mon_step L) (steps sched) s = Some s' \<and> mon_lock s' = M"
proof (induction sched arbitrary: s)
  case Nil
  then show ?case by simp
next
  case (Cons x sched)
  obtain t ws where x: "x = (t, ws)" by (cases x)
  with Cons.prems(3) obtain M1 where M1: "lt_step L (Step t ws) (mon_lock s) = Some M1"
    and rest: "run (lt_step L) (steps sched) M1 = Some M"
    by (auto split: option.splits)
  from mon_lift_step [OF Cons.prems(1,2) M1] obtain s1 where
    "mon_step L (Step t ws) s = Some s1" "mon_lock s1 = M1" "mon_inv n s1" by blast
  with Cons.IH [of s1] Cons.prems(2) rest x show ?case by simp
qed

end

interpretation mml: monitor_live mutex_type UNLOCKED "2 ^ 31" mutex_asleep mutex_holder mutex_acquiring mutex_releasing
proof
  fix n M t
  assume r: "reachable (lt_step mutex_type) (sys_init UNLOCKED (lt_idle mutex_type) n) M" and n: "n < 2 ^ 31"
    and free: "cnt mutex_holder (pcs M) = 0" and t: "t < n" "mutex_acquiring (pcs M ! t)"
  have reach: "mutex_reachable n M" using r by (simp add: lt_steps lt_inits)
  have "mutex_inv (shm M) (waitq M) (pcs M)" using mutex_invariant [OF reach n] .
  then have "even (unat (shm M))" "mutex_local (pcs M ! t)"
    using free t mutex_reachable_facts(1) [OF reach] by (simp_all add: mutex_inv_def mutex_word_def)
  from mutex_runs_lock [OF this(1) t(2) this(2)]
  show "\<exists>k w'. plain_run (lt_exec mutex_type) k (shm M) (pcs M ! t) = Some (w', lt_held mutex_type)" by simp
qed simp_all

interpretation msl: monitor_live spin_type 0 "2 ^ 32" "\<lambda>_. False" spin_holder spin_contender "\<lambda>l. l = SpUnlock"
proof
  fix n M t
  assume r: "reachable (lt_step spin_type) (sys_init 0 (lt_idle spin_type) n) M"
    and free: "cnt spin_holder (pcs M) = 0" and t: "t < n" "spin_contender (pcs M ! t)"
  have reach: "spin_reachable n M" using r by (simp add: lt_steps lt_inits)
  have w: "shm M = 0" using spin_invariant [OF reach] free by (simp add: spin_inv_def unat_eq_zero)
  have "plain_run spin_exec (case l of SpSpin _ \<Rightarrow> 2 | _ \<Rightarrow> 1) 0 l = Some (1, SpHeld)" if "spin_contender l" for l
    using that by (cases l) (simp_all add: numeral_2_eq_2)
  with w t show "\<exists>k w'. plain_run (lt_exec spin_type) k (shm M) (pcs M ! t) = Some (w', lt_held spin_type)" by auto
qed simp_all

section \<open>Properties\<close>

abbreviation mutex_monitor :: "nat \<Rightarrow> (u32, mutex_pc) monitor \<Rightarrow> bool" where
  "mutex_monitor n \<equiv> reachable (mon_step mutex_type) (mon_init mutex_type UNLOCKED n)"

abbreviation spin_monitor :: "nat \<Rightarrow> (u32, spin_pc) monitor \<Rightarrow> bool" where
  "spin_monitor n \<equiv> reachable (mon_step spin_type) (mon_init spin_type 0 n)"

abbreviation shared_monitor :: "nat \<Rightarrow> (u32, shared_pc) monitor \<Rightarrow> bool" where
  "shared_monitor n \<equiv> reachable (mon_step shared_type) (mon_init shared_type SH_UNLOCKED n)"

text \<open>
  Thread 1 locks, finds the data false, lets go of the lock and falls asleep; thread 0 sets the data
  under the lock and broadcasts.
\<close>

definition mon_demo_release :: "cv_op act list" where
  "mon_demo_release = [Invoke 1 CvLockOp, Step 1 [], Step 1 [], Invoke 1 (CvCall CallWaitPred), Step 1 [], Step 1 [], Step 1 []]"

definition mon_demo_sleep :: "cv_op act list" where
  "mon_demo_sleep = mon_demo_release @ [Step 1 [], Step 1 [], Step 1 []]"


definition mon_asleep :: "(u32, mutex_pc) monitor" where
  "mon_asleep = \<lparr>mon_lock = \<lparr>shm = 0, waitq = [], pcs = [MIdle, MIdle]\<rparr>,
     mon_cond = \<lparr>shm = cv_mem0, waitq = [1], pcs = [CvOut CvNothing, CvAsleep CallWaitPred 0]\<rparr>\<rparr>"



lemma mon_asleep_reachable: "mutex_monitor 2 mon_asleep"
  by (rule run_reachable [of _ mon_demo_sleep]) code_simp


text \<open>Thread 1 is asleep in \<open>lock()\<close>, and thread 0 in \<open>unlock()\<close> is about to wake somebody.\<close>

definition mon_handing_over :: "(u32, mutex_pc) monitor" where
  "mon_handing_over = \<lparr>mon_lock = \<lparr>shm = 2, waitq = [1], pcs = [UnlWake, LcAsleep]\<rparr>,
     mon_cond = \<lparr>shm = cv_mem0, waitq = [], pcs = [CvUnlocking, CvLocking]\<rparr>\<rparr>"

lemma mon_handing_over_reachable: "mutex_monitor 2 mon_handing_over"
  by (rule run_reachable [of _ "[Invoke 0 CvLockOp, Step 0 [], Step 0 [], Invoke 1 CvLockOp, Step 1 [], Step 1 []] @
      replicate 76 (Step 1 []) @ [Invoke 0 CvUnlockOp, Step 0 [], Step 0 [], Step 0 []]"]) code_simp

text \<open>
  C13. Refinement of the composition, for \<open>Mutex\<close>: with fewer than \<open>2 ^ 32\<close> notifications, the lock inside
  the composed program is in a state that \<open>psync_mutex.h\<close> reaches on its own, and the whole, with
  every call of the lock seen as the one step in which it changes hands, is in a state of the condition
  variable over the one-step lock.
\<close>
theorem monitor_refines_parts:
  assumes "mutex_monitor n s" and "n < 2 ^ 31" and "g_seq (shm (mon_cond s)) < 2 ^ 32"
  shows "mutex_reachable n (mon_lock s) \<and> cv_reachable n (mon_view mutex_holder s)"
  using mm.mon_invariant [OF assms(1,2,2,3)] by (simp add: mm.mon_inv_def lt_steps lt_inits)

theorem monitor_refines_parts_witness:
  "mutex_reachable 2 \<lparr>shm = 0, waitq = [], pcs = [MIdle, MIdle]\<rparr> \<and> cv_reachable 2 (mon_view mutex_holder mon_asleep)"
  using monitor_refines_parts [OF mon_asleep_reachable] by (simp add: mon_asleep_def cv_mem0_def)

text \<open>The same over a spin lock, and over the writer side of the shared mutex (up to 32767 threads).\<close>

theorem spin_monitor_refines_parts:
  assumes "spin_monitor n s" and "n < 2 ^ 31" and "g_seq (shm (mon_cond s)) < 2 ^ 32"
  shows "spin_reachable n (mon_lock s) \<and> cv_reachable n (mon_view spin_holder s)"
proof -
  have "n < 2 ^ 32" using assms(2) by simp
  from ms.mon_invariant [OF assms(1) this assms(2,3)] show ?thesis by (simp add: ms.mon_inv_def lt_steps lt_inits)
qed

theorem shared_monitor_refines_parts:
  assumes "shared_monitor n s" and "n < 2 ^ 15" and "g_seq (shm (mon_cond s)) < 2 ^ 32"
  shows "shared_reachable n (mon_lock s) \<and> cv_reachable n (mon_view writer_holds s)"
proof -
  have "n < 2 ^ 31" using assms(2) by simp
  from mr.mon_invariant [OF assms(1,2) this assms(3)] show ?thesis by (simp add: mr.mon_inv_def lt_steps lt_inits)
qed

text \<open>The points at which a client reads or writes the data its predicate is about.\<close>

fun cv_touches_data :: "cv_pc \<Rightarrow> bool" where
  "cv_touches_data (CvStore b) = True"
| "cv_touches_data (CvTest c) = True"
| "cv_touches_data CvLast = True"
| "cv_touches_data _ = False"

lemma cv_touches_holds: "cv_touches_data l \<Longrightarrow> cv_lock_call l = None \<and> cv_holds l"
  by (cases l) auto

text \<open>
  The data is never touched by two threads at once: with the mutex taken and left in many steps, and
  given up and taken back inside every wait, no two threads are about to test or write it.
\<close>
theorem monitor_data_exclusive:
  assumes "mutex_monitor n s" and "n < 2 ^ 31" and "g_seq (shm (mon_cond s)) < 2 ^ 32"
    and "i < n" and "j < n" and "i \<noteq> j"
  shows "\<not> (cv_touches_data (pcs (mon_cond s) ! i) \<and> cv_touches_data (pcs (mon_cond s) ! j))"
proof
  assume "cv_touches_data (pcs (mon_cond s) ! i) \<and> cv_touches_data (pcs (mon_cond s) ! j)"
  then have "cv_lock_call (pcs (mon_cond s) ! i) = None \<and> cv_holds (pcs (mon_cond s) ! i)"
    "cv_lock_call (pcs (mon_cond s) ! j) = None \<and> cv_holds (pcs (mon_cond s) ! j)"
    by (simp_all add: cv_touches_holds)
  with mm.mon_clients_exclude [OF mm.mon_invariant [OF assms(1,2,2,3)] assms(2,4-6)] show False by simp
qed

text \<open>
  C14. No wake-up of the mutex is lost inside the composition: whenever the mutex is free and some thread
  waits for it, in \<open>lock()\<close> or at the end of a wait, asleep or not, a schedule of nothing but steps of the
  calls under way leads to a state in which one of those threads has it. No operation begins in it and
  nobody is woken spuriously, by the mutex's futex or the condition variable's: without the wake of an
  \<open>unlock()\<close> there would be no such schedule.
\<close>
theorem monitor_no_lost_wakeup:
  assumes reach: "mutex_monitor n s" and n: "n < 2 ^ 31" and b: "g_seq (shm (mon_cond s)) < 2 ^ 32"
    and free: "cnt mutex_holder (pcs (mon_lock s)) = 0" and t: "t < n" "mutex_waiter (pcs (mon_lock s) ! t)"
  shows "\<exists>sched s' u. run (mon_step mutex_type) (steps sched) s = Some s' \<and> u < n \<and>
    mutex_waiter (pcs (mon_lock s) ! u) \<and> pcs (mon_lock s') ! u = MHeld"
proof -
  have inv: "mm.mon_inv n s" using mm.mon_invariant [OF reach n n b] .
  have mx: "mutex_reachable n (mon_lock s)" using inv by (simp add: mm.mon_inv_def lt_steps lt_inits)
  have "owner_of (holds_at mutex_holder (mon_lock s)) n = None"
    using free mutex_reachable_facts(1) [OF mx] by (simp add: owner_of_None holds_at_def cnt_0_iff)
  from mutex_waiter_gets_it [OF mx n this t] obtain sched M u where
    "run (lt_step mutex_type) (steps sched) (mon_lock s) = Some M" "u < n" "mutex_waiter (pcs (mon_lock s) ! u)"
    "pcs M ! u = MHeld" unfolding lt_steps by blast
  with mml.mon_lift_run [OF inv n, of sched M] show ?thesis by metis
qed

theorem monitor_no_lost_wakeup_witness:
  "\<exists>sched s' u. run (mon_step mutex_type) (steps sched) mon_handing_over = Some s' \<and> u < 2 \<and>
    mutex_waiter (pcs (mon_lock mon_handing_over) ! u) \<and> pcs (mon_lock s') ! u = MHeld"
  by (rule monitor_no_lost_wakeup [OF mon_handing_over_reachable, of 1])
    (simp_all add: mon_handing_over_def cv_mem0_def cnt_def)



text \<open>And over a spin lock.\<close>

theorem spin_monitor_wait_returns:
  assumes reach: "spin_monitor n s" and n: "n < 2 ^ 31" and b: "g_seq (shm (mon_cond s)) < 2 ^ 32"
    and t: "t < n" and waits: "cv_pred_waiting (pcs (mon_cond s) ! t)"
    and data: "cv_data (shm (mon_cond s))" and after: "g_set (shm (mon_cond s)) < g_bcast (shm (mon_cond s))"
    and free: "cnt spin_holder (pcs (mon_lock s)) = 0"
  shows "\<exists>k s'. run (mon_step spin_type) (replicate k (Step t [])) s = Some s' \<and>
    pcs (mon_cond s') ! t = CvHeld (CvBool True) \<and> pcs (mon_lock s') ! t = SpHeld"
proof -
  have n': "n < 2 ^ 32" using n by simp
  have inv: "ms.mon_inv n s" using ms.mon_invariant [OF reach n' n b] .
  then have "spin_reachable n (mon_lock s)" by (simp add: ms.mon_inv_def lt_steps lt_inits)
  then have "sp.queue_wf (mon_lock s)" unfolding spin_step_def spin_init_def by (rule sp.reachable_queue_wf)
  then have "t \<notin> set (waitq (mon_lock s))" by (auto simp: sp.queue_wf_def)
  with msl.mon_wait_returns [OF inv n' n b t _ waits data after free] show ?thesis by simp
qed

text \<open>
  \<open>ConditionVariableGuard\<close>: the constructor waits, the destructor does nothing. The mutex is held before,
  in and after the scope: a guard that has been constructed is destroyed with the mutex still held.
\<close>

definition cv_guard_construct :: "tid \<Rightarrow> bool \<Rightarrow> cv_op act" where
  "cv_guard_construct t with_pred = Invoke t (CvCall (if with_pred then CallWaitPred else CallWait))"

definition cv_guard_destroy :: "tid \<Rightarrow> cv_op act list" where
  "cv_guard_destroy t = []"

theorem cv_guard_keeps_mutex:
  assumes "mutex_monitor n s" and "n < 2 ^ 31" and "g_seq (shm (mon_cond s)) < 2 ^ 32" and t: "t < n"
  shows "mon_step mutex_type (cv_guard_construct t with_pred) s = Some s1 \<Longrightarrow> pcs (mon_lock s) ! t = MHeld"
    and "pcs (mon_cond s) ! t = CvHeld r \<Longrightarrow> run (mon_step mutex_type) (cv_guard_destroy t) s = Some s2 \<Longrightarrow>
      pcs (mon_lock s2) ! t = MHeld"
proof -
  have ok: "mm.mon_ok (pcs (mon_cond s) ! t) (pcs (mon_lock s) ! t)"
    using mm.mon_invariant [OF assms(1,2,2,3)] t by (simp add: mm.mon_inv_def)
  then have held: "pcs (mon_lock s) ! t = MHeld" if "pcs (mon_cond s) ! t = CvHeld r" for r
    using that by (simp add: mm.mon_ok_def)
  show "mon_step mutex_type (cv_guard_construct t with_pred) s = Some s1 \<Longrightarrow> pcs (mon_lock s) ! t = MHeld"
    using held by (cases "pcs (mon_cond s) ! t")
      (auto simp: cv_guard_construct_def mon_step_def mon_cond_step_def cv_step_def sys_step_def split: if_splits)
  show "pcs (mon_cond s) ! t = CvHeld r \<Longrightarrow> run (mon_step mutex_type) (cv_guard_destroy t) s = Some s2 \<Longrightarrow>
      pcs (mon_lock s2) ! t = MHeld"
    using held by (simp add: cv_guard_destroy_def)
qed

end
