(* ===== verification/Queries.thy ===== *)
theory Queries
  imports MpscQueue Guards SeqLock
begin

text \<open>
  What the classes answer about themselves: \<open>is_closed\<close>, \<open>size_approx\<close> and \<open>capacity\<close> of
  \<^verbatim>\<open>psync_mpsc_queue.h\<close>, \<open>empty\<close> of \<^verbatim>\<open>psync_spsc_queue.h\<close>, \<open>owns_lock\<close> and \<open>mutex\<close> of
  \<^verbatim>\<open>psync_locks.h\<close>; and the scoped \<open>SeqLockWriteGuard\<close> of \<^verbatim>\<open>psync_seqlock.h\<close>. The queries write
  nothing. One load is a function of the memory at that moment; \<open>empty\<close> makes two loads, and is a
  function of the memories at both. Shown: by how much \<open>size_approx\<close> is off, and that it can be off
  below zero; that a push begun on a closed queue fails; what the answer of \<open>empty\<close> is worth; that a
  wrapper that says it owns its mutex does; and that a write guard publishes exactly the writes of its
  scope.
\<close>

section \<open>The multi-producer queue\<close>

definition mpsc_is_closed :: "mq_mem \<Rightarrow> bool" where
  "mpsc_is_closed m = mq_closed m"

definition mpsc_size_approx :: "mq_mem \<Rightarrow> usize" where
  "mpsc_size_approx m = mq_size m"

definition mpsc_capacity :: "mq_mem \<Rightarrow> usize" where
  "mpsc_capacity m = mq_mask m + 1"

text \<open>
  The number of positions published so far, and the calls that have made their last store to the slot
  but have not moved the counter yet.
\<close>

definition mq_published :: "mq_mem \<Rightarrow> nat" where
  "mq_published m = cnt (\<lambda>x. x = Published) (g_status m)"

fun mq_counts_up :: "mq_pc \<Rightarrow> bool" where
  "mq_counts_up MqCountUp = True"
| "mq_counts_up _ = False"

fun mq_counts_down :: "mq_pc \<Rightarrow> bool" where
  "mq_counts_down (MqCountDown _) = True"
| "mq_counts_down _ = False"

definition mq_size_ok :: "mq_mem \<Rightarrow> mq_pc list \<Rightarrow> bool" where
  "mq_size_ok m ls \<longleftrightarrow> mq_size m + of_nat (length (g_taken m)) + of_nat (cnt mq_counts_up ls) =
     of_nat (mq_published m) + of_nat (cnt mq_counts_down ls)"

lemma mq_published_update:
  assumes "a < length (g_status m)" and "g_status m ! a = Claimed"
  shows "cnt (\<lambda>x. x = Published) ((g_status m)[a := x]) = mq_published m + of_bool (x = Published)"
  using cnt_update [OF assms(1), of "\<lambda>x. x = Published" x] assms(2) by (simp add: mq_published_def)

lemma mq_size_exec:
  assumes ex: "mq_exec m l = Some (m', l', k)" and loc: "mq_local cap m l"
    and len: "length (g_status m) = length (g_items m)"
  shows "mq_size m' + of_nat (length (g_taken m')) + of_bool (mq_counts_up l') + (of_nat (mq_published m) + of_bool (mq_counts_down l)) =
    mq_size m + of_nat (length (g_taken m)) + of_bool (mq_counts_up l) + (of_nat (mq_published m') + of_bool (mq_counts_down l'))"
proof (cases l)
  case (MqPublish b v head)
  with ex have "m' = m\<lparr>mq_seq := (mq_seq m)[mq_index m head := head + 1],
      g_status := (g_status m)[unat head := Published]\<rparr>" "l' = MqCountUp" by auto
  moreover have "unat head < length (g_status m)" "g_status m ! unat head = Claimed" using loc MqPublish len by simp_all
  ultimately show ?thesis
    using MqPublish mq_published_update [of "unat head" m Published] by (simp add: mq_published_def algebra_simps)
next
  case (MqRevert b v head)
  with ex have "m' = m\<lparr>mq_seq := (mq_seq m)[mq_index m head := head],
      g_status := (g_status m)[unat head := Abandoned]\<rparr>" "l' = mq_push_failed b v" by auto
  moreover have "unat head < length (g_status m)" "g_status m ! unat head = Claimed" using loc MqRevert len by simp_all
  ultimately show ?thesis
    using MqRevert mq_published_update [of "unat head" m Abandoned] by (simp add: mq_published_def mq_push_failed_def)
next
  case (MqPop mode)
  with ex show ?thesis by (cases mode) (auto simp: mq_published_def Let_def split: if_splits)
qed (use ex in \<open>auto simp: mq_published_def mq_push_failed_def cnt_def Let_def split: if_splits\<close>)

lemma counter_shift:
  fixes S :: "'a :: ab_group_add"
  assumes "S' + T' + u' + (P + d) = S + T + u + (P' + d')" "U' + u = U + u'" "D' + d = D + d'" "S + T + U = P + D"
  shows "S' + T' + U' = P' + D'"
proof -
  have "S' + T' + U' + (u' + P + d + u) = S' + T' + u' + (P + d) + (U' + u)" by (simp add: ac_simps)
  also have "\<dots> = S + T + u + (P' + d') + (U + u')" by (simp only: assms(1,2))
  also have "\<dots> = S + T + U + (u + P' + d' + u')" by (simp add: ac_simps)
  also have "\<dots> = P + (D + d') + (u + P' + u')" by (simp only: assms(4)) (simp add: ac_simps)
  also have "\<dots> = P + (D' + d) + (u + P' + u')" by (simp only: assms(3))
  also have "\<dots> = P' + D' + (u' + P + d + u)" by (simp add: ac_simps)
  finally show ?thesis by simp
qed

lemma mq_size_invariant:
  assumes reach: "mq_reachable capacity n s" and c: "unat capacity \<le> 2 ^ 62" and n: "0 < n"
    and b: "length (g_items (shm s)) < 2 ^ 62"
  shows "mq_size_ok (shm s) (pcs s)"
  using reach b
proof (induction rule: reachable.induct)
  case start
  show ?case by (simp add: mq_size_ok_def mq_init_def mq_create_def Let_def mq_published_def cnt_simps) (simp add: cnt_def)
next
  case (step s a s')
  have b: "length (g_items (shm s)) < 2 ^ 62"
    using mq_sys_inv_step(2) [OF mq_invariant [OF step.hyps(1) c] step.hyps(2)] step.prems by simp
  note f = mq_facts [OF step.hyps(1) c n b] and ok = step.IH [OF b]
  from step.hyps(2) have "sys_step mq_exec mq_start a s = Some s'" by (auto simp: mq_step_def split: if_splits)
  then show ?case
  proof (cases rule: sys_stepE)
    case (invoke t op l)
    have "\<not> mq_counts_up l \<and> \<not> mq_counts_down l \<and> \<not> mq_counts_up (pcs s ! t) \<and> \<not> mq_counts_down (pcs s ! t)"
      using invoke(4) by (cases op; cases "pcs s ! t") (auto simp: mq_outside_def split: if_splits)
    with invoke ok show ?thesis by (simp add: mq_size_ok_def cnt_update_same)
  next
    case (exec t ws m l k q)
    have "mq_local (spsc_size capacity) (shm s) (pcs s ! t)" using f(3) exec(2) by (simp add: mq_threads_def)
    moreover have "length (g_status (shm s)) = length (g_items (shm s))" using f(1) by (simp add: mq_shape_def)
    ultimately have e: "mq_size m + of_nat (length (g_taken m)) + of_bool (mq_counts_up l) +
        (of_nat (mq_published (shm s)) + of_bool (mq_counts_down (pcs s ! t))) =
        mq_size (shm s) + of_nat (length (g_taken (shm s))) + of_bool (mq_counts_up (pcs s ! t)) +
        (of_nat (mq_published m) + of_bool (mq_counts_down l))"
      by (rule mq_size_exec [OF exec(4)])
    note up = cnt_word_update [OF exec(2), of mq_counts_up l, where 'a = 64]
      and down = cnt_word_update [OF exec(2), of mq_counts_down l, where 'a = 64]
    have "mq_size_ok m ((pcs s)[t := l])"
      using counter_shift [OF e up down] ok by (simp add: mq_size_ok_def)
    with exec show ?thesis by simp
  qed (use ok in \<open>simp add: mq_size_ok_def\<close>)
qed

text \<open>A push begun on a closed queue never gets to the writes.\<close>

fun mq_pushing :: "mq_pc \<Rightarrow> bool" where
  "mq_pushing (MqWrite _ _ _) = True"
| "mq_pushing (MqPublish _ _ _) = True"
| "mq_pushing MqCountUp = True"
| "mq_pushing (MqOut r) = (r = Pushed True)"
| "mq_pushing _ = False"

lemma mq_closed_exec: "mq_exec m l = Some (m', l', k) \<Longrightarrow> mq_closed m \<Longrightarrow>
    mq_closed m' \<and> (\<not> mq_pushing l \<longrightarrow> \<not> mq_pushing l')"
proof (cases l)
  case (MqPop mode)
  assume "mq_exec m l = Some (m', l', k)" "mq_closed m"
  with MqPop show ?thesis by (cases mode) (auto simp: Let_def split: if_splits)
qed (auto simp: Let_def mq_push_failed_def split: if_splits)

lemma mq_closed_step:
  assumes stp: "mq_step a s = Some s'" and c: "mq_closed (shm s)" and t: "\<not> mq_pushing (pcs s ! t)"
  shows "mq_closed (shm s') \<and> \<not> mq_pushing (pcs s' ! t)"
proof -
  from stp have "sys_step mq_exec mq_start a s = Some s'" by (auto simp: mq_step_def split: if_splits)
  then show ?thesis
  proof (cases rule: sys_stepE)
    case (invoke u op l)
    have "\<not> mq_pushing l" using invoke(4) by (cases op; cases "pcs s ! u") (auto simp: mq_outside_def split: if_splits)
    with invoke c t show ?thesis by (cases "u = t") auto
  next
    case (exec u ws m l k q)
    with mq_closed_exec [OF exec(4) c] t show ?thesis by (cases "u = t") auto
  qed (use c t in auto)
qed

lemma mq_closed_run: "run mq_step as s = Some s' \<Longrightarrow> mq_closed (shm s) \<Longrightarrow> \<not> mq_pushing (pcs s ! t) \<Longrightarrow>
    mq_closed (shm s') \<and> \<not> mq_pushing (pcs s' ! t)"
proof (induction as arbitrary: s)
  case (Cons a as)
  then obtain s1 where "mq_step a s = Some s1" "run mq_step as s1 = Some s'" by (auto split: option.splits)
  with Cons.IH Cons.prems mq_closed_step [of a s s1 t] show ?case by blast
qed simp

section \<open>The single-producer queue\<close>

text \<open>\<open>empty\<close> loads the tail in the first memory and the head in the second, later one.\<close>

definition spsc_empty :: "spsc_mem \<Rightarrow> spsc_mem \<Rightarrow> bool" where
  "spsc_empty m1 m2 \<longleftrightarrow> sq_tail m1 = sq_head m2"

lemma spsc_exec_grows: "spsc_exec m l = Some (m', l', k) \<Longrightarrow>
    length (g_pushed m) \<le> length (g_pushed m') \<and> length (g_popped m) \<le> length (g_popped m')"
  by (cases l) (auto simp: Let_def split: if_splits option.splits)

lemma spsc_run_grows: "run spsc_step as s = Some s' \<Longrightarrow>
    length (g_pushed (shm s)) \<le> length (g_pushed (shm s')) \<and> length (g_popped (shm s)) \<le> length (g_popped (shm s'))"
proof (induction as arbitrary: s)
  case (Cons a as)
  then obtain s1 where s1: "spsc_step a s = Some s1" "run spsc_step as s1 = Some s'" by (auto split: option.splits)
  from s1(1) [unfolded spsc_step_def]
  have "length (g_pushed (shm s)) \<le> length (g_pushed (shm s1)) \<and> length (g_popped (shm s)) \<le> length (g_popped (shm s1))"
    by (cases rule: sys_stepE) (auto dest: spsc_exec_grows)
  with Cons.IH [OF s1(2)] show ?case by (meson le_trans)
qed simp

section \<open>The wrappers\<close>

definition ul_owns_lock :: "wrapper \<Rightarrow> bool" where
  "ul_owns_lock w = w_owns w"

definition ul_mutex :: "wrapper \<Rightarrow> mutex_ptr option" where
  "ul_mutex w = w_mutex w"

definition sl_owns_lock :: "wrapper \<Rightarrow> bool" where
  "sl_owns_lock w = w_owns w"

definition sl_mutex :: "wrapper \<Rightarrow> mutex_ptr option" where
  "sl_mutex w = w_mutex w"

context basic_lockable
begin

lemma owner_holds:
  assumes "wl_inv s" and "w \<in> set (wl_wrappers s)" and "w_owns w"
  shows "\<exists>p. w_mutex w = Some p \<and> 0 < held (wl_mutexes s) p"
proof -
  obtain p where p: "w_mutex w = Some p" using assms by (auto simp: wl_inv_def)
  then have "0 < owned p (wl_wrappers s)"
    using assms(2,3) by (auto simp: owned_def in_set_conv_nth w_owner_def intro: cnt_pos)
  with assms(1) p show ?thesis by (simp add: wl_inv_def)
qed

end

section \<open>The write guard of the sequence lock\<close>

text \<open>
  The constructor and the destructor, and the code between them: the cells that thread \<open>t\<close> stores. An
  exception in that code runs the destructor after the stores made so far, which is a shorter list.
\<close>

definition seq_guard_construct :: "tid \<Rightarrow> seq_op act list" where
  "seq_guard_construct t = [Invoke t WriteBegin, Step t []]"

definition seq_guard_destroy :: "tid \<Rightarrow> seq_op act list" where
  "seq_guard_destroy t = [Invoke t WriteEnd, Step t []]"

fun seq_stores :: "tid \<Rightarrow> (nat \<times> nat) list \<Rightarrow> seq_op act list" where
  "seq_stores t [] = []"
| "seq_stores t ((i, v) # ws) = [Invoke t (WriteCell i v), Step t []] @ seq_stores t ws"

fun seq_stored :: "(nat \<times> nat) list \<Rightarrow> nat list \<Rightarrow> nat list" where
  "seq_stored [] cs = cs"
| "seq_stored ((i, v) # ws) cs = seq_stored ws (cs[i := v])"

lemma seq_stores_run: "t < length ls \<Longrightarrow> ls ! t = SqWriting \<Longrightarrow>
    run seq_step (seq_stores t ws) \<lparr>shm = m, waitq = [], pcs = ls\<rparr> =
      Some \<lparr>shm = m\<lparr>cells := seq_stored ws (cells m)\<rparr>, waitq = [], pcs = ls\<rparr>"
proof (induction ws arbitrary: m)
  case (Cons x ws)
  have upd: "ls[t := SqWriting] = ls" using Cons.prems by (metis list_update_id)
  with Cons show ?case by (cases x) (simp add: seq_step_def sys_step_def awake_def)
qed simp

lemma seq_guard_run:
  assumes t: "t < length ls" "ls ! t = SqWOut"
  shows "run seq_step (seq_guard_construct t @ seq_stores t ws @ seq_guard_destroy t) \<lparr>shm = m, waitq = [], pcs = ls\<rparr> =
    Some \<lparr>shm = m\<lparr>sequence := sequence m + 2, cells := seq_stored ws (cells m), g_seq := g_seq m + 2,
      g_versions := g_versions m @ [seq_stored ws (cells m)]\<rparr>, waitq = [], pcs = ls\<rparr>"
proof -
  have upd: "ls[t := SqWOut] = ls" using t by (metis list_update_id)
  let ?m = "m\<lparr>sequence := sequence m + 1, g_seq := g_seq m + 1\<rparr>"
  have "run seq_step (seq_guard_construct t) \<lparr>shm = m, waitq = [], pcs = ls\<rparr> =
      Some \<lparr>shm = ?m, waitq = [], pcs = ls[t := SqWriting]\<rparr>"
    using t by (simp add: seq_guard_construct_def seq_step_def sys_step_def awake_def)
  moreover have "run seq_step (seq_stores t ws) \<lparr>shm = ?m, waitq = [], pcs = ls[t := SqWriting]\<rparr> =
      Some \<lparr>shm = ?m\<lparr>cells := seq_stored ws (cells m)\<rparr>, waitq = [], pcs = ls[t := SqWriting]\<rparr>"
    using seq_stores_run [of t "ls[t := SqWriting]" ws ?m] t by simp
  moreover have "run seq_step (seq_guard_destroy t) \<lparr>shm = ?m\<lparr>cells := seq_stored ws (cells m)\<rparr>, waitq = [], pcs = ls[t := SqWriting]\<rparr> =
      Some \<lparr>shm = m\<lparr>sequence := sequence m + 2, cells := seq_stored ws (cells m), g_seq := g_seq m + 2,
        g_versions := g_versions m @ [seq_stored ws (cells m)]\<rparr>, waitq = [], pcs = ls\<rparr>"
    using t upd by (simp add: seq_guard_destroy_def seq_step_def sys_step_def awake_def add.assoc)
  ultimately show ?thesis by (simp add: run_append)
qed

section \<open>Properties\<close>

text \<open>Thread 1 has published an item and thread 0 has popped it, before thread 1 counts it.\<close>

definition mq_counted_late :: "(mq_mem, mq_pc) fsys" where
  "mq_counted_late = \<lparr>shm = \<lparr>mq_mask = 1, mq_seq = [2, 1], mq_data = [7, 0], mq_head = 1, mq_tail = 1, mq_closed = False,
     mq_size = - 1, g_items = [7], g_status = [Published], g_taken = [7]\<rparr>, waitq = [],
     pcs = [MqOut (Popped (Some 7)), MqCountUp]\<rparr>"

lemma mq_counted_late_reachable: "mq_reachable 2 2 mq_counted_late"
  by (rule run_reachable [of _ "[Invoke 1 (MqTryPush 7), Step 1 [], Step 1 [], Step 1 [], Step 1 [], Step 1 [], Step 1 [],
      Invoke 0 MqTryPop, Step 0 [], Step 0 [], Step 0 [], Step 0 []]"]) code_simp

text \<open>
  C39. By how much \<open>size_approx()\<close> is off: it is the number of items published and not taken, modulo
  \<open>2 ^ 64\<close>, less the pushes that have published and not counted yet, plus the pops that have taken and
  not counted yet; it is exact when no such call is under way. A pop that overtakes the counting of the
  push it takes from makes it \<open>2 ^ 64 - 1\<close> on an empty queue.
\<close>
theorem mpsc_size_approx_error:
  assumes reach: "mq_reachable capacity n s" and c: "unat capacity \<le> 2 ^ 62" and n: "0 < n"
    and b: "length (g_items (shm s)) < 2 ^ 62"
  shows "mpsc_size_approx (shm s) = word_of_int (int (mq_published (shm s)) - int (length (g_taken (shm s))) -
      int (cnt mq_counts_up (pcs s)) + int (cnt mq_counts_down (pcs s))) \<and>
    length (g_taken (shm s)) \<le> mq_published (shm s)"
proof
  have "mq_size_ok (shm s) (pcs s)" by (rule mq_size_invariant [OF assms])
  then have "mq_size (shm s) = of_nat (mq_published (shm s)) + of_nat (cnt mq_counts_down (pcs s)) -
      of_nat (length (g_taken (shm s))) - of_nat (cnt mq_counts_up (pcs s))"
    by (simp add: mq_size_ok_def eq_diff_eq ac_simps)
  then show "mpsc_size_approx (shm s) = word_of_int (int (mq_published (shm s)) - int (length (g_taken (shm s))) -
      int (cnt mq_counts_up (pcs s)) + int (cnt mq_counts_down (pcs s)))"
    by (simp add: mpsc_size_approx_def algebra_simps)
  have sh: "mq_shape (spsc_size capacity) (shm s) (pcs s ! 0)" by (rule mq_facts(1) [OF assms])
  then have "\<forall>j \<in> set [0..<length (g_taken (shm s))]. j < length (g_status (shm s)) \<and> g_status (shm s) ! j = Published"
    by (auto simp: mq_shape_def published_def)
  from cnt_ge_distinct [OF _ this] show "length (g_taken (shm s)) \<le> mq_published (shm s)"
    by (simp add: mq_published_def)
qed

theorem mpsc_size_approx_error_witness:
  "unat (mpsc_size_approx (shm mq_counted_late)) = 2 ^ 64 - 1 \<and> mq_published (shm mq_counted_late) = 1 \<and>
   length (g_taken (shm mq_counted_late)) = 1"
proof -
  have f: "unat capacity \<le> 2 ^ 62" "length (g_items (shm mq_counted_late)) < 2 ^ 62" "0 < (2 :: nat)"
    if "capacity = 2" for capacity :: usize
    using that by (simp_all add: mq_counted_late_def)
  have "mpsc_size_approx (shm mq_counted_late) = - 1"
    using mpsc_size_approx_error [OF mq_counted_late_reachable f(1) f(3) f(2)]
    by (simp add: mq_counted_late_def mq_published_def cnt_def)
  then have "unat (mpsc_size_approx (shm mq_counted_late)) = 2 ^ 64 - 1"
    by (simp add: unsigned_minus_1_eq_mask mask_eq_exp_minus_1)
  then show ?thesis by (simp add: mq_counted_late_def mq_published_def cnt_def)
qed

text \<open>
  A closed queue refuses: when \<open>is_closed()\<close> has been true while a thread was outside, no push that the
  thread makes afterwards, waiting or not, returns true, and the queue stays closed.
\<close>
theorem mpsc_closed_refuses:
  assumes "run mq_step as s = Some s'" and "mpsc_is_closed (shm s)" and "pcs s ! t = MqOut r" and "r \<noteq> Pushed True"
  shows "mpsc_is_closed (shm s') \<and> pcs s' ! t \<noteq> MqOut (Pushed True)"
  using mq_closed_run [OF assms(1), of t] assms(2-4) by (auto simp: mpsc_is_closed_def)

text \<open>
  What \<open>empty()\<close> is worth while both threads run, with fewer than \<open>2 ^ 64\<close> items pushed in all: if it is
  true, the queue was empty when the tail was read and is empty when the head is read; if it is false and
  nothing was popped meanwhile (the consumer asks), there is an item to pop.
\<close>
theorem spsc_empty_sound:
  assumes reach: "spsc_reachable capacity s" and c: "unat capacity \<le> 2 ^ 63" and run: "run spsc_step as s = Some s'"
    and b: "length (g_pushed (shm s')) < 2 ^ 64"
  shows "if spsc_empty (shm s) (shm s') then spsc_items s = [] \<and> spsc_items s' = []
    else length (g_popped (shm s')) = length (g_popped (shm s)) \<longrightarrow> spsc_items s' \<noteq> []"
proof -
  have reach': "spsc_reachable capacity s'" using reach run by (rule reachable_run)
  have sh: "spsc_shape (spsc_size capacity) (shm s)" "spsc_shape (spsc_size capacity) (shm s')"
    using spsc_invariant [OF reach c] spsc_invariant [OF reach' c] by (simp_all add: spsc_sys_inv_def spsc_inv_def)
  note g = spsc_run_grows [OF run]
  have le: "length (g_popped (shm s)) \<le> length (g_pushed (shm s))" "length (g_popped (shm s')) \<le> length (g_pushed (shm s'))"
    using sh by (auto simp: spsc_shape_def)
  have "spsc_empty (shm s) (shm s') \<longleftrightarrow>
      (word_of_nat (length (g_popped (shm s))) :: usize) = word_of_nat (length (g_pushed (shm s')))"
    using sh by (simp add: spsc_empty_def spsc_shape_def)
  also have "\<dots> \<longleftrightarrow> length (g_pushed (shm s')) = length (g_popped (shm s))"
    using word_of_nat_close [of "length (g_pushed (shm s'))" "length (g_popped (shm s))", where 'a = 64] le g b by fastforce
  finally show ?thesis using le g by (auto simp: spsc_items_def)
qed

text \<open>
  A wrapper tells the truth: after any operations on its wrappers, a thread that began with none of the
  mutexes holds the mutex of every \<open>UniqueLock\<close> whose \<open>owns_lock()\<close> is true, and reads under the mutex of
  every such \<open>SharedLock\<close>.
\<close>
theorem owns_lock_means_held:
  "run (wl_step (excl_ops t)) as (wl_init m0) = Some s \<Longrightarrow> \<forall>p. m0 p \<noteq> Some t \<Longrightarrow>
    w \<in> set (wl_wrappers s) \<Longrightarrow> ul_owns_lock w \<Longrightarrow> \<exists>p. ul_mutex w = Some p \<and> wl_mutexes s p = Some t"
  "run (sw_step (rw_ops t)) as (wl_init r0) = Some s' \<Longrightarrow> \<forall>p. t \<notin># rw_readers (r0 p) \<Longrightarrow>
    w' \<in> set (wl_wrappers s') \<Longrightarrow> sl_owns_lock w' \<Longrightarrow> \<exists>p. sl_mutex w' = Some p \<and> t \<in># rw_readers (wl_mutexes s' p)"
proof -
  assume run: "run (wl_step (excl_ops t)) as (wl_init m0) = Some s" and m0: "\<forall>p. m0 p \<noteq> Some t"
    and w: "w \<in> set (wl_wrappers s)" "ul_owns_lock w"
  have "ul.wl_inv t s" using ul.wl_inv_run [OF run] m0 by (simp add: ul.wl_inv_init excl_held_def)
  from ul.owner_holds [OF this w(1)] w(2) show "\<exists>p. ul_mutex w = Some p \<and> wl_mutexes s p = Some t"
    by (auto simp: ul_owns_lock_def ul_mutex_def excl_held_def split: if_splits)
next
  assume run: "run (sw_step (rw_ops t)) as (wl_init r0) = Some s'" and r0: "\<forall>p. t \<notin># rw_readers (r0 p)"
    and w: "w' \<in> set (wl_wrappers s')" "sl_owns_lock w'"
  have "sl.wl_inv t s'" using sl.wl_inv_run [of t as "wl_init r0" s'] run r0
    by (simp add: sl.wl_inv_init shared_held_def sw_step_eq shared_side_rw not_in_iff)
  from sl.owner_holds [OF this w(1)] w(2) show "\<exists>p. sl_mutex w' = Some p \<and> t \<in># rw_readers (wl_mutexes s' p)"
    by (auto simp: sl_owns_lock_def sl_mutex_def shared_held_def count_greater_zero_iff split: if_splits)
qed

text \<open>
  A write guard is scoped: from any state in which the writer is outside, its constructor, any stores and
  its destructor leave the sequence two further on, so even again, and add one version of the data, with
  all the stores of the scope in it.
\<close>
theorem seq_write_guard_scoped:
  assumes reach: "seq_reachable data readers s" and out: "pcs s ! 0 = SqWOut"
  shows "\<exists>s'. run seq_step (seq_guard_construct 0 @ seq_stores 0 ws @ seq_guard_destroy 0) s = Some s' \<and> pcs s' = pcs s \<and>
    sequence (shm s') = sequence (shm s) + 2 \<and> cells (shm s') = seq_stored ws (cells (shm s)) \<and>
    g_versions (shm s') = g_versions (shm s) @ [seq_stored ws (cells (shm s))] \<and> even (g_seq (shm s'))"
proof -
  have I: "seq_inv s" by (rule seq_invariant [OF reach])
  obtain m q ls where s: "s = \<lparr>shm = m, waitq = q, pcs = ls\<rparr>" by (cases s) auto
  have q: "q = []" and ls: "0 < length ls" "ls ! 0 = SqWOut" and even: "even (g_seq m)"
    using I out s by (auto simp: seq_inv_def)
  show ?thesis using seq_guard_run [OF ls, of ws m] even unfolding s q by simp
qed

end
