(* ===== verification/Threads.thy ===== *)
theory Threads
  imports Futex
begin

text \<open>
  The thread helpers at the end of \<^verbatim>\<open>psync_platform.h\<close> (test builds). On Windows \<open>thread_create\<close>
  hands the function and its argument to the new thread in a context on the heap, which the new thread
  deletes; on Linux the two are arguments of \<^verbatim>\<open>pthread_create\<close>. Shown: no context is used after it
  was deleted, deleted twice or leaked, on the failing paths too, and every thread that was created
  calls its function once, with its argument. \<^verbatim>\<open>CreateThread\<close>, the allocator and the scheduler are
  the environment, and answer as they like.
\<close>

section \<open>Windows\<close>

text \<open>
  The heap of contexts: an address is an index, never used again, and a deleted context is \<open>None\<close>.
  \<open>th_started\<close> are the parameters of the threads the system has created and not begun yet. The \<open>g_\<close>
  fields are for the specification: what the contexts held, the contexts of the threads created, and
  the calls made, each with the context it came from.
\<close>

record thread_context =
  tc_func :: nat
  tc_arg :: nat

record th_mem =
  th_heap :: "thread_context option list"
  th_started :: "nat list"
  g_contexts :: "thread_context list"
  g_created :: "nat list"
  g_calls :: "(nat \<times> thread_context) list"

datatype th_result = ThNothing | ThReturned bool | ThThrew

text \<open>
  \<open>ThOut\<close> to \<open>ThHandle\<close> are the points of \<open>thread_create\<close>; from \<open>ThPool\<close> (a thread the system has
  not begun) on those of \<open>thread_wrapper\<close>, with its locals.
\<close>

datatype th_pc =
    ThOut th_result
  | ThNew thread_context
  | ThBuild thread_context
  | ThCreateThread nat
  | ThSpawn nat
  | ThHandle
  | ThDeleteFailed nat
  | ThPool
  | ThBegin nat
  | ThFunc nat
  | ThArg nat nat
  | ThDelete nat thread_context
  | ThCall nat thread_context
  | ThExit

text \<open>
  The client's call, and the environment's answers: whether \<open>new\<close> finds memory, whether
  \<^verbatim>\<open>CreateThread\<close> succeeds, and which of the created threads begins.
\<close>

datatype th_op = ThCreate nat nat | ThMemory bool | ThSystem bool | ThPick nat

fun th_start :: "th_op \<Rightarrow> th_pc \<Rightarrow> th_pc option" where
  "th_start (ThCreate func arg) l = (case l of
     ThOut _ \<Rightarrow> Some (ThNew \<lparr>tc_func = func, tc_arg = arg\<rparr>) | _ \<Rightarrow> None)"
| "th_start (ThMemory ok) l = (case l of
     ThNew c \<Rightarrow> Some (if ok then ThBuild c else ThOut ThThrew) | _ \<Rightarrow> None)"
| "th_start (ThSystem ok) l = (case l of
     ThCreateThread ctx \<Rightarrow> Some (if ok then ThSpawn ctx else ThDeleteFailed ctx) | _ \<Rightarrow> None)"
| "th_start (ThPick i) l = (case l of ThPool \<Rightarrow> Some (ThBegin i) | _ \<Rightarrow> None)"

text \<open>A step that reads or deletes a context is stuck where the context is gone.\<close>

definition th_read :: "th_mem \<Rightarrow> nat \<Rightarrow> thread_context option" where
  "th_read m ctx = (if ctx < length (th_heap m) then th_heap m ! ctx else None)"

definition th_delete :: "th_mem \<Rightarrow> nat \<Rightarrow> th_mem" where
  "th_delete m ctx = m\<lparr>th_heap := (th_heap m)[ctx := None]\<rparr>"

fun th_exec :: "th_mem \<Rightarrow> th_pc \<Rightarrow> (th_mem \<times> th_pc \<times> keff) option" where
  "th_exec m (ThOut r) = None"
| "th_exec m (ThNew c) = None"
| "th_exec m (ThBuild c) =
     Some (m\<lparr>th_heap := th_heap m @ [Some c], g_contexts := g_contexts m @ [c]\<rparr>, ThCreateThread (length (th_heap m)), KNone)"
| "th_exec m (ThCreateThread ctx) = None"
| "th_exec m (ThSpawn ctx) =
     Some (m\<lparr>th_started := th_started m @ [ctx], g_created := g_created m @ [ctx]\<rparr>, ThHandle, KNone)"
| "th_exec m ThHandle = Some (m, ThOut (ThReturned True), KNone)"
| "th_exec m (ThDeleteFailed ctx) =
     (if th_read m ctx = None then None else Some (th_delete m ctx, ThOut (ThReturned False), KNone))"
| "th_exec m ThPool = None"
| "th_exec m (ThBegin i) =
     (if i < length (th_started m)
      then Some (m\<lparr>th_started := take i (th_started m) @ drop (Suc i) (th_started m)\<rparr>, ThFunc (th_started m ! i), KNone)
      else Some (m, ThPool, KNone))"
| "th_exec m (ThFunc ctx) = map_option (\<lambda>c. (m, ThArg ctx (tc_func c), KNone)) (th_read m ctx)"
| "th_exec m (ThArg ctx func) =
     map_option (\<lambda>c. (m, ThDelete ctx \<lparr>tc_func = func, tc_arg = tc_arg c\<rparr>, KNone)) (th_read m ctx)"
| "th_exec m (ThDelete ctx c) =
     (if th_read m ctx = None then None else Some (th_delete m ctx, ThCall ctx c, KNone))"
| "th_exec m (ThCall ctx c) = Some (m\<lparr>g_calls := g_calls m @ [(ctx, c)]\<rparr>, ThExit, KNone)"
| "th_exec m ThExit = None"

definition th_step :: "th_op act \<Rightarrow> (th_mem, th_pc) fsys \<Rightarrow> (th_mem, th_pc) fsys option" where
  "th_step = sys_step th_exec th_start"

definition th_mem0 :: th_mem where
  "th_mem0 = \<lparr>th_heap = [], th_started = [], g_contexts = [], g_created = [], g_calls = []\<rparr>"

text \<open>\<open>n\<close> threads that call \<open>thread_create\<close> and \<open>p\<close> for the system to begin.\<close>

definition th_init :: "nat \<Rightarrow> nat \<Rightarrow> (th_mem, th_pc) fsys" where
  "th_init n p = \<lparr>shm = th_mem0, waitq = [], pcs = replicate n (ThOut ThNothing) @ replicate p ThPool\<rparr>"

abbreviation th_reachable :: "nat \<Rightarrow> nat \<Rightarrow> (th_mem, th_pc) fsys \<Rightarrow> bool" where
  "th_reachable n p \<equiv> reachable th_step (th_init n p)"

text \<open>\<open>thread_join\<close> makes its two calls on a handle that is neither null nor invalid.\<close>

datatype join_call = WaitForSingleObject u64 u32 | CloseHandle u64

definition thread_join :: "u64 \<Rightarrow> join_call list" where
  "thread_join handle =
     (if handle \<noteq> 0 \<and> handle \<noteq> - 1 then [WaitForSingleObject handle 0xFFFFFFFF, CloseHandle handle] else [])"

section \<open>Linux\<close>

definition linux_thread_create :: "(nat \<Rightarrow> nat \<Rightarrow> i32) \<Rightarrow> nat \<Rightarrow> nat \<Rightarrow> bool" where
  "linux_thread_create pthread_create func arg \<longleftrightarrow> pthread_create func arg = 0"

definition linux_hardware_concurrency :: "i64 \<Rightarrow> usize" where
  "linux_hardware_concurrency result = (if 0 <s result then result else 1)"

lemma linux_hardware_concurrency_pos: "1 \<le> linux_hardware_concurrency result \<and> 1 \<le>s linux_hardware_concurrency result"
proof (cases "0 <s result")
  case True
  then have "1 \<le> sint result" by (simp add: word_sless_alt)
  moreover have "result \<noteq> 0" using True by auto
  then have "1 \<le> result" by (simp add: word_le_nat_alt Suc_le_eq unat_gt_0)
  ultimately show ?thesis using True by (simp add: linux_hardware_concurrency_def word_sle_eq)
qed (simp add: linux_hardware_concurrency_def)

definition windows_hardware_concurrency :: "u32 \<Rightarrow> usize" where
  "windows_hardware_concurrency dwNumberOfProcessors = ucast dwNumberOfProcessors"

section \<open>The invariant\<close>

lemma th_no_kernel: "th_exec m l = Some (m', l', k) \<Longrightarrow> k = KNone"
  by (cases l) (auto split: if_splits)

text \<open>Who is responsible for a context, and who is on the way to call its function.\<close>

fun th_owns :: "nat \<Rightarrow> th_pc \<Rightarrow> bool" where
  "th_owns a (ThCreateThread ctx) = (ctx = a)"
| "th_owns a (ThSpawn ctx) = (ctx = a)"
| "th_owns a (ThDeleteFailed ctx) = (ctx = a)"
| "th_owns a (ThFunc ctx) = (ctx = a)"
| "th_owns a (ThArg ctx func) = (ctx = a)"
| "th_owns a (ThDelete ctx c) = (ctx = a)"
| "th_owns a _ = False"

fun th_runs :: "nat \<Rightarrow> th_pc \<Rightarrow> bool" where
  "th_runs a (ThFunc ctx) = (ctx = a)"
| "th_runs a (ThArg ctx func) = (ctx = a)"
| "th_runs a (ThDelete ctx c) = (ctx = a)"
| "th_runs a (ThCall ctx c) = (ctx = a)"
| "th_runs a _ = False"

fun th_creates :: "nat \<Rightarrow> th_pc \<Rightarrow> bool" where
  "th_creates a (ThCreateThread ctx) = (ctx = a)"
| "th_creates a (ThSpawn ctx) = (ctx = a)"
| "th_creates a _ = False"

fun th_local :: "th_mem \<Rightarrow> th_pc \<Rightarrow> bool" where
  "th_local m (ThArg ctx func) = (func = tc_func (g_contexts m ! ctx) \<and> ctx < length (g_contexts m))"
| "th_local m (ThDelete ctx c) = (c = g_contexts m ! ctx \<and> ctx < length (g_contexts m))"
| "th_local m (ThCall ctx c) = (c = g_contexts m ! ctx \<and> ctx < length (g_contexts m))"
| "th_local m _ = True"

text \<open>
  A context is live exactly while one thread, or the system, is responsible for it; a context of a
  created thread has been called, is on the way to its call, or waits for the system.
\<close>

definition th_heap_ok :: "th_mem \<Rightarrow> bool" where
  "th_heap_ok m \<longleftrightarrow> length (th_heap m) = length (g_contexts m) \<and>
     (\<forall>a c. th_read m a = Some c \<longrightarrow> g_contexts m ! a = c) \<and>
     list_all (\<lambda>(a, c). a < length (g_contexts m) \<and> c = g_contexts m ! a) (g_calls m)"

definition th_owned :: "th_mem \<Rightarrow> th_pc list \<Rightarrow> nat \<Rightarrow> bool" where
  "th_owned m ls a \<longleftrightarrow> cnt (th_owns a) ls + count_list (th_started m) a = of_bool (th_read m a \<noteq> None)"

definition th_called :: "th_mem \<Rightarrow> th_pc list \<Rightarrow> nat \<Rightarrow> bool" where
  "th_called m ls a \<longleftrightarrow>
     count_list (map fst (g_calls m)) a + cnt (th_runs a) ls + count_list (th_started m) a = count_list (g_created m) a \<and>
     count_list (g_created m) a + cnt (th_creates a) ls \<le> of_bool (a < length (th_heap m))"

definition th_inv :: "th_mem \<Rightarrow> th_pc list \<Rightarrow> bool" where
  "th_inv m ls \<longleftrightarrow> th_heap_ok m \<and> (\<forall>a. th_owned m ls a \<and> th_called m ls a) \<and>
     (\<forall>t < length ls. th_local m (ls ! t))"

lemma count_list_remove: "i < length xs \<Longrightarrow>
    count_list (take i xs @ drop (Suc i) xs) a + of_bool (xs ! i = a) = count_list xs a"
proof -
  assume "i < length xs"
  then have "count_list xs a = count_list (take i xs @ xs ! i # drop (Suc i) xs) a"
    by (simp only: id_take_nth_drop [symmetric])
  then show ?thesis by simp
qed

lemma th_read_append: "th_read (m\<lparr>th_heap := th_heap m @ [Some c], g_contexts := gc\<rparr>) a =
    (if a = length (th_heap m) then Some c else th_read m a)"
  by (simp add: th_read_def nth_append)

lemma th_read_delete: "th_read (th_delete m ctx) a = (if a = ctx then None else th_read m a)"
  by (auto simp: th_read_def th_delete_def nth_list_update)

lemma th_read_other [simp]:
  "th_read (m\<lparr>th_started := x\<rparr>) a = th_read m a" "th_read (m\<lparr>g_created := y\<rparr>) a = th_read m a"
  "th_read (m\<lparr>g_calls := z\<rparr>) a = th_read m a"
  by (simp_all add: th_read_def)

lemma th_delete_simps [simp]:
  "th_started (th_delete m ctx) = th_started m" "g_contexts (th_delete m ctx) = g_contexts m"
  "g_created (th_delete m ctx) = g_created m" "g_calls (th_delete m ctx) = g_calls m"
  "length (th_heap (th_delete m ctx)) = length (th_heap m)"
  by (simp_all add: th_delete_def)

text \<open>Who is responsible moves with every transition; the numbers on both sides of the equations agree.\<close>

lemma th_exec_owned: "th_exec m l = Some (m', l', k) \<Longrightarrow>
    of_bool (th_owns a l') + count_list (th_started m') a + of_bool (th_read m a \<noteq> None) =
    of_bool (th_owns a l) + count_list (th_started m) a + (of_bool (th_read m' a \<noteq> None) :: nat)"
proof (cases l)
  case (ThBuild c)
  moreover have "th_read m (length (th_heap m)) = None" by (simp add: th_read_def)
  ultimately show "th_exec m l = Some (m', l', k) \<Longrightarrow> ?thesis" by (auto simp: th_read_append)
next
  case (ThBegin i)
  moreover assume "th_exec m l = Some (m', l', k)"
  ultimately show ?thesis
    using count_list_remove [of i "th_started m" a] by (auto split: if_splits)
qed (auto simp: th_read_delete split: if_splits)

lemma th_exec_called: "th_exec m l = Some (m', l', k) \<Longrightarrow>
    count_list (map fst (g_calls m')) a + of_bool (th_runs a l') + count_list (th_started m') a + count_list (g_created m) a =
    count_list (map fst (g_calls m)) a + of_bool (th_runs a l) + count_list (th_started m) a + count_list (g_created m') a"
proof (cases l)
  case (ThBegin i)
  moreover assume "th_exec m l = Some (m', l', k)"
  ultimately show ?thesis
    using count_list_remove [of i "th_started m" a] by (auto split: if_splits)
qed (auto split: if_splits)

lemma th_exec_created: "th_exec m l = Some (m', l', k) \<Longrightarrow>
    count_list (g_created m') a + of_bool (th_creates a l') + of_bool (a < length (th_heap m)) =
    count_list (g_created m) a + of_bool (th_creates a l) + (of_bool (a < length (th_heap m')) :: nat)"
  by (cases l) (auto split: if_splits)

lemma th_exec_heap:
  assumes ex: "th_exec m l = Some (m', l', k)" and ok: "th_heap_ok m" and loc: "th_local m l"
  shows "th_heap_ok m'" and "th_local m' l'" and "\<And>u. th_local m u \<Longrightarrow> th_local m' u"
proof -
  have grow: "\<exists>xs. g_contexts m' = g_contexts m @ xs" using ex by (cases l) (auto split: if_splits)
  then show "th_local m u \<Longrightarrow> th_local m' u" for u by (cases u) (auto simp: nth_append)
  have read: "th_read m a = Some c \<Longrightarrow> g_contexts m ! a = c \<and> a < length (g_contexts m)" for a c
    using ok by (auto simp: th_heap_ok_def th_read_def split: if_splits)
  show "th_local m' l'" using ex loc read by (cases l) (auto split: if_splits)
  show "th_heap_ok m'"
  proof (cases l)
    case (ThBuild c)
    with ex have m': "m' = m\<lparr>th_heap := th_heap m @ [Some c], g_contexts := g_contexts m @ [c]\<rparr>" by simp
    have "list_all (\<lambda>(a, c). a < length (g_contexts m') \<and> c = g_contexts m' ! a) (g_calls m')"
      using ok m' by (auto simp: th_heap_ok_def nth_append list_all_iff)
    moreover have "length (th_heap m') = length (g_contexts m')" using ok m' by (simp add: th_heap_ok_def)
    moreover have "th_read m' a = Some x \<Longrightarrow> g_contexts m' ! a = x" for a x
      using ok m' by (auto simp: th_heap_ok_def th_read_append nth_append th_read_def split: if_splits)
    ultimately show ?thesis by (simp add: th_heap_ok_def)
  next
    case (ThCall ctx c)
    with ex have "m' = m\<lparr>g_calls := g_calls m @ [(ctx, c)]\<rparr>" by simp
    with ThCall ok loc show ?thesis by (simp add: th_heap_ok_def)
  qed (use ex ok in \<open>auto simp: th_heap_ok_def th_read_delete split: if_splits\<close>)
qed

lemma th_start_keeps:
  assumes "th_start op l = Some l'"
  shows "th_owns a l' = th_owns a l" and "th_runs a l' = th_runs a l" and "th_creates a l' \<Longrightarrow> th_creates a l"
    and "th_local m l'"
  using assms by (cases op; cases l; auto split: if_splits)+

lemma th_inv_start:
  assumes I: "th_inv m ls" and t: "t < length ls" and op: "th_start op (ls ! t) = Some l"
  shows "th_inv m (ls[t := l])"
proof -
  note k = th_start_keeps [OF op]
  have own: "cnt (th_owns a) (ls[t := l]) = cnt (th_owns a) ls" "cnt (th_runs a) (ls[t := l]) = cnt (th_runs a) ls" for a
    using t k by (simp_all add: cnt_update_same)
  have le: "cnt (th_creates a) (ls[t := l]) \<le> cnt (th_creates a) ls" for a
    using cnt_update [OF t, of "th_creates a" l] k(3) [of a] by (cases "th_creates a l") auto
  have local: "\<forall>u < length (ls[t := l]). th_local m (ls[t := l] ! u)"
    using I k(4) unfolding th_inv_def by (intro all_nth_update) auto
  have "th_owned m ls a" and called: "th_called m ls a" for a using I by (simp_all add: th_inv_def)
  then have "th_owned m (ls[t := l]) a" for a by (simp only: th_owned_def own)
  moreover have "th_called m (ls[t := l]) a" for a
    using called [of a] le [of a] unfolding th_called_def own by linarith
  ultimately show ?thesis using I local by (simp add: th_inv_def)
qed

lemma th_inv_exec:
  assumes I: "th_inv m ls" and t: "t < length ls" and ex: "th_exec m (ls ! t) = Some (m', l, k)"
  shows "th_inv m' (ls[t := l])"
proof -
  have loc: "th_local m (ls ! t)" and ok: "th_heap_ok m" using I t by (simp_all add: th_inv_def)
  note h = th_exec_heap [OF ex ok loc]
  have "th_owned m' (ls[t := l]) a" for a
  proof -
    have "th_owned m ls a" using I by (simp add: th_inv_def)
    then show ?thesis using cnt_update [OF t, of "th_owns a" l] th_exec_owned [OF ex, of a]
      unfolding th_owned_def by linarith
  qed
  moreover have "th_called m' (ls[t := l]) a" for a
  proof -
    have "th_called m ls a" using I by (simp add: th_inv_def)
    then show ?thesis
      using cnt_update [OF t, of "th_runs a" l] cnt_update [OF t, of "th_creates a" l]
        th_exec_called [OF ex, of a] th_exec_created [OF ex, of a] unfolding th_called_def by linarith
  qed
  moreover have "\<forall>u < length (ls[t := l]). th_local m' (ls[t := l] ! u)"
    using I h(2,3) unfolding th_inv_def by (intro all_nth_update) auto
  ultimately show ?thesis using h(1) by (simp add: th_inv_def)
qed

lemma th_inv_init: "th_inv th_mem0 (replicate n (ThOut ThNothing) @ replicate p ThPool)"
proof -
  have "cnt P (replicate n (ThOut ThNothing) @ replicate p ThPool) = 0" if "\<not> P (ThOut ThNothing)" "\<not> P ThPool" for P
    using that by (simp add: cnt_def filter_replicate)
  then show ?thesis
    by (auto simp: th_inv_def th_heap_ok_def th_owned_def th_called_def th_mem0_def th_read_def nth_append)
qed

lemma th_invariant:
  assumes "th_reachable n p s"
  shows "th_inv (shm s) (pcs s) \<and> waitq s = []"
proof (rule reachable_invariant [OF assms])
  show "th_inv (shm (th_init n p)) (pcs (th_init n p)) \<and> waitq (th_init n p) = []"
    using th_inv_init by (simp add: th_init_def)
next
  fix s a s' assume I: "th_inv (shm s) (pcs s) \<and> waitq s = []" and stp: "th_step a s = Some s'"
  from stp [unfolded th_step_def] show "th_inv (shm s') (pcs s') \<and> waitq s' = []"
  proof (cases rule: sys_stepE)
    case (invoke t op l)
    with I th_inv_start [of "shm s" "pcs s" t op l] show ?thesis by simp
  next
    case (exec t ws w l k q)
    with I th_inv_exec [of "shm s" "pcs s" t w l k] th_no_kernel [OF exec(4)] show ?thesis by simp
  qed (use I in auto)
qed

section \<open>Properties\<close>

text \<open>
  Thread 0 creates a thread; thread 2 is begun with its context, reads and deletes it. Thread 1's
  \<^verbatim>\<open>CreateThread\<close> has failed.
\<close>

definition th_demo :: "th_op act list" where
  "th_demo = [Invoke 0 (ThCreate 5 7), Invoke 0 (ThMemory True), Step 0 [], Invoke 0 (ThSystem True), Step 0 [],
     Invoke 1 (ThCreate 6 8), Invoke 1 (ThMemory True), Step 1 [], Invoke 1 (ThSystem False),
     Invoke 2 (ThPick 0), Step 2 [], Step 2 [], Step 2 []]"

definition th_deleting :: "(th_mem, th_pc) fsys" where
  "th_deleting = \<lparr>shm = \<lparr>th_heap = [Some \<lparr>tc_func = 5, tc_arg = 7\<rparr>, Some \<lparr>tc_func = 6, tc_arg = 8\<rparr>], th_started = [],
      g_contexts = [\<lparr>tc_func = 5, tc_arg = 7\<rparr>, \<lparr>tc_func = 6, tc_arg = 8\<rparr>], g_created = [0], g_calls = []\<rparr>,
    waitq = [], pcs = [ThHandle, ThDeleteFailed 1, ThDelete 0 \<lparr>tc_func = 5, tc_arg = 7\<rparr>]\<rparr>"

definition th_done :: "(th_mem, th_pc) fsys" where
  "th_done = \<lparr>shm = \<lparr>th_heap = [None, None], th_started = [],
      g_contexts = [\<lparr>tc_func = 5, tc_arg = 7\<rparr>, \<lparr>tc_func = 6, tc_arg = 8\<rparr>], g_created = [0],
      g_calls = [(0, \<lparr>tc_func = 5, tc_arg = 7\<rparr>)]\<rparr>,
    waitq = [], pcs = [ThOut (ThReturned True), ThOut (ThReturned False), ThExit]\<rparr>"

lemma th_deleting_reachable: "th_reachable 2 1 th_deleting"
  by (rule run_reachable [of _ th_demo]) code_simp

lemma th_done_reachable: "th_reachable 2 1 th_done"
  by (rule run_reachable [of _ "th_demo @ [Step 0 [], Step 1 [], Step 2 [], Step 2 []]"]) code_simp

text \<open>The threads that are not in the middle of a call.\<close>

fun th_resting :: "th_pc \<Rightarrow> bool" where
  "th_resting (ThOut r) = True"
| "th_resting (ThNew c) = True"
| "th_resting ThPool = True"
| "th_resting ThExit = True"
| "th_resting _ = False"

text \<open>
  C40. The contexts are owned: in every state of any number of threads that create and are created, with
  the allocator and \<^verbatim>\<open>CreateThread\<close> failing as they like, a thread at a point that uses or deletes a
  context finds it live and is the only one responsible for it; and when every call has ended and no
  thread waits to begin, no context is left and every created thread has called its function, once, with
  its own argument.
\<close>
theorem thread_contexts_owned:
  assumes reach: "th_reachable n p s"
  shows "(\<forall>t < length (pcs s). \<forall>ctx. th_owns ctx (pcs s ! t) \<longrightarrow> th_read (shm s) ctx \<noteq> None \<and>
      ctx \<notin> set (th_started (shm s)) \<and> (\<forall>u < length (pcs s). th_owns ctx (pcs s ! u) \<longrightarrow> u = t)) \<and>
    (list_all th_resting (pcs s) \<and> th_started (shm s) = [] \<longrightarrow>
      (\<forall>ctx. th_read (shm s) ctx = None) \<and>
      (\<forall>ctx. count_list (map fst (g_calls (shm s))) ctx = count_list (g_created (shm s)) ctx \<and>
        count_list (g_created (shm s)) ctx \<le> 1) \<and>
      (\<forall>(ctx, c) \<in> set (g_calls (shm s)). c = g_contexts (shm s) ! ctx))"
proof -
  have I: "th_inv (shm s) (pcs s)" using th_invariant [OF reach] by simp
  then have own: "th_owned (shm s) (pcs s) a" and call: "th_called (shm s) (pcs s) a" for a by (simp_all add: th_inv_def)
  show ?thesis
  proof (intro conjI allI impI)
    fix t ctx assume t: "t < length (pcs s)" "th_owns ctx (pcs s ! t)"
    have one: "1 \<le> cnt (th_owns ctx) (pcs s)" using cnt_ge1 [of t "pcs s" "th_owns ctx"] t by simp
    show live: "th_read (shm s) ctx \<noteq> None"
      using own [of ctx] one by (cases "th_read (shm s) ctx") (simp_all add: th_owned_def)
    with own [of ctx] one have "cnt (th_owns ctx) (pcs s) = 1" "count_list (th_started (shm s)) ctx = 0"
      by (simp_all add: th_owned_def)
    then show "ctx \<notin> set (th_started (shm s))" by (simp add: count_list_0_iff)
    fix u assume "u < length (pcs s)" "th_owns ctx (pcs s ! u)"
    with t show "u = t" using cnt_le1_unique [of "th_owns ctx" "pcs s" u t] \<open>cnt (th_owns ctx) (pcs s) = 1\<close> by simp
  next
    assume rest: "list_all th_resting (pcs s) \<and> th_started (shm s) = []"
    then have none: "\<not> th_owns a (pcs s ! u)" "\<not> th_runs a (pcs s ! u)" if "u < length (pcs s)" for a u
      using that by (cases "pcs s ! u"; force simp: list_all_length)+
    then have z: "cnt (th_owns a) (pcs s) = 0" "cnt (th_runs a) (pcs s) = 0" for a by (simp_all add: cnt_0_iff)
    fix ctx
    show "th_read (shm s) ctx = None" using own [of ctx] z rest by (auto simp: th_owned_def)
    show "count_list (map fst (g_calls (shm s))) ctx = count_list (g_created (shm s)) ctx"
      "count_list (g_created (shm s)) ctx \<le> 1" using call [of ctx] z rest by (auto simp: th_called_def of_bool_def split: if_splits)
  next
    show "\<forall>(ctx, c) \<in> set (g_calls (shm s)). c = g_contexts (shm s) ! ctx"
      using I by (auto simp: th_inv_def th_heap_ok_def list_all_iff)
  qed
qed

theorem thread_contexts_owned_witness:
  "th_owns 0 (pcs th_deleting ! 2) \<and> th_read (shm th_deleting) 0 \<noteq> None \<and>
   list_all th_resting (pcs th_done) \<and> th_read (shm th_done) 1 = None \<and>
   count_list (map fst (g_calls (shm th_done))) 0 = count_list (g_created (shm th_done)) 0"
proof -
  have o: "th_owns 0 (pcs th_deleting ! 2)" "length (pcs th_deleting) = 3" by (simp_all add: th_deleting_def)
  have d: "list_all th_resting (pcs th_done)" "th_started (shm th_done) = []" by (simp_all add: th_done_def)
  from thread_contexts_owned [OF th_deleting_reachable, THEN conjunct1, rule_format, of 2 0] o
  have "th_read (shm th_deleting) 0 \<noteq> None" by simp
  moreover from thread_contexts_owned [OF th_done_reachable] d have "th_read (shm th_done) 1 = None"
    "count_list (map fst (g_calls (shm th_done))) 0 = count_list (g_created (shm th_done)) 0" by simp_all
  ultimately show ?thesis using o d by simp
qed

text \<open>\<open>thread_join\<close> waits before it closes, and touches neither a null nor an invalid handle.\<close>

theorem thread_join_calls:
  "thread_join handle = [] \<longleftrightarrow> handle = 0 \<or> handle = - 1"
  "CloseHandle h \<in> set (thread_join handle) \<Longrightarrow> thread_join handle = [WaitForSingleObject h 0xFFFFFFFF, CloseHandle h]"
  by (auto simp: thread_join_def split: if_splits)

end
