(* ===== verification/Spec2Isabelle.thy ===== *)
theory Spec2Isabelle
  imports Mutex SpinLock SharedMutex Semaphore Latch Once Baton Barrier SeqLock SpscQueue MpscQueue CondVar
    MicroLock TaggedPtr Locks Guards Epoch EpochTso MpscIntrusive Telemetry BatchStats WinFutex Platform
    Monitor Queries Threads
begin

text \<open>
  psync is a header-only library of synchronization primitives: locks of one to four bytes that sleep in
  the kernel's futex, events and counters built on the same call, queues without locks, epoch-based
  reclamation, and the wrappers and statistics around them. This library models the headers under
  \<^verbatim>\<open>src/include/psync\<close> and proves what their users rely on.

  \<^bold>\<open>How a component is modelled.\<close> The memory a component shares is a machine word or a \<open>record\<close> with the
  names of the code's fields (\<open>..._mem\<close>); fields beginning with \<open>g_\<close> are auxiliary, written for the
  statements and read by no step. A thread is at a point (\<open>..._pc\<close>), a \<open>datatype\<close> whose constructors carry
  the local variables that are live there. \<open>..._start\<close> says which operation may begin at which point and
  \<open>..._exec\<close> is one step of a thread: at most one access to shared memory, the branch the code takes on what
  it read, and what it asks of the kernel. The result \<open>None\<close> is a thread that cannot move. \<open>sys_step\<close> of
  \<open>Futex\<close> interleaves the threads; the actions are an invocation, a step with the kernel's choice of the
  threads it wakes, and a wake-up for no reason, so a theorem over \<open>reachable\<close> holds for every schedule,
  every choice of the kernel and every spurious wake-up. What a callable, a predicate, a clock or a cycle
  counter gives is chosen by the environment. Time-outs appear as the environment's choice to return.
  A theorem that no wake-up is lost gives a schedule of \<open>steps\<close> of the calls under way alone, without new
  operations and without spurious wake-ups: a sleeper can leave the kernel there only by a wake of the code.

  \<^bold>\<open>The theories.\<close>
  \<^item> \<open>Psync_Prelude\<close>: machine types, counting over the thread list, masks as arithmetic, runs and reachable
    states, simulation.
  \<^item> \<open>Atomics\<close>, \<open>Futex\<close>, \<open>Platform\<close>, \<open>WinFutex\<close> (\<^verbatim>\<open>psync_platform.h\<close>, \<^verbatim>\<open>psync_cache_padded.h\<close>): the atomic
    primitives in both compiler branches and their equivalence; the Linux wrappers with the system call as
    a parameter, and the documented contract of wait and wake; the Darwin wrappers, the time-outs of the
    three systems and the padding; the Windows lookup and its fallback.
  \<^item> \<open>Mutex\<close>, \<open>SpinLock\<close>, \<open>SharedMutex\<close> (\<^verbatim>\<open>psync_mutex.h\<close>, \<^verbatim>\<open>psync_spinlock.h\<close>, \<^verbatim>\<open>psync_shared.h\<close>): exclusion, what
    each word says of the threads, no lost wake-up, and the refinement of the abstract locks of \<open>Lock_Spec\<close>:
    for the reader/writer lock, whose abstract state has the readers with repetitions and the writers that
    wait, by the events of every step.
  \<^item> \<open>Semaphore\<close>, \<open>Latch\<close>, \<open>Once\<close>, \<open>Baton\<close>, \<open>Barrier\<close>, \<open>CondVar\<close>, \<open>SeqLock\<close> (the headers of these names): what a
    return implies, and that nobody sleeps past the event; with the calls for which this fails.
  \<^item> \<open>Monitor\<close>: the condition variable and the lock it is used with as one program. \<open>mon_step\<close> runs the steps
    of \<open>CondVar\<close> and, at the points that call the lock, those of \<open>Mutex\<close>, \<open>SpinLock\<close> or the writer side of
    \<open>SharedMutex\<close>, each with its own wait queue; its two projections are reachable states of the parts, so
    what was proved of them holds of the whole, and no wake-up is lost between them. The requeue of
    \<open>broadcast(Mutex&)\<close> moves nobody: the header passes the number of another operation.
  \<^item> \<open>ParkingLot\<close>, \<open>Parking\<close>, \<open>MicroLock\<close>, \<open>TaggedPtr\<close> (\<^verbatim>\<open>psync_microlock.h\<close>, \<^verbatim>\<open>psync_tagged_ptr.h\<close>): the bucket
    queues as linked nodes and their refinement to lists, the parking protocol, and its two clients.
  \<^item> \<open>SpscQueue\<close>, \<open>MpscQueue\<close>, \<open>MpscIntrusive\<close> (\<^verbatim>\<open>psync_spsc_queue.h\<close>, \<^verbatim>\<open>psync_mpsc_queue.h\<close>,
    \<^verbatim>\<open>psync_mpsc_intrusive.h\<close>): first in, first out, through the wrap-around of the indices, results of the
    calls, lifetimes of the objects in the slots, wait-freedom.
  \<^item> \<open>Epoch\<close>, \<open>EpochTso\<close> (\<^verbatim>\<open>psync_epoch.h\<close>): no use after free with sequentially consistent memory; with store
    buffers a run that breaks it, and that it holds in every run in which no thread goes on in its critical
    section before its store of \<open>enter\<close> has reached memory. \<open>drained_step\<close> there belongs to the proof.
  \<^item> \<open>Locks\<close>, \<open>Guards\<close> (\<^verbatim>\<open>psync_locks.h\<close>, \<^verbatim>\<open>psync_batch.h\<close> and the guard classes of the lock headers): ownership
    through any use of the wrappers, scopes that leave the mutexes as they were, guards inside one another.
    One thread calls the abstract locks there while the others stand still.
  \<^item> \<open>Queries\<close>: what the queues and the wrappers answer about themselves, and the write guard of
    \<^verbatim>\<open>psync_seqlock.h\<close>.
  \<^item> \<open>Threads\<close> (\<^verbatim>\<open>psync_platform.h\<close>): the thread helpers of the test build and the contexts they hand over.
  \<^item> \<open>Telemetry\<close>, \<open>BatchStats\<close> (\<^verbatim>\<open>psync_telemetry.h\<close>, \<^verbatim>\<open>psync_batch.h\<close>): what the counters count.

  \<^bold>\<open>Interfaces.\<close> \<open>futex_client\<close> is what the interleaving asks of a component, and gives the shape of the wait
  queue and the induction over its runs; \<open>wake_all_client\<close> extends it for components whose wakes take every
  sleeper. \<open>parking_client\<close> is the same for the users of the parking lot. \<open>exclusive_lock\<close> asks a
  lock for its laws and gives the refinement of the abstract lock, \<open>rw_lock\<close> asks for the exclusion of readers
  and writers (a \<open>sublocale\<close> gives its writers the former), and \<open>rw_refinement\<close> for the simulation of the
  abstract reader/writer lock by the events of each step; \<open>basic_lockable\<close> is what the wrappers ask
  of the abstract lock in turn. \<open>monitor_lock\<close> joins \<open>futex_client\<close> and \<open>exclusive_lock\<close> with what a waiting
  call relies on, and \<open>monitor_live\<close> adds that a free lock can be had. Each is interpreted on the definitions of the components that provide it.

  \<^bold>\<open>Bounds.\<close> The width of a counter is a hypothesis where the code relies on it: \<open>2 ^ 31\<close> threads for a mutex
  and for a wake of all, \<open>2 ^ 15\<close> for a shared mutex and \<open>2 ^ 16 - 1\<close> read locks at a time, \<open>2 ^ 32\<close> for tickets, notifications and writes under
  way, a capacity of at most \<open>2 ^ 63\<close> for the queues and positions below \<open>2 ^ 62\<close> for the multi-producer one, \<open>2 ^ 64 - 1\<close> epochs. Fuel
  occurs only in \<open>spsc_call\<close> (four steps, which \<open>spsc_call_returns\<close> shows to be enough) and as the number of
  steps of \<open>plain_run\<close>, over which the theorems quantify.

  \<^bold>\<open>Abstractions.\<close> Memory orders are carried and have no effect: the interleaving is sequentially consistent,
  except in \<open>EpochTso\<close>. Under a mutex or a bucket lock a critical section is one step where nothing else is
  accessed in it; the bucket queues are lists there, which \<open>ParkingLot\<close> derives from the nodes. The lock
  inside a telemetry lock is an abstract one, and the one in \<open>CondVar\<close>, for which \<open>Monitor\<close> puts the real
  ones. Nodes, entries and values are numbers;
  a deleted node is a mark.

  \<^bold>\<open>Not modelled.\<close> Memory orders weaker than the above; pauses, yields and compiler fences, which touch no
  memory; the rounding of the averages to floating point and the text printed with them; the
  assertions of the test build, which trap; the accessors that return a reference to a field;
  \<^verbatim>\<open>psync.h\<close>, which only includes the others.
\<close>

end
